(* ===== verification/Tunnel_Prelude.thy ===== *)
theory Tunnel_Prelude
  imports Main "HOL-Library.Word" "HOL-Library.AList"
begin

unbundle bit_operations_syntax

text \<open>
  Shared vocabulary of the development: the machine integers and byte strings of the Go
  sources, the little-endian readers and writers of \<open>encoding/binary\<close>, 64-bit signed
  arithmetic with its wrap-around, Go maps as association lists with the locale that
  states their contract, object stores (a pointer is an index), the error values every
  handler can return, and the loop \<open>for ... { if err := step(x); err != nil { return err } }\<close>
  that the gateway runs over instructions and cached actions.
\<close>

named_theorems heap_simps \<open>reading and writing an object store\<close>
named_theorems codec_simps \<open>lengths and inverses of encoders\<close>

section \<open>Machine integers and byte strings\<close>

type_synonym byte = "8 word"
type_synonym bytes = "byte list"
type_synonym u16 = "16 word"
type_synonym u32 = "32 word"
type_synonym u64 = "64 word"

text \<open>
  A Go \<open>int64\<close> is an \<open>int\<close> in \<open>[-2^63, 2^63)\<close>; \<open>i64\<close> is the wrap-around every
  operation on it applies.
\<close>

definition i64 :: "int \<Rightarrow> int" where
  "i64 x = (x + 2 ^ 63) mod 2 ^ 64 - 2 ^ 63"

definition MaxInt64 :: int where
  "MaxInt64 = 2 ^ 63 - 1"

definition is_i64 :: "int \<Rightarrow> bool" where
  "is_i64 x \<longleftrightarrow> - (2 ^ 63) \<le> x \<and> x < 2 ^ 63"

lemma is_i64_i64 [simp]: "is_i64 (i64 x)"
proof -
  have "0 \<le> (x + 2 ^ 63) mod 2 ^ 64" and "(x + 2 ^ 63) mod 2 ^ 64 < (2 :: int) ^ 64"
    by simp_all
  then show ?thesis unfolding is_i64_def i64_def by simp
qed

lemma i64_id: "is_i64 x \<Longrightarrow> i64 x = x"
  by (simp add: is_i64_def i64_def)

lemma i64_add_left [simp]: "i64 (i64 x + y) = i64 (x + y)"
proof -
  have "(i64 x + y + 2 ^ 63) mod 2 ^ 64 = (y + (x + 2 ^ 63) mod 2 ^ 64) mod (2 :: int) ^ 64"
    by (simp add: i64_def add.commute)
  also have "\<dots> = (y + (x + 2 ^ 63)) mod 2 ^ 64"
    by (rule mod_add_right_eq)
  finally show ?thesis by (simp add: i64_def algebra_simps)
qed

lemma i64_add_right [simp]: "i64 (x + i64 y) = i64 (x + y)"
  using i64_add_left [of y x] by (simp add: add.commute)

lemma word_xor_cancel_right [simp]: "a XOR x = b XOR x \<longleftrightarrow> a = b" for a b x :: "'a::len word"
proof
  assume "a XOR x = b XOR x"
  then have "(a XOR x) XOR x = (b XOR x) XOR x" by (rule arg_cong)
  then show "a = b" by (simp add: xor.assoc)
qed simp

lemma word_xor_cancel_left [simp]: "x XOR a = x XOR b \<longleftrightarrow> a = b" for a b x :: "'a::len word"
  using word_xor_cancel_right [of a x b] by (simp add: xor.commute)

section \<open>Little-endian integers (encoding/binary)\<close>

primrec put_le :: "nat \<Rightarrow> 'a::len word \<Rightarrow> bytes" where
  "put_le 0 w = []"
| "put_le (Suc n) w = ucast w # put_le n (drop_bit 8 w)"

primrec get_le :: "bytes \<Rightarrow> 'a::len word" where
  "get_le [] = 0"
| "get_le (b # bs) = ucast b OR push_bit 8 (get_le bs)"

abbreviation put_u32 :: "u32 \<Rightarrow> bytes" where "put_u32 \<equiv> put_le 4"
abbreviation put_u64 :: "u64 \<Rightarrow> bytes" where "put_u64 \<equiv> put_le 8"

lemma length_put_le [simp, codec_simps]: "length (put_le n w) = n"
  by (induction n arbitrary: w) simp_all

lemma get_le_put_le: "get_le (put_le n w) = take_bit (8 * n) (w :: 'a::len word)"
proof (induction n arbitrary: w)
  case 0
  then show ?case by simp
next
  case (Suc n)
  show ?case
  proof (rule bit_word_eqI)
    fix k
    assume k: "k < LENGTH('a)"
    have "bit (get_le (put_le (Suc n) w) :: 'a word) k \<longleftrightarrow>
        (k < 8 \<and> bit w k) \<or> (8 \<le> k \<and> k - 8 < 8 * n \<and> bit w k)"
      using k by (auto simp: Suc bit_simps)
    then show "bit (get_le (put_le (Suc n) w) :: 'a word) k = bit (take_bit (8 * Suc n) w) k"
      by (auto simp: bit_simps)
  qed
qed

lemma get_put_u32 [simp, codec_simps]: "get_le (put_u32 w) = w"
  by (simp only: get_le_put_le) (simp add: take_bit_word_eq_self)

lemma get_put_u64 [simp, codec_simps]: "get_le (put_u64 w) = w"
  by (simp only: get_le_put_le) (simp add: take_bit_word_eq_self)

lemma take_put_le [simp, codec_simps]: "take n (put_le n w @ rest) = put_le n w"
  by simp

lemma drop_put_le [simp, codec_simps]: "drop n (put_le n w @ rest) = rest"
  by simp

declare put_le.simps [simp del]
declare get_le.simps [simp del]

text \<open>
  \<open>binary.LittleEndian.Uint32\<close> and \<open>Uint64\<close> panic on a slice that is too short; the
  model returns that panic as a value.
\<close>

section \<open>Errors and panics\<close>

text \<open>
  One constructor per \<open>fmt.Errorf\<close> or sentinel of the sources that a caller can tell apart;
  wrapping with \<open>%w\<close> keeps the inner constructor. The errors of the initiator's tunnel and of
  its set-up are types of their own. A run-time panic (nil pointer, slice
  bounds, division by zero) is an error value of its own, so that it is a visible branch.
\<close>

datatype tunnel_error =
    ErrChainsEmpty | ErrLastNotUs | ErrHash
  | ErrTunnelState u32 | ErrPayloadType | ErrIPLen nat | ErrPort u32 | ErrReadFull
  | ErrNotReady | ErrDestroyed | ErrNotPrepaid | ErrAddrType | ErrCanceled
  | ErrGenerateTunnel | ErrOpenChannel | ErrChannelStatus

datatype setup_error =
    ErrNoNodes | ErrNotEnoughNodes | ErrNoMoreRoutes | ErrRouteCanceled | ErrRouteNotAccepted
  | ErrKeySize | ErrJettonMaster | ErrCoinConfig | ErrPaymentFee | ErrPaymentCap
  | ErrNoPaymentNodes | ErrListChannels | ErrAccount | ErrDeploy | ErrGetChannel | ErrChannelKey
  | ErrStoreAddress | ErrFindOverlay | ErrNewNode | ErrStoreOverlay
  | ErrSockLength | ErrSockFamily

datatype go_error =
    ErrNotConnected | ErrSendFailed
  | ErrRoutingNotAllowed | ErrOutNotAllowed | ErrLowPrice | ErrTooManyRoutes nat
  | ErrNoRoute u32 | ErrRateLimit u32 | ErrNoTunnel u32 | ErrUnsupportedInList
  | ErrCorruptedData nat | ErrChecksum | ErrCipher | ErrSharedKey | ErrRand
  | ErrCorruptedInstructions nat | ErrUnsupportedInstruction nat | ErrParse | ErrSerialize
  | ErrNoInstructions | ErrTooDeep
  | ErrSectionMissing | ErrRepeatCached | ErrCacheEmpty | ErrRepeat
  | ErrTooManyInstructions | ErrUnsupportedMessage
  | ErrPaymentsDisabled | ErrStateCell | ErrAmountNotPositive | ErrInvalidState
  | ErrChannelMeta | ErrLatestState | ErrDirection | ErrHasOutgoing | ErrCapacityFormat
  | ErrPurposeChange | ErrChannelInactive | ErrDeadlineShort | ErrOutMissing | ErrLowCapacity
  | ErrPaymentNotRequired u32 | ErrUnknownPurpose u64 | ErrResolve
  | ErrNoAddresses | ErrListen | ErrInvalidIP | ErrPrepaidIn | ErrPrepaidOut | ErrWriteOut
  | ErrFindAddresses | ErrEmptyAddressList | ErrRegisterPeer
  | ErrEmptyPaymentTunnel | ErrFeesNotCovered
  | ErrTunnel tunnel_error | ErrSetup setup_error
  | PanicNil | PanicIndex | PanicDivZero | PanicMust

definition is_panic :: "go_error \<Rightarrow> bool" where
  "is_panic e \<longleftrightarrow> e \<in> {PanicNil, PanicIndex, PanicDivZero, PanicMust}"

definition Uint32 :: "bytes \<Rightarrow> go_error + u32" where
  "Uint32 bs = (if length bs < 4 then Inl PanicIndex else Inr (get_le (take 4 bs)))"

definition Uint64 :: "bytes \<Rightarrow> go_error + u64" where
  "Uint64 bs = (if length bs < 8 then Inl PanicIndex else Inr (get_le (take 8 bs)))"

lemma Uint32_put [simp, codec_simps]: "Uint32 (put_u32 w @ rest) = Inr w"
  by (simp add: Uint32_def)

lemma Uint64_put [simp, codec_simps]: "Uint64 (put_u64 w @ rest) = Inr w"
  by (simp add: Uint64_def)

section \<open>Go maps\<close>

text \<open>
  A Go map is an association list with distinct keys. Iterating it visits the entries in
  list order, one of the orders Go's unspecified iteration may take.
\<close>

type_synonym ('k, 'v) gomap = "('k \<times> 'v) list"

abbreviation mput :: "'k \<Rightarrow> 'v \<Rightarrow> ('k, 'v) gomap \<Rightarrow> ('k, 'v) gomap" where
  "mput \<equiv> AList.update"

abbreviation mdel :: "'k \<Rightarrow> ('k, 'v) gomap \<Rightarrow> ('k, 'v) gomap" where
  "mdel \<equiv> AList.delete"

definition map_wf :: "('k, 'v) gomap \<Rightarrow> bool" where
  "map_wf m \<longleftrightarrow> distinct (map fst m)"

text \<open>What a client of a Go map relies on: lookups after a store or a delete, and its length.\<close>

locale go_map =
  fixes get :: "'m \<Rightarrow> 'k \<Rightarrow> 'v option"
    and put :: "'k \<Rightarrow> 'v \<Rightarrow> 'm \<Rightarrow> 'm"
    and del :: "'k \<Rightarrow> 'm \<Rightarrow> 'm"
    and len :: "'m \<Rightarrow> nat"
    and wf :: "'m \<Rightarrow> bool"
  assumes get_put: "get (put k v m) = (get m)(k \<mapsto> v)"
    and get_del: "get (del k m) = (get m)(k := None)"
    and len_card: "wf m \<Longrightarrow> len m = card (dom (get m))"
    and fin: "finite (dom (get m))"
    and wf_put: "wf m \<Longrightarrow> wf (put k v m)"
    and wf_del: "wf m \<Longrightarrow> wf (del k m)"
begin

lemma len_put: "wf m \<Longrightarrow> len (put k v m) = (if get m k = None then Suc (len m) else len m)"
  using fin [of m] by (auto simp: len_card wf_put get_put card_insert_if domIff)

lemma len_put_bound:
  assumes "wf m" "get m k = None \<Longrightarrow> len m < n" "len m \<le> n"
  shows "len (put k v m) \<le> n"
  using assms by (auto simp: len_put)

lemma len_del: "wf m \<Longrightarrow> len (del k m) \<le> len m"
  using fin [of m] by (auto simp: len_card wf_del get_del intro: card_mono)

lemma get_put_other: "k' \<noteq> k \<Longrightarrow> get (put k v m) k' = get m k'"
  by (simp add: get_put)

lemma get_del_Some: "get (del k m) k' = Some v \<Longrightarrow> k' \<noteq> k \<and> get m k' = Some v"
  by (simp add: get_del split: if_splits)

lemma ran_put: "x \<in> ran (get (put k v m)) \<Longrightarrow> x = v \<or> x \<in> ran (get m)"
  by (auto simp: get_put ran_def split: if_splits)

end

interpretation gm: go_map map_of mput mdel length map_wf
proof
  fix k :: 'a and v :: 'b and m :: "('a, 'b) gomap"
  show "map_of (mput k v m) = (map_of m)(k \<mapsto> v)"
    by (simp add: update_conv')
  show "map_of (mdel k m) = (map_of m)(k := None)"
    by (simp add: delete_conv')
  show "map_wf m \<Longrightarrow> length m = card (dom (map_of m))"
    using distinct_card [of "map fst m"] by (simp add: map_wf_def dom_map_of_conv_image_fst)
  show "finite (dom (map_of m))"
    by (rule finite_dom_map_of)
  show "map_wf m \<Longrightarrow> map_wf (mput k v m)"
    by (simp add: map_wf_def distinct_update)
  show "map_wf m \<Longrightarrow> map_wf (mdel k m)"
    by (simp add: map_wf_def distinct_delete)
qed

lemmas gomap_simps [simp] = gm.get_put gm.get_del

lemma map_wf_Nil [simp]: "map_wf []"
  by (simp add: map_wf_def)

section \<open>Object stores\<close>

text \<open>
  Objects that the code shares through pointers (peers, sections, payment channels) live in
  a list; a pointer is an index into it, and allocation appends.
\<close>

type_synonym ptr = nat

definition hupd :: "ptr \<Rightarrow> ('a \<Rightarrow> 'a) \<Rightarrow> 'a list \<Rightarrow> 'a list" where
  "hupd p f h = h[p := f (h ! p)]"

lemma length_hupd [simp, heap_simps]: "length (hupd p f h) = length h"
  by (simp add: hupd_def)

lemma nth_hupd [heap_simps]: "q < length h \<Longrightarrow> hupd p f h ! q = (if q = p then f (h ! q) else h ! q)"
  by (simp add: hupd_def nth_list_update)

lemma nth_hupd_other [simp]: "q \<noteq> p \<Longrightarrow> hupd p f h ! q = h ! q"
  by (simp add: hupd_def)

lemma nth_hupd_same [simp]: "p < length h \<Longrightarrow> hupd p f h ! p = f (h ! p)"
  by (simp add: hupd_def)

lemma hupd_field [simp]: "g (f (h ! p)) = g (h ! p) \<Longrightarrow> g (hupd p f h ! q) = g (h ! q)"
  by (cases "p < length h"; cases "q = p") (simp_all add: hupd_def list_update_beyond)

lemma hupd_hupd [heap_simps]: "hupd p f (hupd p g h) = hupd p (f \<circ> g) h"
  by (cases "p < length h") (simp_all add: hupd_def list_update_beyond)

section \<open>Loops that stop at the first error\<close>

fun run_until_err :: "('a \<Rightarrow> 's \<Rightarrow> 's \<times> go_error option) \<Rightarrow> 'a list \<Rightarrow> 's \<Rightarrow> 's \<times> go_error option" where
  "run_until_err step [] s = (s, None)"
| "run_until_err step (x # xs) s =
     (case step x s of
        (s', None) \<Rightarrow> run_until_err step xs s'
      | (s', Some e) \<Rightarrow> (s', Some e))"

lemma run_until_err_append:
  "run_until_err step (xs @ ys) s =
     (case run_until_err step xs s of
        (s', None) \<Rightarrow> run_until_err step ys s'
      | (s', Some e) \<Rightarrow> (s', Some e))"
  by (induction xs arbitrary: s) (auto split: prod.splits option.splits)

text \<open>
  The contract between such a loop and its body: a body that keeps an invariant on the
  elements it may meet makes the whole loop keep it, error exits included.
\<close>

locale fallible_loop =
  fixes step :: "'a \<Rightarrow> 's \<Rightarrow> 's \<times> go_error option"
    and ok :: "'a \<Rightarrow> bool"
    and inv :: "'s \<Rightarrow> bool"
  assumes step_inv: "ok x \<Longrightarrow> inv s \<Longrightarrow> inv (fst (step x s))"
begin

lemma run_inv: "list_all ok xs \<Longrightarrow> inv s \<Longrightarrow> inv (fst (run_until_err step xs s))"
proof (induction xs arbitrary: s)
  case Nil
  then show ?case by simp
next
  case (Cons x xs)
  then have "inv (fst (step x s))" by (simp add: step_inv)
  with Cons show ?case by (auto split: prod.splits option.splits)
qed

end

end
