(* ===== verification/Seqno_Window.thy ===== *)
theory Seqno_Window
  imports Tunnel_Prelude
begin

unbundle bit_operations_syntax

text \<open>
  The anti-replay window of an inbound section (\<open>tunnel/seqno.go\<close>; the struct is
  \<open>SeqnoWindow\<close> of \<open>tunnel/gateway.go\<close>). The 512-bit window is eight 64-bit words, most
  significant bit first: position \<open>p\<close> (the distance from the latest number) is bit
  \<open>63 - p mod 64\<close> of word \<open>p div 64\<close>. The theory gives the window its meaning as a set of
  numbers, proves the in-place word shift and the check against it, and derives replay
  protection through the locale \<open>replay_filter\<close>.
\<close>

section \<open>The window and its operations\<close>

record seqno_window =
  latest :: u32
  window :: "u64 list"

definition empty_window :: seqno_window where
  "empty_window = \<lparr>latest = 0, window = replicate 8 0\<rparr>"

definition window_wf :: "seqno_window \<Rightarrow> bool" where
  "window_wf obj \<longleftrightarrow> length (window obj) = 8"

text \<open>The value that the loop stores into word \<open>i\<close>.\<close>

definition shift_word :: "nat \<Rightarrow> nat \<Rightarrow> u64 list \<Rightarrow> nat \<Rightarrow> u64" where
  "shift_word wordShift bitShift w i =
     (if i < wordShift then 0
      else let srcIndex = i - wordShift;
               newVal = drop_bit bitShift (w ! srcIndex)
           in if 0 < bitShift \<and> 0 < srcIndex
              then newVal OR push_bit (64 - bitShift) (w ! (srcIndex - 1))
              else newVal)"

text \<open>\<open>for i := len(window) - 1; i >= 0; i--\<close>, in place.\<close>

primrec shift_loop :: "nat \<Rightarrow> nat \<Rightarrow> nat \<Rightarrow> u64 list \<Rightarrow> u64 list" where
  "shift_loop wordShift bitShift 0 w = w"
| "shift_loop wordShift bitShift (Suc i) w =
     shift_loop wordShift bitShift i (w[i := shift_word wordShift bitShift w i])"

definition totalBits :: "seqno_window \<Rightarrow> nat" where
  "totalBits obj = length (window obj) * 64"

definition clear_window :: "u64 list \<Rightarrow> u64 list" where
  "clear_window w = map (\<lambda>_. 0) w"

definition shiftRightInPlace :: "u32 \<Rightarrow> seqno_window \<Rightarrow> seqno_window" where
  "shiftRightInPlace diff obj =
     (if totalBits obj \<le> unat diff then obj\<lparr>window := clear_window (window obj)\<rparr>
      else obj\<lparr>window := shift_loop (unat diff div 64) (unat diff mod 64)
                           (length (window obj)) (window obj)\<rparr>)"

definition top_bit :: u64 where
  "top_bit = push_bit 63 1"

definition overflowed :: "u32 \<Rightarrow> seqno_window \<Rightarrow> bool" where
  "overflowed seqno obj \<longleftrightarrow> seqno < latest obj \<and> 2 ^ 31 < latest obj - seqno"

definition check_window :: "u32 \<Rightarrow> seqno_window \<Rightarrow> seqno_window \<times> bool" where
  "check_window seqno obj =
     (if overflowed seqno obj
      then (\<lparr>latest = seqno, window = (clear_window (window obj))[0 := top_bit]\<rparr>, True)
      else if latest obj < seqno
      then let diff = seqno - latest obj;
               obj' = (if totalBits obj \<le> unat diff
                       then obj\<lparr>window := (clear_window (window obj))[0 := top_bit]\<rparr>
                       else let s = shiftRightInPlace diff obj
                            in s\<lparr>window := (window s)[0 := window s ! 0 OR top_bit]\<rparr>)
           in (obj'\<lparr>latest := seqno\<rparr>, True)
      else if seqno = latest obj then (obj, False)
      else let diff = latest obj - seqno
           in if totalBits obj \<le> unat diff then (obj, False)
              else let wordIndex = unat diff div 64; bitIndex = 63 - unat diff mod 64
                   in if drop_bit bitIndex (window obj ! wordIndex) AND 1 \<noteq> 0 then (obj, False)
                      else (obj\<lparr>window := (window obj)
                              [wordIndex := window obj ! wordIndex OR push_bit bitIndex 1]\<rparr>, True))"

section \<open>What the window means\<close>

definition wbit :: "u64 list \<Rightarrow> nat \<Rightarrow> bool" where
  "wbit w p \<longleftrightarrow> p < 512 \<and> bit (w ! (p div 64)) (63 - p mod 64)"

lemma shift_loop_length [simp]: "length (shift_loop ws bs n w) = length w"
  by (induction n arbitrary: w) simp_all

lemma shift_word_cong:
  assumes "\<And>j. j \<le> i \<Longrightarrow> w ! j = w' ! j"
  shows "shift_word ws bs w i = shift_word ws bs w' i"
  using assms by (auto simp: shift_word_def Let_def)

text \<open>
  The loop runs from the last word down and reads only words at or below the one it
  writes, so updating in place computes every word from the old window.
\<close>

lemma shift_loop_nth:
  assumes "n \<le> length w" "i < length w"
  shows "shift_loop ws bs n w ! i = (if i < n then shift_word ws bs w i else w ! i)"
  using assms
proof (induction n arbitrary: w)
  case 0
  then show ?case by simp
next
  case (Suc n)
  let ?w = "w[n := shift_word ws bs w n]"
  have "shift_loop ws bs (Suc n) w ! i = (if i < n then shift_word ws bs ?w i else ?w ! i)"
    using Suc by simp
  moreover have "shift_word ws bs ?w i = shift_word ws bs w i" if "i < n"
    using that by (intro shift_word_cong) auto
  ultimately show ?case
    using Suc.prems by (auto simp: nth_list_update less_Suc_eq)
qed

lemma wbit_at:
  assumes "a < 64" "64 * i + a < 512"
  shows "wbit w (64 * i + a) \<longleftrightarrow> bit (w ! i) (63 - a)"
  using assms by (simp add: wbit_def)

lemma bit_shift_word_low:
  assumes "a < 64" "b \<le> a" "j \<le> i"
  shows "bit (shift_word j b w i) (63 - a) \<longleftrightarrow> bit (w ! (i - j)) (63 - (a - b))"
proof -
  have "b + (63 - a) = 63 - (a - b)" using assms by simp
  then show ?thesis
    using assms by (auto simp: shift_word_def Let_def bit_simps)
qed

lemma bit_shift_word_high:
  assumes "a < b" "b < 64" "j < i"
  shows "bit (shift_word j b w i) (63 - a) \<longleftrightarrow> bit (w ! (i - j - 1)) (63 - (a + 64 - b))"
proof -
  have "63 - a - (64 - b) = 63 - (a + 64 - b)" "\<not> b + (63 - a) < 64" "64 - b \<le> 63 - a"
    using assms by simp_all
  then show ?thesis
    using assms by (auto simp: shift_word_def Let_def bit_simps dest: bit_imp_le_length)
qed

lemma bit_shift_word_none:
  assumes "a < b" "b < 64" "i \<le> j"
  shows "\<not> bit (shift_word j b w i) (63 - a)"
proof -
  have "\<not> b + (63 - a) < 64" using assms by simp
  then show ?thesis
    using assms by (auto simp: shift_word_def Let_def bit_simps dest: bit_imp_le_length)
qed

lemma wbit_shift_word:
  assumes "64 * i + a < 512" "a < 64" "b < 64"
  shows "bit (shift_word j b w i) (63 - a)
     \<longleftrightarrow> 64 * j + b \<le> 64 * i + a \<and> wbit w (64 * i + a - (64 * j + b))"
proof -
  consider (none) "i < j" | (low) "j \<le> i" "b \<le> a" | (high) "j < i" "a < b" | (eq) "i = j" "a < b"
    by linarith
  then show ?thesis
  proof cases
    case none
    then show ?thesis using assms by (simp add: shift_word_def)
  next
    case low
    have "64 * i + a - (64 * j + b) = 64 * (i - j) + (a - b)"
      using low by (simp add: diff_mult_distrib2)
    then show ?thesis
      using low assms wbit_at [of "a - b" "i - j" w] by (simp add: bit_shift_word_low)
  next
    case high
    have "64 * i + a - (64 * j + b) = 64 * (i - j - 1) + (a + 64 - b)"
      using high assms by (simp add: diff_mult_distrib2)
    then show ?thesis
      using high assms wbit_at [of "a + 64 - b" "i - j - 1" w] by (simp add: bit_shift_word_high)
  next
    case eq
    then show ?thesis using assms by (simp add: bit_shift_word_none)
  qed
qed

lemma wbit_shiftRight:
  assumes "window_wf obj" "p < 512"
  shows "wbit (window (shiftRightInPlace diff obj)) p
     \<longleftrightarrow> unat diff \<le> p \<and> wbit (window obj) (p - unat diff)"
proof (cases "512 \<le> unat diff")
  case True
  with assms show ?thesis
    by (simp add: shiftRightInPlace_def window_wf_def totalBits_def wbit_def clear_window_def)
next
  case False
  then have d: "unat diff < 512" by simp
  have i: "p div 64 < 8" using assms(2) by simp
  have "wbit (window (shiftRightInPlace diff obj)) p \<longleftrightarrow>
      bit (shift_word (unat diff div 64) (unat diff mod 64) (window obj) (p div 64)) (63 - p mod 64)"
    using assms d i
    by (simp add: shiftRightInPlace_def window_wf_def totalBits_def wbit_def shift_loop_nth)
  with wbit_shift_word [of "p div 64" "p mod 64" "unat diff mod 64" "unat diff div 64"] assms(2)
  show ?thesis by simp
qed

lemma wbit_clear: "length w = 8 \<Longrightarrow> wbit ((clear_window w)[0 := top_bit]) p \<longleftrightarrow> p = 0"
proof -
  assume w: "length w = 8"
  have "p div 64 < 8" if "p < 512" using that by simp
  then show ?thesis
    using w by (auto simp: wbit_def clear_window_def top_bit_def nth_list_update bit_simps simp del: push_bit_of_1)
qed

lemma bit_single: "k < 64 \<Longrightarrow> bit (push_bit k 1 :: u64) j \<longleftrightarrow> j = k"
  by (auto simp: bit_exp_iff)

lemma wbit_set:
  assumes "length w = 8" "q < 512"
  shows "wbit (w[q div 64 := w ! (q div 64) OR push_bit (63 - q mod 64) 1]) p \<longleftrightarrow> p = q \<or> wbit w p"
proof (cases "p < 512 \<and> p div 64 = q div 64")
  case True
  have "63 - p mod 64 = 63 - q mod 64 \<longleftrightarrow> p mod 64 = q mod 64"
    using mod_less_divisor [of 64 p] mod_less_divisor [of 64 q] by arith
  moreover have "p = q \<longleftrightarrow> p mod 64 = q mod 64"
    using True div_mult_mod_eq [of p 64] div_mult_mod_eq [of q 64] by metis
  ultimately show ?thesis
    using True assms by (auto simp: wbit_def bit_or_iff bit_single simp del: push_bit_of_1)
next
  case False
  then show ?thesis using assms by (auto simp: wbit_def)
qed

lemma wbit_test: "drop_bit k (x :: u64) AND 1 \<noteq> 0 \<longleftrightarrow> bit x k"
  by (simp add: and_one_eq bit_iff_odd_drop_bit mod2_eq_if)

section \<open>Refinement of a set-based specification\<close>

text \<open>
  The specification keeps the latest number and the set of numbers received at most 511
  behind it.
\<close>

definition seen :: "seqno_window \<Rightarrow> u32 set" where
  "seen obj = {n. n \<le> latest obj \<and> wbit (window obj) (unat (latest obj - n))}"

definition abs_window :: "seqno_window \<Rightarrow> u32 \<times> u32 set" where
  "abs_window obj = (latest obj, seen obj)"

fun spec_check :: "u32 \<Rightarrow> u32 \<times> u32 set \<Rightarrow> (u32 \<times> u32 set) \<times> bool" where
  "spec_check n (l, S) =
     (if n < l \<and> 2 ^ 31 < l - n then ((n, {n}), True)
      else if l < n then ((n, insert n {m \<in> S. unat (n - m) < 512}), True)
      else if n = l \<or> n \<in> S \<or> 512 \<le> unat (l - n) then ((l, S), False)
      else ((l, insert n S), True))"

lemma unat_diff_chain: "m \<le> l \<Longrightarrow> l \<le> n \<Longrightarrow> unat (n - m) = unat (n - l) + unat (l - m)"
  for m l n :: "'a::len word"
  by (simp add: unat_sub word_le_nat_alt order_trans)

lemma unat_diff_zero: "n \<le> l \<Longrightarrow> unat (l - n) = 0 \<longleftrightarrow> n = l" for n l :: "'a::len word"
  by (simp add: unat_eq_0) (metis eq_iff_diff_eq_0)

lemma unat_diff_inj: "m \<le> l \<Longrightarrow> n \<le> l \<Longrightarrow> unat (l - m) = unat (l - n) \<longleftrightarrow> m = n"
  for m n l :: "'a::len word"
  by (simp flip: word_unat_eq_iff)

lemma seen_latest_le: "n \<in> seen obj \<Longrightarrow> n \<le> latest obj"
  by (simp add: seen_def)

lemma window_wf_shift [simp]: "window_wf (shiftRightInPlace d obj) = window_wf obj"
  by (simp add: shiftRightInPlace_def window_wf_def clear_window_def)

lemma latest_shift [simp]: "latest (shiftRightInPlace d obj) = latest obj"
  by (simp add: shiftRightInPlace_def)

lemma check_window_wf: "window_wf obj \<Longrightarrow> window_wf (fst (check_window n obj))"
  by (auto simp: check_window_def window_wf_def clear_window_def Let_def shiftRightInPlace_def)

text \<open>Moving the window forward, whichever branch does it.\<close>

definition advance :: "u32 \<Rightarrow> seqno_window \<Rightarrow> seqno_window" where
  "advance n obj =
     (if totalBits obj \<le> unat (n - latest obj)
      then obj\<lparr>window := (clear_window (window obj))[0 := top_bit]\<rparr>
      else let s = shiftRightInPlace (n - latest obj) obj
           in s\<lparr>window := (window s)[0 := window s ! 0 OR top_bit]\<rparr>)"

lemma wbit_advance:
  assumes "window_wf obj"
  shows "wbit (window (advance n obj)) p \<longleftrightarrow>
     p = 0 \<or> (p < 512 \<and> unat (n - latest obj) \<le> p \<and> wbit (window obj) (p - unat (n - latest obj)))"
proof (cases "512 \<le> unat (n - latest obj)")
  case True
  with assms show ?thesis
    by (auto simp: advance_def window_wf_def totalBits_def wbit_clear)
next
  case False
  let ?s = "shiftRightInPlace (n - latest obj) obj"
  have l: "length (window ?s) = 8" using assms by (simp add: window_wf_def [symmetric])
  have "wbit (window (advance n obj)) p \<longleftrightarrow> p = 0 \<or> wbit (window ?s) p"
    using False assms wbit_set [OF l, of 0 p]
    by (simp add: advance_def window_wf_def totalBits_def Let_def top_bit_def del: push_bit_of_1)
  then show ?thesis
    using assms wbit_shiftRight [OF assms, of p "n - latest obj"] by (auto simp: wbit_def)
qed

lemma seen_advance:
  assumes "window_wf obj" "latest obj < n"
  shows "seen ((advance n obj)\<lparr>latest := n\<rparr>) = insert n {m \<in> seen obj. unat (n - m) < 512}"
    (is "?L = ?R")
proof (rule set_eqI)
  fix m
  have zero: "unat (n - m) = 0 \<longleftrightarrow> m = n" if "m \<le> n"
    using that by (rule unat_diff_zero)
  show "m \<in> ?L \<longleftrightarrow> m \<in> ?R"
  proof (cases "m \<le> latest obj")
    case True
    then have mn: "m \<le> n" "m \<noteq> n" using assms(2) by auto
    have "unat (n - m) = unat (n - latest obj) + unat (latest obj - m)"
      using True assms(2) by (intro unat_diff_chain) auto
    with True mn zero show ?thesis
      by (auto simp: seen_def wbit_advance [OF assms(1)])
  next
    case False
    have "\<not> unat (n - latest obj) \<le> unat (n - m)" if "m < n"
      using False that assms(2)
      by (simp add: unat_sub word_le_nat_alt word_less_nat_alt not_le)
    with False zero assms(2) show ?thesis
      by (auto simp: seen_def wbit_advance [OF assms(1)] order_le_less)
  qed
qed

lemma seen_reset:
  assumes "window_wf obj"
  shows "seen \<lparr>latest = n, window = (clear_window (window obj))[0 := top_bit]\<rparr> = {n}"
  using assms by (auto simp: seen_def window_wf_def wbit_clear unat_diff_zero)

lemma seen_mark:
  assumes "window_wf obj" "n \<le> latest obj" "unat (latest obj - n) < 512"
  shows "seen (obj\<lparr>window := (window obj)[unat (latest obj - n) div 64 :=
      window obj ! (unat (latest obj - n) div 64) OR push_bit (63 - unat (latest obj - n) mod 64) 1]\<rparr>)
    = insert n (seen obj)"
  using assms by (auto simp: seen_def window_wf_def wbit_set unat_diff_inj simp del: push_bit_of_1)

lemma check_window_cases:
  assumes "window_wf obj"
  obtains (reset) "overflowed n obj"
      "check_window n obj = (\<lparr>latest = n, window = (clear_window (window obj))[0 := top_bit]\<rparr>, True)"
    | (forward) "\<not> overflowed n obj" "latest obj < n"
      "check_window n obj = ((advance n obj)\<lparr>latest := n\<rparr>, True)"
    | (old) "\<not> overflowed n obj" "n \<le> latest obj"
      "n = latest obj \<or> n \<in> seen obj \<or> 512 \<le> unat (latest obj - n)"
      "check_window n obj = (obj, False)"
    | (mark) "\<not> overflowed n obj" "n < latest obj" "n \<notin> seen obj" "unat (latest obj - n) < 512"
      "check_window n obj = (obj\<lparr>window := (window obj)[unat (latest obj - n) div 64 :=
        window obj ! (unat (latest obj - n) div 64) OR push_bit (63 - unat (latest obj - n) mod 64) 1]\<rparr>, True)"
proof -
  have t: "totalBits obj = 512" using assms by (simp add: totalBits_def window_wf_def)
  consider "overflowed n obj" | "\<not> overflowed n obj" "latest obj < n"
    | "\<not> overflowed n obj" "n = latest obj"
    | "\<not> overflowed n obj" "n < latest obj" "512 \<le> unat (latest obj - n)"
    | "\<not> overflowed n obj" "n < latest obj" "unat (latest obj - n) < 512"
    by (meson not_le not_less_iff_gr_or_eq)
  then show thesis
  proof cases
    case 5
    let ?d = "unat (latest obj - n)"
    have "bit (window obj ! (?d div 64)) (63 - ?d mod 64) \<longleftrightarrow> n \<in> seen obj"
      using 5 by (auto simp: seen_def wbit_def)
    then have "check_window n obj = (if n \<in> seen obj then (obj, False)
        else (obj\<lparr>window := (window obj)[?d div 64 :=
          window obj ! (?d div 64) OR push_bit (63 - ?d mod 64) 1]\<rparr>, True))"
      using 5 t by (auto simp: check_window_def Let_def wbit_test simp del: push_bit_of_1)
    with 5 that(3,4) show thesis by (cases "n \<in> seen obj") auto
  next
    case 4
    then have "check_window n obj = (obj, False)"
      using t by (auto simp: check_window_def Let_def)
    with 4 that(3) show thesis by auto
  qed (use t that in \<open>auto simp: check_window_def advance_def Let_def\<close>)
qed

text \<open>
  C3. The word-level check refines the set-based specification: on every window it accepts
  and rejects exactly the same numbers, in all four branches (wrap-around reset, forward
  jump, repeat or too old, late but new), and leaves a window that stands for the same set.
\<close>

theorem check_window_refines:
  assumes "window_wf obj"
  shows "spec_check n (abs_window obj)
    = (abs_window (fst (check_window n obj)), snd (check_window n obj))"
  using assms
proof (cases rule: check_window_cases [where n = n])
  case reset
  then show ?thesis using assms by (simp add: abs_window_def overflowed_def seen_reset)
next
  case forward
  then show ?thesis using assms
    by (auto simp: abs_window_def overflowed_def seen_advance)
next
  case old
  then show ?thesis by (auto simp: abs_window_def overflowed_def)
next
  case mark
  then show ?thesis using assms
    by (auto simp: abs_window_def overflowed_def seen_mark simp del: push_bit_of_1)
qed

text \<open>The empty window of a new section is well formed and takes a first number.\<close>

lemma window_wf_empty [simp]: "window_wf empty_window"
  by (simp add: window_wf_def empty_window_def)

theorem check_window_refines_witness:
  "window_wf empty_window \<and>
   spec_check 7 (abs_window empty_window)
     = (abs_window (fst (check_window 7 empty_window)), snd (check_window 7 empty_window))"
  using check_window_refines [of empty_window 7] by simp

section \<open>Replay protection\<close>

text \<open>The numbers a run of a filter lets through, and that a condition holds at every step.\<close>

primrec accepted :: "('n \<Rightarrow> 's \<Rightarrow> 's \<times> bool) \<Rightarrow> 's \<Rightarrow> 'n list \<Rightarrow> 'n list" where
  "accepted check s [] = []"
| "accepted check s (n # ns) =
     (if snd (check n s) then [n] else []) @ accepted check (fst (check n s)) ns"

primrec steady_run ::
  "('n \<Rightarrow> 's \<Rightarrow> 's \<times> bool) \<Rightarrow> ('n \<Rightarrow> 's \<Rightarrow> bool) \<Rightarrow> 's \<Rightarrow> 'n list \<Rightarrow> bool" where
  "steady_run check steady s [] = True"
| "steady_run check steady s (n # ns) =
     (steady n s \<and> steady_run check steady (fst (check n s)) ns)"

text \<open>
  What a message handler relies on: a filter with a set of numbers it will not accept any
  more, which only grows and which takes in every accepted number. The exception is the
  wrap-around reset, which forgets; \<open>steady n s\<close> says that it does not happen.
\<close>

locale replay_filter =
  fixes check :: "'n \<Rightarrow> 's \<Rightarrow> 's \<times> bool"
    and known :: "'s \<Rightarrow> 'n set"
    and steady :: "'n \<Rightarrow> 's \<Rightarrow> bool"
    and wf :: "'s \<Rightarrow> bool"
  assumes wf_check: "wf s \<Longrightarrow> wf (fst (check n s))"
    and known_rejected: "wf s \<Longrightarrow> steady n s \<Longrightarrow> n \<in> known s \<Longrightarrow> \<not> snd (check n s)"
    and known_mono: "wf s \<Longrightarrow> steady n s \<Longrightarrow> known s \<subseteq> known (fst (check n s))"
    and accepted_known: "wf s \<Longrightarrow> steady n s \<Longrightarrow> snd (check n s) \<Longrightarrow> n \<in> known (fst (check n s))"
begin

lemma accepted_fresh:
  assumes "wf s" "steady_run check steady s ns"
  shows "set (accepted check s ns) \<inter> known s = {} \<and> distinct (accepted check s ns)"
  using assms
proof (induction ns arbitrary: s)
  case Nil
  then show ?case by simp
next
  case (Cons n ns)
  let ?s = "fst (check n s)"
  from Cons.prems have st: "steady n s" "steady_run check steady ?s ns" and w: "wf ?s"
    by (simp_all add: wf_check)
  from Cons.IH [OF w st(2)]
  have IH: "set (accepted check ?s ns) \<inter> known ?s = {}" "distinct (accepted check ?s ns)" by simp_all
  have "known s \<subseteq> known ?s" using known_mono Cons.prems(1) st(1) .
  moreover have "n \<in> known ?s \<and> n \<notin> known s" if "snd (check n s)"
    using that accepted_known known_rejected Cons.prems(1) st(1) by blast
  ultimately show ?case using IH by auto
qed

end

definition known_seqnos :: "seqno_window \<Rightarrow> u32 set" where
  "known_seqnos obj = {n. n \<le> latest obj \<and>
     (512 \<le> unat (latest obj - n) \<or> wbit (window obj) (unat (latest obj - n)))}"

lemma known_seqnos_eq:
  "known_seqnos obj = seen obj \<union> {n. n \<le> latest obj \<and> 512 \<le> unat (latest obj - n)}"
  by (auto simp: known_seqnos_def seen_def)

lemma known_advance:
  assumes "window_wf obj" "latest obj < n"
  shows "known_seqnos obj \<subseteq> known_seqnos ((advance n obj)\<lparr>latest := n\<rparr>)"
proof
  fix m
  assume m: "m \<in> known_seqnos obj"
  then have le: "m \<le> latest obj" by (simp add: known_seqnos_def)
  then have "unat (n - m) = unat (n - latest obj) + unat (latest obj - m)"
    using assms(2) by (intro unat_diff_chain) auto
  with m le show "m \<in> known_seqnos ((advance n obj)\<lparr>latest := n\<rparr>)"
    using assms by (auto simp: known_seqnos_eq seen_advance)
qed

interpretation window_filter: replay_filter check_window known_seqnos "\<lambda>n obj. \<not> overflowed n obj" window_wf
proof
  fix obj :: seqno_window and n :: u32
  assume wf: "window_wf obj"
  then show "window_wf (fst (check_window n obj))" by (rule check_window_wf)
  assume ok: "\<not> overflowed n obj"
  show "\<not> snd (check_window n obj)" if "n \<in> known_seqnos obj"
    using wf by (cases rule: check_window_cases [where n = n])
      (use ok that in \<open>auto simp: known_seqnos_eq seen_def\<close>)
  show "known_seqnos obj \<subseteq> known_seqnos (fst (check_window n obj))"
    using wf
  proof (cases rule: check_window_cases [where n = n])
    case forward
    then show ?thesis using wf known_advance by simp
  next
    case mark
    then show ?thesis using wf by (auto simp: known_seqnos_eq seen_mark simp del: push_bit_of_1)
  qed (use ok in auto)
  show "n \<in> known_seqnos (fst (check_window n obj))" if "snd (check_window n obj)"
    using wf
  proof (cases rule: check_window_cases [where n = n])
    case forward
    then show ?thesis using wf by (simp add: known_seqnos_eq seen_advance)
  next
    case mark
    then show ?thesis using wf by (simp add: known_seqnos_eq seen_mark del: push_bit_of_1)
  qed (use ok that in auto)
qed

text \<open>
  C26. Replay protection: whatever numbers arrive, in whatever order and however often, as long
  as no wrap-around reset fires, no number is accepted twice, and none that the window already
  knew before the run is accepted at all.
\<close>

theorem no_replay:
  assumes "window_wf obj" "steady_run check_window (\<lambda>n obj. \<not> overflowed n obj) obj ns"
  shows "distinct (accepted check_window obj ns)
    \<and> set (accepted check_window obj ns) \<inter> known_seqnos obj = {}"
  using window_filter.accepted_fresh [OF assms] by simp

theorem no_replay_witness:
  "steady_run check_window (\<lambda>n obj. \<not> overflowed n obj) empty_window [3, 1, 3, 2, 1]
   \<and> distinct (accepted check_window empty_window [3, 1, 3, 2, 1])"
proof -
  have "steady_run check_window (\<lambda>n obj. \<not> overflowed n obj) empty_window [3, 1, 3, 2, 1]"
    by code_simp
  with no_replay [of empty_window "[3, 1, 3, 2, 1]"] show ?thesis by simp
qed

text \<open>
  A sender numbers its messages 1, 2, 3, ... (\<open>atomic.AddUint32(&k.Seqno, 1)\<close>).
\<close>

lemma check_window_next:
  assumes "window_wf obj" "latest obj < n"
  shows "snd (check_window n obj)" "latest (fst (check_window n obj)) = n"
  using assms(1) by (cases rule: check_window_cases [where n = n]; use assms in auto)+

lemma accepted_in_order:
  assumes "window_wf obj" "unat (latest obj) < k" "k + m \<le> 2 ^ 32"
  shows "accepted check_window obj (map of_nat [k..<k + m]) = map of_nat [k..<k + m]"
  using assms
proof (induction m arbitrary: obj k)
  case 0
  then show ?case by simp
next
  case (Suc m)
  let ?n = "of_nat k :: u32"
  have k: "unat ?n = k" using Suc.prems(3) by (simp add: unat_of_nat)
  then have lt: "latest obj < ?n" using Suc.prems(2) by (simp add: word_less_nat_alt)
  note nxt = check_window_next [OF Suc.prems(1) lt]
  have "accepted check_window (fst (check_window ?n obj)) (map of_nat [Suc k..<Suc k + m])
      = map of_nat [Suc k..<Suc k + m]"
    using Suc.prems nxt k by (intro Suc.IH) (simp_all add: check_window_wf)
  moreover have "[k..<k + Suc m] = k # [Suc k..<Suc k + m]"
    by (simp add: upt_conv_Cons del: upt_Suc)
  ultimately show ?case using nxt by (simp del: upt_Suc)
qed

text \<open>
  C27. In-order delivery: on a new section every one of the first \<open>2^32 - 1\<close> messages that a
  sender numbers from 1 on is accepted when the messages arrive in order.
\<close>

theorem fresh_stream_accepted:
  assumes "m < 2 ^ 32"
  shows "accepted check_window empty_window (map of_nat [1..<1 + m]) = map of_nat [1..<1 + m]"
  using accepted_in_order [of empty_window 1 m] assms by (simp add: empty_window_def window_wf_def)

theorem fresh_stream_accepted_witness:
  "(3 :: nat) < 2 ^ 32 \<and> accepted check_window empty_window (map of_nat [1..<1 + 3]) = [1, 2, 3]"
proof -
  have "map of_nat [1..<1 + 3] = [1, 2, 3 :: u32]" by code_simp
  with fresh_stream_accepted [of 3] show ?thesis by simp
qed

text \<open>
  The comparison \<open>seqno > latest\<close> is not modular, so the reset branch is not the only
  place where a wrap-around is handled: after the counter wrapped (\<open>4294967280\<close>, then \<open>5\<close>),
  both old packets are accepted again, one as a forward jump and the other as a wrap-around,
  and the pair can be replayed forever.
\<close>

lemma replay_after_wrap:
  "accepted check_window \<lparr>latest = 4294967279, window = replicate 8 0\<rparr>
     [4294967280, 5, 4294967280, 5, 4294967280, 5]
   = [4294967280, 5, 4294967280, 5, 4294967280, 5]"
  by (simp add: check_window_def overflowed_def totalBits_def clear_window_def top_bit_def Let_def
      shiftRightInPlace_def)

text \<open>
  C28. The in-place shift moves the whole 512-bit window: the bit at distance \<open>p\<close> afterwards
  is the bit that was at distance \<open>p - diff\<close>, zero below \<open>diff\<close>, for every shift width
  (multiples of 64, shifts within a word, and shifts of 512 or more alike).
\<close>

theorem shiftRightInPlace_shifts:
  assumes "window_wf obj" "p < 512"
  shows "wbit (window (shiftRightInPlace diff obj)) p
     \<longleftrightarrow> unat diff \<le> p \<and> wbit (window obj) (p - unat diff)"
  using assms by (rule wbit_shiftRight)

theorem shiftRightInPlace_shifts_witness:
  "wbit (window (shiftRightInPlace 70 \<lparr>latest = 0, window = top_bit # replicate 7 0\<rparr>)) 70"
proof -
  have "wbit (top_bit # replicate 7 0) 0" by code_simp
  with shiftRightInPlace_shifts [of "\<lparr>latest = 0, window = top_bit # replicate 7 0\<rparr>" 70 70]
  show ?thesis by (simp add: window_wf_def)
qed

end
