(* ===== verification/Stream_Cipher.thy ===== *)
theory Stream_Cipher
  imports Tunnel_Prelude
begin

unbundle bit_operations_syntax

text \<open>
  The payload and instruction encryption of the tunnel: \<open>encryptStream\<close> and \<open>decryptStream\<close> of
  \<open>tunnel/gateway.go\<close> and the keys of \<open>tunnel/keys.go\<close>. The CRC-64 of \<open>hash/crc64\<close> (ECMA
  polynomial) is modelled bit by bit. The ADNL library's key agreement and CTR cipher and
  the Ed25519 key pairs are the parameters of type \<open>crypto\<close>: a cipher stream is the sequence of
  key bytes it xors onto the data.
\<close>

record crypto =
  SharedKey :: "bytes \<Rightarrow> bytes \<Rightarrow> bytes option"
  NewCipherCtr :: "bytes \<Rightarrow> bytes \<Rightarrow> (nat \<Rightarrow> byte) option"
  PublicKey :: "bytes \<Rightarrow> bytes"

section \<open>CRC-64\<close>

definition ecma_poly :: u64 where
  "ecma_poly = 0xC96C5795D7870F42"

definition crc_shift :: "u64 \<Rightarrow> u64" where
  "crc_shift c = (if bit c 0 then drop_bit 1 c XOR ecma_poly else drop_bit 1 c)"

text \<open>\<open>crc64.MakeTable\<close>: entry \<open>i\<close> of the table.\<close>

definition crc_table :: "byte \<Rightarrow> u64" where
  "crc_table i = (crc_shift ^^ 8) (ucast i)"

definition crc_update :: "u64 \<Rightarrow> byte \<Rightarrow> u64" where
  "crc_update c b = crc_table (ucast c XOR b) XOR drop_bit 8 c"

definition crc64 :: "bytes \<Rightarrow> u64" where
  "crc64 data = NOT (foldl crc_update (NOT 0) data)"

section \<open>Streams\<close>

text \<open>\<open>crypt.XORKeyStream(pl, pl)\<close> with a fresh cipher.\<close>

definition XORKeyStream :: "(nat \<Rightarrow> byte) \<Rightarrow> bytes \<Rightarrow> bytes" where
  "XORKeyStream ks pl = map (\<lambda>(i, b). b XOR ks i) (zip [0..<length pl] pl)"

text \<open>The eight random bytes are an argument; \<open>None\<close> is a failing \<open>rand.Read\<close>.\<close>

definition encryptStream :: "crypto \<Rightarrow> u64 option \<Rightarrow> u64 \<Rightarrow> bytes \<Rightarrow> bytes \<Rightarrow> go_error + bytes" where
  "encryptStream C rnd cipherKeyCrc cipherKey data =
     (case rnd of None \<Rightarrow> Inl ErrRand
      | Some r \<Rightarrow>
          let iv = put_u64 (crc64 data XOR cipherKeyCrc) @ put_u64 r
          in case NewCipherCtr C cipherKey iv of None \<Rightarrow> Inl ErrCipher
             | Some ks \<Rightarrow> Inr (iv @ XORKeyStream ks data))"

text \<open>
  Decryption works in place: the first component is the caller's buffer afterwards, which
  differs from the argument even when the checksum is then found wrong.
\<close>

definition decryptStream :: "crypto \<Rightarrow> u64 \<Rightarrow> bytes \<Rightarrow> bytes \<Rightarrow> bytes \<times> (go_error + bytes)" where
  "decryptStream C cipherKeyCrc cipherKey data =
     (if length data \<le> 16 then (data, Inl (ErrCorruptedData (length data)))
      else case NewCipherCtr C cipherKey (take 16 data) of None \<Rightarrow> (data, Inl ErrCipher)
        | Some ks \<Rightarrow>
            let pl = XORKeyStream ks (drop 16 data);
                crc = crc64 pl XOR cipherKeyCrc
            in (take 16 data @ pl,
                if get_le (take 8 data) \<noteq> crc then Inl ErrChecksum else Inr pl))"

section \<open>Section keys\<close>

record encryption_keys =
  CipherKey :: bytes
  CipherKeyCRC :: u64
  keySeqno :: u32
  SectionPubKey :: bytes
  ReceiverPubKey :: bytes

definition NewEncryptionKeys :: "crypto \<Rightarrow> bytes \<Rightarrow> bytes \<Rightarrow> go_error + encryption_keys" where
  "NewEncryptionKeys C sectionPrivate targetPub =
     (case SharedKey C sectionPrivate targetPub of None \<Rightarrow> Inl ErrSharedKey
      | Some shKey \<Rightarrow> Inr \<lparr>CipherKey = shKey, CipherKeyCRC = crc64 shKey, keySeqno = 0,
                          SectionPubKey = PublicKey C sectionPrivate, ReceiverPubKey = targetPub\<rparr>)"

text \<open>\<open>ed25519.GenerateKey\<close> yields the private key, or fails.\<close>

definition GenerateEncryptionKeys :: "crypto \<Rightarrow> bytes option \<Rightarrow> bytes \<Rightarrow> go_error + encryption_keys" where
  "GenerateEncryptionKeys C generated targetPub =
     (case generated of None \<Rightarrow> Inl ErrRand
      | Some sectionPrivate \<Rightarrow> NewEncryptionKeys C sectionPrivate targetPub)"

definition EncryptPayload :: "crypto \<Rightarrow> u64 option \<Rightarrow> encryption_keys \<Rightarrow> bytes \<Rightarrow> go_error + bytes" where
  "EncryptPayload C rnd k payload = encryptStream C rnd (CipherKeyCRC k) (CipherKey k) payload"

section \<open>Round trip\<close>

lemma length_XORKeyStream [simp, codec_simps]: "length (XORKeyStream ks pl) = length pl"
  by (simp add: XORKeyStream_def)

lemma nth_XORKeyStream [simp]: "i < length pl \<Longrightarrow> XORKeyStream ks pl ! i = pl ! i XOR ks i"
  by (simp add: XORKeyStream_def)

lemma XORKeyStream_involution [simp, codec_simps]: "XORKeyStream ks (XORKeyStream ks pl) = pl"
  by (rule nth_equalityI) (simp_all add: xor.assoc)

lemma encryptStream_length:
  "encryptStream C rnd crc key data = Inr e \<Longrightarrow> length e = 16 + length data"
  by (auto simp: encryptStream_def Let_def split: option.splits)

lemma encryptStream_parts:
  assumes "encryptStream C rnd crc key data = Inr e"
  obtains r ks where "rnd = Some r" "take 8 e = put_u64 (crc64 data XOR crc)"
    "NewCipherCtr C key (take 16 e) = Some ks" "drop 16 e = XORKeyStream ks data"
    "length e = 16 + length data"
proof -
  from assms obtain r ks where r: "rnd = Some r"
    and ks: "NewCipherCtr C key (put_u64 (crc64 data XOR crc) @ put_u64 r) = Some ks"
    and e: "e = (put_u64 (crc64 data XOR crc) @ put_u64 r) @ XORKeyStream ks data"
    by (auto simp: encryptStream_def Let_def split: option.splits)
  have "take 16 e = put_u64 (crc64 data XOR crc) @ put_u64 r" "drop 16 e = XORKeyStream ks data"
    "take 8 e = put_u64 (crc64 data XOR crc)" "length e = 16 + length data"
    by (simp_all add: e)
  with r ks that show thesis by simp
qed

lemma decrypt_encrypt:
  assumes "encryptStream C rnd crc key data = Inr e" "data \<noteq> []"
  shows "snd (decryptStream C crc key e) = Inr data"
  using assms(1) by (rule encryptStream_parts) (use assms(2) in \<open>simp add: decryptStream_def Let_def\<close>)

lemma decryptStream_length:
  assumes "snd (decryptStream C crc key e) = Inr pl"
  shows "length e = 16 + length pl" "pl \<noteq> []"
proof -
  from assms obtain ks where "pl = XORKeyStream ks (drop 16 e)" "16 < length e"
    by (auto simp: decryptStream_def Let_def split: option.splits if_splits)
  then show "length e = 16 + length pl" "pl \<noteq> []"
    by (auto simp flip: length_0_conv)
qed

lemma fst_decryptStream_length [simp]: "length (fst (decryptStream C crc key e)) = length e"
  by (auto simp: decryptStream_def Let_def split: option.splits)

section \<open>Detection of changed bytes\<close>

lemma crc_shift_xor: "crc_shift (a XOR b) = crc_shift a XOR crc_shift b"
  by (rule bit_word_eqI) (auto simp: crc_shift_def bit_simps)

lemma crc_shift_funpow_xor: "(crc_shift ^^ n) (a XOR b) = (crc_shift ^^ n) a XOR (crc_shift ^^ n) b"
  by (induction n) (simp_all add: crc_shift_xor)

lemma crc_shift_inj: "crc_shift a = crc_shift b \<longleftrightarrow> a = b"
proof
  assume eq: "crc_shift a = crc_shift b"
  have top: "bit (crc_shift c) 63 \<longleftrightarrow> bit c 0" for c
    by (auto simp: crc_shift_def ecma_poly_def bit_simps dest: bit_imp_le_length)
  with eq have b0: "bit a 0 \<longleftrightarrow> bit b 0" by metis
  with eq have d: "drop_bit 1 a = drop_bit 1 b"
    by (auto simp: crc_shift_def split: if_splits)
  show "a = b"
  proof (rule bit_word_eqI)
    fix n
    assume "n < LENGTH(64)"
    show "bit a n \<longleftrightarrow> bit b n"
    proof (cases n)
      case (Suc m)
      have "bit (drop_bit 1 a) m \<longleftrightarrow> bit (drop_bit 1 b) m" by (simp only: d)
      with Suc show ?thesis by (simp add: bit_drop_bit_eq)
    qed (use b0 in simp)
  qed
qed simp

lemma crc_shift_funpow_inj: "(crc_shift ^^ n) a = (crc_shift ^^ n) b \<longleftrightarrow> a = b"
  by (induction n) (simp_all add: crc_shift_inj)

lemma crc_shift_funpow_high: "take_bit n c = 0 \<Longrightarrow> (crc_shift ^^ n) c = drop_bit n c"
proof (induction n arbitrary: c)
  case 0
  then show ?case by simp
next
  case (Suc n)
  from Suc.prems have low: "\<not> bit c k" if "k < Suc n" for k
    using that by (metis bit_0_eq bit_take_bit_iff bot_apply bot_bool_def)
  then have "take_bit n (drop_bit 1 c) = 0"
    by (intro bit_word_eqI) (auto simp: bit_simps)
  moreover have "crc_shift c = drop_bit 1 c"
    using low [of 0] by (simp add: crc_shift_def)
  ultimately show ?case
    using Suc.IH [of "drop_bit 1 c"] by (simp add: funpow_swap1 add.commute)
qed

text \<open>The table-driven update is eight shifts of the register with the byte xored in.\<close>

lemma crc_update_shifts: "crc_update c b = (crc_shift ^^ 8) (c XOR ucast b)"
proof -
  have split: "c XOR ucast b = ucast (ucast c XOR b) XOR push_bit 8 (drop_bit 8 c)"
    by (rule bit_word_eqI) (auto simp: bit_simps)
  have "take_bit 8 (push_bit 8 (drop_bit 8 c)) = 0"
    by (rule bit_word_eqI) (auto simp: bit_simps)
  then have "(crc_shift ^^ 8) (push_bit 8 (drop_bit 8 c)) = drop_bit 8 (push_bit 8 (drop_bit 8 c))"
    by (rule crc_shift_funpow_high)
  also have "\<dots> = drop_bit 8 c"
    by (rule bit_word_eqI) (auto simp: bit_simps dest: bit_imp_le_length)
  finally show ?thesis
    by (simp only: split crc_shift_funpow_xor crc_update_def crc_table_def)
qed

lemma crc_update_inj_state: "crc_update c b = crc_update d b \<longleftrightarrow> c = d"
  by (simp add: crc_update_shifts crc_shift_funpow_inj)

lemma crc_update_inj_byte: "crc_update c a = crc_update c b \<longleftrightarrow> a = b"
proof -
  have "ucast (ucast x :: u64) = x" for x :: byte
    by (rule bit_word_eqI) (auto simp: bit_simps)
  then have "(ucast a :: u64) = ucast b \<longleftrightarrow> a = b" by metis
  then show ?thesis by (simp add: crc_update_shifts crc_shift_funpow_inj)
qed

lemma crc_fold_inj: "foldl crc_update c xs = foldl crc_update d xs \<longleftrightarrow> c = d"
  by (induction xs arbitrary: c d) (simp_all add: crc_update_inj_state)

lemma crc64_change_byte:
  assumes "i < length xs" "b \<noteq> xs ! i"
  shows "crc64 (xs[i := b]) \<noteq> crc64 xs"
proof -
  have xs: "xs = take i xs @ xs ! i # drop (Suc i) xs"
    using assms(1) by (rule id_take_nth_drop)
  have upd: "xs[i := b] = take i xs @ b # drop (Suc i) xs"
    using assms(1) by (rule upd_conv_take_nth_drop)
  let ?c = "foldl crc_update (NOT 0) (take i xs)"
  have "foldl crc_update (crc_update ?c b) (drop (Suc i) xs)
      \<noteq> foldl crc_update (crc_update ?c (xs ! i)) (drop (Suc i) xs)"
    using assms(2) by (simp add: crc_fold_inj crc_update_inj_byte)
  then have "foldl crc_update (NOT 0) (xs[i := b]) \<noteq> foldl crc_update (NOT 0) xs"
    by (subst (2) xs) (simp add: upd)
  then show ?thesis by (simp add: crc64_def)
qed

section \<open>Properties\<close>

text \<open>
  C4. Encryption and decryption with the same key are inverse on every non-empty message,
  for every key, every nonce and every stream cipher that accepts the key; a message encrypted
  from empty data is the one that decryption refuses (17 bytes is the shortest valid input).
\<close>

theorem stream_roundtrip:
  assumes "encryptStream C rnd crc key data = Inr e"
  shows "snd (decryptStream C crc key e)
    = (if data = [] then Inl (ErrCorruptedData 16) else Inr data)"
proof (cases "data = []")
  case True
  with encryptStream_length [OF assms] show ?thesis by (simp add: decryptStream_def)
next
  case False
  with decrypt_encrypt [OF assms] show ?thesis by simp
qed

definition demo_crypto :: crypto where
  "demo_crypto = \<lparr>SharedKey = (\<lambda>prv pub. Some (map2 (XOR) prv pub)),
     NewCipherCtr = (\<lambda>key iv. Some (\<lambda>i. hd (key @ [7]) + of_nat i)),
     PublicKey = (\<lambda>prv. prv)\<rparr>"

theorem stream_roundtrip_witness:
  "\<exists>e. encryptStream demo_crypto (Some 9) 5 [1, 2] [10, 20, 30] = Inr e \<and>
     snd (decryptStream demo_crypto 5 [1, 2] e) = Inr [10, 20, 30]"
proof -
  obtain e where e: "encryptStream demo_crypto (Some 9) 5 [1, 2] [10, 20, 30] = Inr e"
    by (simp add: encryptStream_def demo_crypto_def Let_def)
  with stream_roundtrip [OF e] show ?thesis by simp
qed

text \<open>
  C31. Integrity against a changed ciphertext byte: whichever byte of the encrypted body is
  replaced by another value, the receiver reports a checksum mismatch and hands nothing on.
  (CRC-64 with this polynomial separates any two messages that differ in one byte.)
\<close>

theorem changed_byte_detected:
  assumes "encryptStream C rnd crc key data = Inr e"
    and "16 \<le> i" "i < length e" "b \<noteq> e ! i"
  shows "snd (decryptStream C crc key (e[i := b])) = Inl ErrChecksum"
  using assms(1)
proof (rule encryptStream_parts)
  fix r ks
  assume 1: "take 8 e = put_u64 (crc64 data XOR crc)" "NewCipherCtr C key (take 16 e) = Some ks"
    "drop 16 e = XORKeyStream ks data" "length e = 16 + length data"
  let ?j = "i - 16"
  have j: "?j < length data" using 1(4) assms(2,3) by simp
  have "e ! i = drop 16 e ! ?j" using assms(2,3) by simp
  then have ei: "e ! i = data ! ?j XOR ks ?j" using 1(3) j by simp
  have drp: "drop 16 (e[i := b]) = (XORKeyStream ks data)[?j := b]"
    using 1(3) assms(2) by (simp add: drop_update_swap)
  have pl: "XORKeyStream ks (drop 16 (e[i := b])) = data[?j := b XOR ks ?j]"
    unfolding drp using j by (intro nth_equalityI) (auto simp: nth_list_update xor.assoc)
  have "b XOR ks ?j \<noteq> data ! ?j"
  proof
    assume "b XOR ks ?j = data ! ?j"
    then have "(b XOR ks ?j) XOR ks ?j = data ! ?j XOR ks ?j" by simp
    with assms(4) ei show False by (simp add: xor.assoc)
  qed
  with j have "crc64 (data[?j := b XOR ks ?j]) \<noteq> crc64 data" by (rule crc64_change_byte)
  moreover have "take 16 (e[i := b]) = take 16 e" "take 8 (e[i := b]) = take 8 e"
    using assms(2) by (simp_all add: take_update_cancel)
  moreover have "\<not> length e \<le> 16" using assms(2,3) by simp
  ultimately show ?thesis
    using 1(1,2) by (simp add: decryptStream_def pl Let_def)
qed

theorem changed_byte_detected_witness:
  "\<exists>e. encryptStream demo_crypto (Some 9) 5 [1, 2] [10, 20, 30] = Inr e \<and>
     snd (decryptStream demo_crypto 5 [1, 2] (e[17 := NOT (e ! 17)])) = Inl ErrChecksum"
proof -
  obtain e where e: "encryptStream demo_crypto (Some 9) 5 [1, 2] [10, 20, 30] = Inr e"
    by (simp add: encryptStream_def demo_crypto_def Let_def)
  have "length e = 19" using encryptStream_length [OF e] by simp
  moreover have "bit (NOT (e ! 17)) 0 \<noteq> bit (e ! 17) 0" by (simp add: bit_not_iff)
  then have "NOT (e ! 17) \<noteq> e ! 17" by metis
  ultimately show ?thesis
    using e changed_byte_detected [OF e, of 17 "NOT (e ! 17)"] by simp
qed

end
