(* ===== verification/Wire_Format.thy ===== *)
theory Wire_Format
  imports Stream_Cipher
begin

text \<open>
  Messages, instructions and payloads of the tunnel protocol and their byte format:
  the manual \<open>Parse\<close> and \<open>Serialize\<close> methods of \<open>tunnel/instructions.go\<close>, the encryption of
  instruction layers in \<open>tunnel/keys.go\<close> and their decryption (\<open>decryptMessage\<close>) in
  \<open>tunnel/gateway.go\<close>. The TL library (constructor ids, reflection-driven bodies) is the
  parameter of type \<open>tlcodec\<close>; a boxed TL value is its 4-byte little-endian constructor id
  followed by the body, and the library calls the manual methods where a type has them.
\<close>

section \<open>Data\<close>

datatype metadata = StateMeta u32 | PingMeta u64 bool

datatype instruction =
    DestroyInstruction
  | CacheInstruction u64 "instruction list"
  | RouteInstruction u32
  | BuildRouteInstruction (TargetADNL: bytes) (TargetSectionPubKey: bytes) (RouteID: u32)
      (BuildPricePerPacket: u64)
  | PaymentInstruction (PayKey: bytes) (PaymentChannelState: bytes) (PayPurpose: u64) (Final: bool)
  | BindOutInstruction (InboundNodeADNL: bytes) (InboundSectionPubKey: bytes)
      (InboundInstructions: bytes) (BindReceiverPubKey: bytes) (BindPricePerPacket: u64)
  | ReportStatsInstruction bytes bytes bytes u64 bytes
  | SendOutInstruction
  | DeliverInstruction
  | DeliverInitiatorInstruction u32 metadata

datatype instr_type =
    TDestroy | TCache | TRoute | TBuildRoute | TPayment | TBindOut | TReportStats
  | TSendOut | TDeliver | TDeliverInitiator

primrec type_of :: "instruction \<Rightarrow> instr_type" where
  "type_of DestroyInstruction = TDestroy"
| "type_of (CacheInstruction _ _) = TCache"
| "type_of (RouteInstruction _) = TRoute"
| "type_of (BuildRouteInstruction _ _ _ _) = TBuildRoute"
| "type_of (PaymentInstruction _ _ _ _) = TPayment"
| "type_of (BindOutInstruction _ _ _ _ _) = TBindOut"
| "type_of (ReportStatsInstruction _ _ _ _ _) = TReportStats"
| "type_of SendOutInstruction = TSendOut"
| "type_of DeliverInstruction = TDeliver"
| "type_of (DeliverInitiatorInstruction _ _) = TDeliverInitiator"

record container =
  Seqno :: u32
  List :: "instruction list"

record encrypted_message =
  msgSectionPubKey :: bytes
  msgInstructions :: bytes
  msgPayload :: bytes

record encrypted_message_cached =
  cSectionPubKey :: bytes
  cSeqno :: u32
  cPayload :: bytes

datatype payload =
    SendOutPayload u64 bytes u32 bytes
  | DeliverUDPPayload u64 bytes u32 bytes
  | OutBindDonePayload u64 bytes u32
  | DeliverPayload u64 bytes

record tlcodec =
  tl_opcode :: "instr_type \<Rightarrow> u32"
  tl_body :: "instruction \<Rightarrow> bytes option"
  tl_parse_body :: "instr_type \<Rightarrow> bytes \<Rightarrow> (instruction \<times> bytes) option"
  tl_container_id :: u32
  tl_payload :: "payload \<Rightarrow> bytes option"
  tl_parse_payload :: "bytes \<Rightarrow> payload option"

section \<open>Parsing\<close>

text \<open>The opcode table that \<open>init\<close> fills, in the order of its assignments.\<close>

definition instructionOpcodes :: "tlcodec \<Rightarrow> (u32, instr_type) gomap" where
  "instructionOpcodes T = fold (\<lambda>t. mput (tl_opcode T t) t)
     [TDestroy, TCache, TRoute, TBuildRoute, TPayment, TBindOut, TReportStats, TSendOut,
      TDeliver, TDeliverInitiator] []"

text \<open>
  The loop of both \<open>Parse\<close> methods and the body of \<open>CacheInstruction.Parse\<close>. Caches may nest;
  the first argument bounds the nesting, and every caller gives the length of the data,
  which is enough (\<open>parse_fuel_enough\<close> below).
\<close>

fun parse_instrs :: "nat \<Rightarrow> tlcodec \<Rightarrow> nat \<Rightarrow> bytes \<Rightarrow> go_error + (instruction list \<times> bytes)"
  and parse_body :: "nat \<Rightarrow> tlcodec \<Rightarrow> instr_type \<Rightarrow> bytes \<Rightarrow> go_error + (instruction \<times> bytes)" where
  "parse_instrs fuel T 0 data = Inr ([], data)"
| "parse_instrs fuel T (Suc num) data =
     (if length data < 4 then Inl (ErrCorruptedInstructions (length data))
      else case map_of (instructionOpcodes T) (get_le (take 4 data)) of
        None \<Rightarrow> Inl (ErrUnsupportedInstruction (unat (get_le (take 4 data) :: u32)))
      | Some ty \<Rightarrow>
          (case parse_body fuel T ty (drop 4 data) of Inl e \<Rightarrow> Inl e
           | Inr (inst, rest) \<Rightarrow>
               (case parse_instrs fuel T num rest of Inl e \<Rightarrow> Inl e
                | Inr (list, rest') \<Rightarrow> Inr (inst # list, rest'))))"
| "parse_body fuel T TCache data =
     (case fuel of 0 \<Rightarrow> Inl ErrTooDeep
      | Suc fuel' \<Rightarrow>
          if length data < 12 then Inl (ErrCorruptedInstructions (length data))
          else (case parse_instrs fuel' T (unat (get_le (take 4 (drop 8 data)) :: u32)) (drop 12 data) of
                  Inl e \<Rightarrow> Inl e
                | Inr (list, rest) \<Rightarrow> Inr (CacheInstruction (get_le (take 8 data)) list, rest)))"
| "parse_body fuel T ty data =
     (case tl_parse_body T ty data of None \<Rightarrow> Inl ErrParse | Some r \<Rightarrow> Inr r)"

definition InstructionsContainer_Parse :: "tlcodec \<Rightarrow> bytes \<Rightarrow> go_error + (container \<times> bytes)" where
  "InstructionsContainer_Parse T data =
     (case Uint32 data of Inl e \<Rightarrow> Inl e
      | Inr seqno \<Rightarrow>
          (case Uint32 (drop 4 data) of Inl e \<Rightarrow> Inl e
           | Inr num \<Rightarrow>
               (case parse_instrs (length data) T (unat num) (drop 8 data) of Inl e \<Rightarrow> Inl e
                | Inr (list, rest) \<Rightarrow> Inr (\<lparr>Seqno = seqno, List = list\<rparr>, rest))))"

section \<open>Serialising\<close>

fun serialize_instr :: "tlcodec \<Rightarrow> instruction \<Rightarrow> go_error + bytes"
  and serialize_list :: "tlcodec \<Rightarrow> instruction list \<Rightarrow> go_error + bytes" where
  "serialize_instr T (CacheInstruction ver instrs) =
     (case serialize_list T instrs of Inl e \<Rightarrow> Inl e
      | Inr bs \<Rightarrow> Inr (put_u32 (tl_opcode T TCache) @ put_u64 ver
                       @ put_u32 (of_nat (length instrs)) @ bs))"
| "serialize_instr T ins =
     (case tl_body T ins of None \<Rightarrow> Inl ErrSerialize
      | Some bs \<Rightarrow> Inr (put_u32 (tl_opcode T (type_of ins)) @ bs))"
| "serialize_list T [] = Inr []"
| "serialize_list T (ins # rest) =
     (case serialize_instr T ins of Inl e \<Rightarrow> Inl e
      | Inr b \<Rightarrow> (case serialize_list T rest of Inl e \<Rightarrow> Inl e | Inr bs \<Rightarrow> Inr (b @ bs)))"

definition InstructionsContainer_Serialize :: "tlcodec \<Rightarrow> container \<Rightarrow> go_error + bytes" where
  "InstructionsContainer_Serialize T c =
     (case serialize_list T (List c) of Inl e \<Rightarrow> Inl e
      | Inr bs \<Rightarrow> Inr (put_u32 (Seqno c) @ put_u32 (of_nat (length (List c))) @ bs))"

section \<open>Encrypted layers\<close>

text \<open>The updated keys come back even when serialising fails: the counter has moved.\<close>

definition EncryptInstructionsMessage ::
  "crypto \<Rightarrow> tlcodec \<Rightarrow> u64 option \<Rightarrow> encryption_keys \<Rightarrow> encrypted_message \<Rightarrow> instruction list
   \<Rightarrow> encryption_keys \<times> (go_error + encrypted_message)" where
  "EncryptInstructionsMessage C T rnd k msg instructions =
     (if instructions = [] then (k, Inl ErrNoInstructions)
      else let seqno = keySeqno k + 1; k' = k\<lparr>keySeqno := seqno\<rparr>
           in (k', case InstructionsContainer_Serialize T \<lparr>Seqno = seqno, List = instructions\<rparr> of
                     Inl e \<Rightarrow> Inl e
                   | Inr body \<Rightarrow>
                       (case encryptStream C rnd (CipherKeyCRC k) (CipherKey k)
                               (put_u32 (tl_container_id T) @ body @ msgInstructions msg) of
                          Inl e \<Rightarrow> Inl e
                        | Inr enc \<Rightarrow> Inr (msg\<lparr>msgSectionPubKey := SectionPubKey k,
                                             msgInstructions := enc\<rparr>))))"

text \<open>
  \<open>decryptMessage\<close> of a section with the given cipher key. The buffer of \<open>m.Instructions\<close> is
  decrypted in place and not read again.
\<close>

definition decryptMessage ::
  "crypto \<Rightarrow> tlcodec \<Rightarrow> u64 \<Rightarrow> bytes \<Rightarrow> bytes \<Rightarrow> go_error + (container \<times> bytes)" where
  "decryptMessage C T cipherKeyCrc cipherKey instructions =
     (case snd (decryptStream C cipherKeyCrc cipherKey instructions) of Inl e \<Rightarrow> Inl e
      | Inr data \<Rightarrow>
          if length data < 12 then Inl (ErrCorruptedInstructions (length data))
          else if get_le (take 4 data) \<noteq> tl_container_id T then Inl ErrParse
          else InstructionsContainer_Parse T (drop 4 data))"

definition decryptRecvPayload ::
  "crypto \<Rightarrow> tlcodec \<Rightarrow> encryption_keys \<Rightarrow> bytes \<Rightarrow> bytes \<times> (go_error + payload)" where
  "decryptRecvPayload C T k pl =
     (case decryptStream C (CipherKeyCRC k) (CipherKey k) pl of
        (buf, Inl e) \<Rightarrow> (buf, Inl e)
      | (buf, Inr data) \<Rightarrow>
          (buf, case tl_parse_payload T data of None \<Rightarrow> Inl ErrParse | Some p \<Rightarrow> Inr p))"

section \<open>What the TL library promises\<close>

definition is_cache :: "instruction \<Rightarrow> bool" where
  "is_cache ins \<longleftrightarrow> type_of ins = TCache"

text \<open>Distinct constructor ids, and bodies that are read back and leave the rest of the input.\<close>

definition tl_laws :: "tlcodec \<Rightarrow> bool" where
  "tl_laws T \<longleftrightarrow> inj (tl_opcode T) \<and>
     (\<forall>ins bs rest. \<not> is_cache ins \<longrightarrow> tl_body T ins = Some bs \<longrightarrow>
        tl_parse_body T (type_of ins) (bs @ rest) = Some (ins, rest))"

text \<open>A parser never returns more input than it was given.\<close>

definition tl_shrinks :: "tlcodec \<Rightarrow> bool" where
  "tl_shrinks T \<longleftrightarrow> (\<forall>ty data ins rest.
     tl_parse_body T ty data = Some (ins, rest) \<longrightarrow> length rest \<le> length data)"

section \<open>Parsing what was serialised\<close>

fun cache_depth :: "instruction \<Rightarrow> nat" where
  "cache_depth (CacheInstruction _ instrs) = Suc (foldr (\<lambda>i d. max (cache_depth i) d) instrs 0)"
| "cache_depth _ = 0"

fun short_lists :: "instruction \<Rightarrow> bool" where
  "short_lists (CacheInstruction _ instrs) = (length instrs < 2 ^ 32 \<and> list_all short_lists instrs)"
| "short_lists _ = True"

abbreviation list_depth :: "instruction list \<Rightarrow> nat" where
  "list_depth instrs \<equiv> foldr (\<lambda>i d. max (cache_depth i) d) instrs 0"

lemma opcode_lookup: "inj (tl_opcode T) \<Longrightarrow> map_of (instructionOpcodes T) (tl_opcode T t) = Some t"
  by (cases t) (simp_all add: instructionOpcodes_def inj_eq)

lemma serialize_leaf:
  assumes "\<not> is_cache ins"
  shows "serialize_instr T ins =
    (case tl_body T ins of None \<Rightarrow> Inl ErrSerialize
     | Some bs \<Rightarrow> Inr (put_u32 (tl_opcode T (type_of ins)) @ bs))"
  using assms by (cases ins) (simp_all add: is_cache_def split: option.split)

lemma parse_leaf:
  assumes "ty \<noteq> TCache"
  shows "parse_body fuel T ty data =
    (case tl_parse_body T ty data of None \<Rightarrow> Inl ErrParse | Some r \<Rightarrow> Inr r)"
  using assms by (cases ty) simp_all

lemma depth_le_length:
  "serialize_instr T ins = Inr bs \<Longrightarrow> cache_depth ins \<le> length bs"
  "serialize_list T instrs = Inr bs \<Longrightarrow> list_depth instrs \<le> length bs"
proof (induction T ins and T instrs arbitrary: bs and bs rule: serialize_instr_serialize_list.induct)
  case (1 T ver instrs)
  then show ?case by (force split: sum.splits)
next
  case (4 T ins rest)
  then show ?case by (fastforce split: sum.splits)
qed auto

lemma parse_serialized_leaf:
  assumes "tl_laws T" "\<not> is_cache ins" "serialize_instr T ins = Inr bs"
  shows "\<exists>body. bs = put_u32 (tl_opcode T (type_of ins)) @ body
     \<and> parse_body fuel T (type_of ins) (body @ rest) = Inr (ins, rest)"
proof -
  from assms(2,3) obtain body where b: "tl_body T ins = Some body"
    and bs: "bs = put_u32 (tl_opcode T (type_of ins)) @ body"
    by (auto simp: serialize_leaf split: option.splits)
  have "tl_parse_body T (type_of ins) (body @ rest) = Some (ins, rest)"
    using assms(1,2) b by (simp add: tl_laws_def)
  with assms(2) bs show ?thesis by (simp add: parse_leaf is_cache_def)
qed

lemma parse_serialized_cache:
  assumes list: "parse_instrs fuel T (length instrs) (bs @ rest) = Inr (instrs, rest)"
    and "length instrs < 2 ^ 32"
  shows "parse_body (Suc fuel) T TCache (put_u64 ver @ put_u32 (of_nat (length instrs)) @ bs @ rest)
     = Inr (CacheInstruction ver instrs, rest)"
proof -
  have "unat (of_nat (length instrs) :: u32) = length instrs"
    using assms(2) by (simp add: unat_of_nat)
  moreover have "drop 12 (put_u64 ver @ put_u32 (of_nat (length instrs)) @ bs @ rest) = bs @ rest"
    by (simp add: drop_append)
  ultimately show ?thesis using list by simp
qed

lemma parse_serialized:
  "tl_laws T \<Longrightarrow> serialize_instr T ins = Inr bs \<Longrightarrow> short_lists ins \<Longrightarrow> cache_depth ins \<le> fuel \<Longrightarrow>
     \<exists>body. bs = put_u32 (tl_opcode T (type_of ins)) @ body
       \<and> parse_body fuel T (type_of ins) (body @ rest) = Inr (ins, rest)"
  "tl_laws T \<Longrightarrow> serialize_list T instrs = Inr bs \<Longrightarrow> list_all short_lists instrs \<Longrightarrow>
     list_depth instrs \<le> fuel \<Longrightarrow>
     parse_instrs fuel T (length instrs) (bs @ rest) = Inr (instrs, rest)"
proof (induction T ins and T instrs arbitrary: bs fuel rest and bs fuel rest
    rule: serialize_instr_serialize_list.induct)
  case (1 T ver instrs)
  from "1.prems"(2) obtain lbs where l: "serialize_list T instrs = Inr lbs"
    and bs: "bs = put_u32 (tl_opcode T TCache) @ put_u64 ver @ put_u32 (of_nat (length instrs)) @ lbs"
    by (auto split: sum.splits)
  from "1.prems"(4) obtain f where f: "fuel = Suc f" "list_depth instrs \<le> f"
    by (cases fuel) auto
  have "parse_instrs f T (length instrs) (lbs @ rest) = Inr (instrs, rest)"
    using "1.prems" l f by (intro "1.IH") auto
  then have "parse_body fuel T TCache (put_u64 ver @ put_u32 (of_nat (length instrs)) @ lbs @ rest)
      = Inr (CacheInstruction ver instrs, rest)"
    unfolding f(1) using "1.prems"(3) by (intro parse_serialized_cache) auto
  then show ?case by (simp add: bs del: parse_body.simps)
next
  case (3 T)
  then show ?case by simp
next
  case (4 T ins more)
  from "4.prems"(2) obtain b mbs where b: "serialize_instr T ins = Inr b"
    and m: "serialize_list T more = Inr mbs" and bs: "bs = b @ mbs"
    by (auto split: sum.splits)
  have "\<exists>body. b = put_u32 (tl_opcode T (type_of ins)) @ body
      \<and> parse_body fuel T (type_of ins) (body @ mbs @ rest) = Inr (ins, mbs @ rest)"
    using "4.prems" b by (intro "4.IH"(1)) auto
  then obtain body where body: "b = put_u32 (tl_opcode T (type_of ins)) @ body"
      "parse_body fuel T (type_of ins) (body @ mbs @ rest) = Inr (ins, mbs @ rest)" by blast
  have "parse_instrs fuel T (length more) (mbs @ rest) = Inr (more, rest)"
    using "4.prems" b m by (intro "4.IH"(2)) auto
  moreover have "map_of (instructionOpcodes T) (tl_opcode T (type_of ins)) = Some (type_of ins)"
    using "4.prems"(1) by (simp add: opcode_lookup tl_laws_def)
  ultimately show ?case using body by (simp add: bs)
qed (rule parse_serialized_leaf; simp add: is_cache_def)+

lemma container_roundtrip:
  assumes "tl_laws T" "InstructionsContainer_Serialize T c = Inr bs"
    and "length (List c) < 2 ^ 32" "list_all short_lists (List c)"
  shows "InstructionsContainer_Parse T (bs @ rest) = Inr (c, rest)"
proof -
  from assms(2) obtain lbs where l: "serialize_list T (List c) = Inr lbs"
    and bs: "bs = put_u32 (Seqno c) @ put_u32 (of_nat (length (List c))) @ lbs"
    by (auto simp: InstructionsContainer_Serialize_def split: sum.splits)
  have d: "list_depth (List c) \<le> length (bs @ rest)"
    using depth_le_length(2) [OF l] by (simp add: bs)
  have n: "unat (of_nat (length (List c)) :: u32) = length (List c)"
    using assms(3) by (simp add: unat_of_nat)
  have dr: "drop 8 (bs @ rest) = lbs @ rest" "drop 4 (bs @ rest) = put_u32 (of_nat (length (List c))) @ lbs @ rest"
    by (simp_all add: bs drop_append)
  have "parse_instrs (length (bs @ rest)) T (length (List c)) (lbs @ rest) = Inr (List c, rest)"
    using assms l d by (intro parse_serialized(2)) auto
  moreover have "Uint32 (bs @ rest) = Inr (Seqno c)"
    by (simp add: bs)
  ultimately show ?thesis using n dr by (simp add: InstructionsContainer_Parse_def)
qed

section \<open>Parsing arbitrary bytes\<close>

lemma parse_bounded:
  "tl_shrinks T \<Longrightarrow> length data \<le> fuel \<Longrightarrow>
     (case parse_instrs fuel T num data of Inl e \<Rightarrow> e \<noteq> ErrTooDeep \<and> \<not> is_panic e
      | Inr (l, r) \<Rightarrow> length r \<le> length data)"
  "tl_shrinks T \<Longrightarrow> length data < fuel \<Longrightarrow>
     (case parse_body fuel T ty data of Inl e \<Rightarrow> e \<noteq> ErrTooDeep \<and> \<not> is_panic e
      | Inr (i, r) \<Rightarrow> length r \<le> length data)"
proof (induction fuel T num data and fuel T ty data rule: parse_instrs_parse_body.induct)
  case (1 fuel T data)
  then show ?case by simp
next
  case (2 fuel T num data)
  show ?case
  proof (cases "map_of (instructionOpcodes T) (get_le (take 4 data))")
    case (Some t)
    show ?thesis
    proof (cases "length data < 4")
      case False
      then have len: "length (drop 4 data) < fuel" using "2.prems" by simp
      note body = "2.IH"(1) [OF False Some "2.prems"(1) len]
      show ?thesis
      proof (cases "parse_body fuel T t (drop 4 data)")
        case (Inr r)
        obtain i rest where r: "r = (i, rest)" by (cases r)
        with body Inr have "length rest \<le> length (drop 4 data)" by simp
        then have "length rest \<le> fuel" "length rest \<le> length data" using "2.prems" by simp_all
        with "2.IH"(2) [OF False Some Inr r [symmetric] "2.prems"(1)] show ?thesis
          using False Some Inr r by (auto split: sum.splits)
      qed (use False Some body in simp)
    qed (simp add: is_panic_def)
  qed (simp add: is_panic_def)
next
  case (3 fuel T data)
  then obtain f where f: "fuel = Suc f" by (cases fuel) auto
  show ?case
  proof (cases "length data < 12")
    case False
    have "length (drop 12 data) \<le> f" using "3.prems" f by simp
    with "3.IH" [OF f False] "3.prems"(1) f False show ?thesis
      by (auto split: sum.splits)
  qed (simp add: f is_panic_def)
qed (auto simp: tl_shrinks_def is_panic_def split: option.splits)

lemma decryptStream_no_panic:
  "snd (decryptStream C crc key e) = Inl err \<Longrightarrow> \<not> is_panic err"
  by (auto simp: decryptStream_def Let_def is_panic_def split: option.splits if_splits)

lemma decryptMessage_Inl:
  assumes "tl_shrinks T" "decryptMessage C T crc key ins = Inl err"
  shows "\<not> is_panic err \<and> err \<noteq> ErrTooDeep"
proof (cases "snd (decryptStream C crc key ins)")
  case (Inl e)
  with assms(2) decryptStream_no_panic [OF Inl] show ?thesis
    by (auto simp: decryptMessage_def decryptStream_def Let_def split: option.splits if_splits)
next
  case (Inr data)
  show ?thesis
  proof (cases "length data < 12")
    case False
    let ?d = "drop 4 data"
    have u: "Uint32 ?d = Inr (get_le (take 4 ?d))" "Uint32 (drop 4 ?d) = Inr (get_le (take 4 (drop 4 ?d)))"
      using False by (simp_all add: Uint32_def)
    have "length (drop 8 ?d) \<le> length ?d" by simp
    from parse_bounded(1) [OF assms(1) this, of "unat (get_le (take 4 (drop 4 ?d)) :: u32)"]
    show ?thesis
      using assms(2) False Inr u
      by (auto simp: decryptMessage_def InstructionsContainer_Parse_def is_panic_def
          split: sum.splits if_splits)
  qed (use assms(2) Inr in \<open>auto simp: decryptMessage_def is_panic_def\<close>)
qed

section \<open>Layers\<close>

text \<open>A layer as its sender sees it, and as the node that owns its key does.\<close>

lemma decrypt_layer:
  assumes "tl_laws T" "snd (EncryptInstructionsMessage C T rnd k msg instrs) = Inr msg'"
    and "length instrs < 2 ^ 32" "list_all short_lists instrs"
  shows "decryptMessage C T (CipherKeyCRC k) (CipherKey k) (msgInstructions msg')
      = Inr (\<lparr>Seqno = keySeqno k + 1, List = instrs\<rparr>, msgInstructions msg)"
    and "msgSectionPubKey msg' = SectionPubKey k" and "msgPayload msg' = msgPayload msg"
proof -
  let ?c = "\<lparr>Seqno = keySeqno k + 1, List = instrs\<rparr>"
  from assms(2) obtain body enc where body: "InstructionsContainer_Serialize T ?c = Inr body"
    and enc: "encryptStream C rnd (CipherKeyCRC k) (CipherKey k)
       (put_u32 (tl_container_id T) @ body @ msgInstructions msg) = Inr enc"
    and msg': "msg' = msg\<lparr>msgSectionPubKey := SectionPubKey k, msgInstructions := enc\<rparr>"
    by (auto simp: EncryptInstructionsMessage_def Let_def split: sum.splits if_splits)
  from body have "8 \<le> length body"
    by (auto simp: InstructionsContainer_Serialize_def split: sum.splits)
  moreover have "put_u32 (tl_container_id T) @ body @ msgInstructions msg \<noteq> []"
    by (simp flip: length_0_conv)
  moreover have "InstructionsContainer_Parse T (body @ msgInstructions msg) = Inr (?c, msgInstructions msg)"
    using assms body by (intro container_roundtrip) auto
  ultimately show "decryptMessage C T (CipherKeyCRC k) (CipherKey k) (msgInstructions msg')
      = Inr (?c, msgInstructions msg)"
    using decrypt_encrypt [OF enc] by (simp add: decryptMessage_def msg')
  show "msgSectionPubKey msg' = SectionPubKey k" "msgPayload msg' = msgPayload msg"
    by (simp_all add: msg')
qed

text \<open>
  Encrypting from the last section of a chain to the first
  (\<open>for i := len(containers) - 1; i >= 0; i--\<close>), one nonce per layer, and the nodes of the
  chain peeling their layers one after another.
\<close>

type_synonym layer = "u64 option \<times> encryption_keys \<times> instruction list"

primrec encrypt_layers ::
  "crypto \<Rightarrow> tlcodec \<Rightarrow> layer list \<Rightarrow> encrypted_message \<Rightarrow> go_error + encrypted_message" where
  "encrypt_layers C T [] msg = Inr msg"
| "encrypt_layers C T (l # ls) msg =
     (case encrypt_layers C T ls msg of Inl e \<Rightarrow> Inl e
      | Inr msg' \<Rightarrow> snd (EncryptInstructionsMessage C T (fst l) (fst (snd l)) msg' (snd (snd l))))"

primrec peel_layers ::
  "crypto \<Rightarrow> tlcodec \<Rightarrow> encryption_keys list \<Rightarrow> bytes \<Rightarrow> go_error + (container list \<times> bytes)" where
  "peel_layers C T [] ins = Inr ([], ins)"
| "peel_layers C T (k # ks) ins =
     (case decryptMessage C T (CipherKeyCRC k) (CipherKey k) ins of Inl e \<Rightarrow> Inl e
      | Inr (c, rest) \<Rightarrow>
          (case peel_layers C T ks rest of Inl e \<Rightarrow> Inl e | Inr (cs, r) \<Rightarrow> Inr (c # cs, r)))"

definition layer_ok :: "layer \<Rightarrow> bool" where
  "layer_ok l \<longleftrightarrow> length (snd (snd l)) < 2 ^ 32 \<and> list_all short_lists (snd (snd l))"

lemma peel_encrypted:
  assumes "tl_laws T" "list_all layer_ok ls" "encrypt_layers C T ls msg = Inr msg'"
  shows "peel_layers C T (map (fst \<circ> snd) ls) (msgInstructions msg')
    = Inr (map (\<lambda>l. \<lparr>Seqno = keySeqno (fst (snd l)) + 1, List = snd (snd l)\<rparr>) ls, msgInstructions msg)"
  using assms(2,3)
proof (induction ls arbitrary: msg')
  case Nil
  then show ?case by simp
next
  case (Cons l ls)
  from Cons.prems(2) obtain m where m: "encrypt_layers C T ls msg = Inr m"
    and e: "snd (EncryptInstructionsMessage C T (fst l) (fst (snd l)) m (snd (snd l))) = Inr msg'"
    by (auto split: sum.splits)
  from Cons.prems(1) have "layer_ok l" by simp
  then show ?case
    using Cons.IH [OF _ m] Cons.prems(1) decrypt_layer(1) [OF assms(1) e]
    by (simp add: layer_ok_def)
qed

section \<open>Properties\<close>

text \<open>
  C29. Round trip of the manual wire format: a serialised instruction container (nested caches
  included) followed by any bytes parses back to the same container and exactly those bytes,
  for any TL library that reads back the leaf bodies it writes.
\<close>

theorem container_parse_serialize:
  assumes "tl_laws T" "InstructionsContainer_Serialize T c = Inr bs"
    and "length (List c) < 2 ^ 32" "list_all short_lists (List c)"
  shows "InstructionsContainer_Parse T (bs @ rest) = Inr (c, rest)"
  using assms by (rule container_roundtrip)

text \<open>A small TL library: leaf bodies of the instructions without variable-length fields.\<close>

definition demo_opcode :: "instr_type \<Rightarrow> u32" where
  "demo_opcode t = (case t of TDestroy \<Rightarrow> 1 | TCache \<Rightarrow> 2 | TRoute \<Rightarrow> 3 | TBuildRoute \<Rightarrow> 4
     | TPayment \<Rightarrow> 5 | TBindOut \<Rightarrow> 6 | TReportStats \<Rightarrow> 7 | TSendOut \<Rightarrow> 8 | TDeliver \<Rightarrow> 9
     | TDeliverInitiator \<Rightarrow> 10)"

definition demo_body :: "instruction \<Rightarrow> bytes option" where
  "demo_body ins = (case ins of DestroyInstruction \<Rightarrow> Some [] | SendOutInstruction \<Rightarrow> Some []
     | DeliverInstruction \<Rightarrow> Some [] | RouteInstruction r \<Rightarrow> Some (put_u32 r) | _ \<Rightarrow> None)"

definition demo_parse :: "instr_type \<Rightarrow> bytes \<Rightarrow> (instruction \<times> bytes) option" where
  "demo_parse t bs = (case t of TDestroy \<Rightarrow> Some (DestroyInstruction, bs)
     | TSendOut \<Rightarrow> Some (SendOutInstruction, bs) | TDeliver \<Rightarrow> Some (DeliverInstruction, bs)
     | TRoute \<Rightarrow> (if length bs < 4 then None else Some (RouteInstruction (get_le (take 4 bs)), drop 4 bs))
     | _ \<Rightarrow> None)"

definition demo_tl :: tlcodec where
  "demo_tl = \<lparr>tl_opcode = demo_opcode, tl_body = demo_body, tl_parse_body = demo_parse,
     tl_container_id = 11, tl_payload = (\<lambda>p. case p of SendOutPayload s ip port pl \<Rightarrow> Some pl
       | DeliverUDPPayload s ip port pl \<Rightarrow> Some pl | OutBindDonePayload s ip port \<Rightarrow> Some ip
       | DeliverPayload s pl \<Rightarrow> Some pl),
     tl_parse_payload = (\<lambda>bs. Some (SendOutPayload 1 [127, 0, 0, 1] 80 bs))\<rparr>"

lemma demo_tl_laws: "tl_laws demo_tl"
proof -
  have "inj demo_opcode"
    by (rule injI) (auto simp: demo_opcode_def split: instr_type.splits)
  moreover have "demo_parse (type_of ins) (bs @ rest) = Some (ins, rest)"
    if "demo_body ins = Some bs" for ins bs rest
    using that by (auto simp: demo_body_def demo_parse_def split: instruction.splits)
  ultimately show ?thesis by (simp add: tl_laws_def demo_tl_def)
qed

lemma demo_tl_shrinks: "tl_shrinks demo_tl"
  by (auto simp: tl_shrinks_def demo_tl_def demo_parse_def split: instr_type.splits if_splits)

theorem container_parse_serialize_witness:
  "\<exists>bs. InstructionsContainer_Serialize demo_tl
      \<lparr>Seqno = 5, List = [CacheInstruction 9 [RouteInstruction 3], RouteInstruction 3]\<rparr> = Inr bs \<and>
     InstructionsContainer_Parse demo_tl (bs @ [1, 2])
       = Inr (\<lparr>Seqno = 5, List = [CacheInstruction 9 [RouteInstruction 3], RouteInstruction 3]\<rparr>, [1, 2])"
proof -
  obtain bs where bs: "InstructionsContainer_Serialize demo_tl
      \<lparr>Seqno = 5, List = [CacheInstruction 9 [RouteInstruction 3], RouteInstruction 3]\<rparr> = Inr bs"
    by (simp add: InstructionsContainer_Serialize_def demo_tl_def demo_body_def)
  with container_parse_serialize [OF demo_tl_laws bs, of "[1, 2]"] show ?thesis by simp
qed



text \<open>
  Onion routing: for a message encrypted layer by layer along a chain of sections, the
  nodes that hold the section keys, peeling in order, each obtain exactly the instructions
  addressed to them with the sender's next sequence number, and what is left at the end is
  what the innermost layer carried.
\<close>

lemma onion_layers:
  assumes "tl_laws T" "list_all layer_ok ls" "encrypt_layers C T ls msg = Inr msg'"
  shows "peel_layers C T (map (fst \<circ> snd) ls) (msgInstructions msg')
    = Inr (map (\<lambda>l. \<lparr>Seqno = keySeqno (fst (snd l)) + 1, List = snd (snd l)\<rparr>) ls, msgInstructions msg)"
  using assms by (rule peel_encrypted)

definition demo_key :: "byte \<Rightarrow> encryption_keys" where
  "demo_key b = \<lparr>CipherKey = [b], CipherKeyCRC = 77, keySeqno = 4, SectionPubKey = [b, b],
     ReceiverPubKey = [b]\<rparr>"

lemma onion_layers_witness:
  "\<exists>msg'. encrypt_layers demo_crypto demo_tl
       [(Some 1, demo_key 3, [RouteInstruction 8]), (Some 2, demo_key 6, [SendOutInstruction])]
       \<lparr>msgSectionPubKey = [], msgInstructions = [], msgPayload = [9]\<rparr> = Inr msg' \<and>
     peel_layers demo_crypto demo_tl [demo_key 3, demo_key 6] (msgInstructions msg')
       = Inr ([\<lparr>Seqno = 5, List = [RouteInstruction 8]\<rparr>, \<lparr>Seqno = 5, List = [SendOutInstruction]\<rparr>], [])"
proof -
  let ?ls = "[(Some 1, demo_key 3, [RouteInstruction 8]), (Some 2, demo_key 6, [SendOutInstruction])]"
  obtain msg' where m: "encrypt_layers demo_crypto demo_tl ?ls
       \<lparr>msgSectionPubKey = [], msgInstructions = [], msgPayload = [9]\<rparr> = Inr msg'"
    by (simp add: EncryptInstructionsMessage_def InstructionsContainer_Serialize_def
        encryptStream_def demo_tl_def demo_body_def demo_crypto_def Let_def)
  have "list_all layer_ok ?ls" by (simp add: layer_ok_def)
  from onion_layers [OF demo_tl_laws this m] m show ?thesis by (simp add: demo_key_def)
qed

end
