(* ===== verification/Peer_Table.thy ===== *)
theory Peer_Table
  imports Wire_Format
begin

text \<open>
  Peers of a gateway (\<open>tunnel/peer.go\<close>). A peer is an object shared by the routes, outs and
  tunnels that point to it, so peers live in a store and \<open>activePeers\<close> maps ADNL ids to
  pointers; a peer that was removed from the table stays in the store. The outside world is
  the record \<open>env\<close>: what a call to the ADNL connection, the DHT, the rate limiter, the UDP stack
  or the payment service returns is a function of the history of earlier calls (\<open>outputs\<close>),
  and the clock is read once per operation. A \<open>go\<close> statement adds a task to \<open>pending\<close>; the
  gateway's step relation runs tasks later, in any order.
\<close>

section \<open>The outside world\<close>

datatype net_msg =
    MsgPing u64
  | MsgPong u64
  | MsgCached encrypted_message_cached
  | MsgEncrypted encrypted_message
  | MsgOther

record vc_state =
  Amount :: int
  Signature :: bytes

record vc_meta =
  LastKnownResolve :: bytes
  Incoming :: "(string \<times> int) option" \<comment> \<open>capacity, safe deadline (unix time)\<close>
  HasOutgoing :: bool
  StatusActive :: bool

datatype ext_call =
    CallSend nat net_msg
  | CallConnClose nat
  | CallSetHandler nat ptr
  | CallFindAddresses bytes
  | CallRegisterClient bytes u16
  | CallRateAdd
  | CallListenPacket
  | CallWriteTo u16 bytes u16 bytes
  | CallUdpClose u16
  | CallChannelMeta bytes
  | CallAddResolve bytes vc_state
  | CallCloseVirtual bytes
  | CallTryLock ptr
  | CallOpenVirtual bytes "int list"
  | CallAddressChanged bytes u32

record conn_atomic =
  conn_addr :: string
  conn_handle :: nat

record env =
  now :: int
  send_ok :: "ext_call list \<Rightarrow> bool"
  find_addresses :: "ext_call list \<Rightarrow> (bytes \<times> u16) list option"
  register_client :: "ext_call list \<Rightarrow> conn_atomic option"
  rate_add :: "ext_call list \<Rightarrow> int"
  try_lock :: "ext_call list \<Rightarrow> ptr \<Rightarrow> bool"
  gate_addresses :: "bytes list"
  listen_packet :: "ext_call list \<Rightarrow> u16 option"
  write_ok :: "ext_call list \<Rightarrow> bool"
  load_state :: "bytes \<Rightarrow> vc_state option"
  verify_state :: "vc_state \<Rightarrow> bytes \<Rightarrow> bool"
  channel_meta :: "ext_call list \<Rightarrow> bytes \<Rightarrow> vc_meta option"
  parse_ton :: "string \<Rightarrow> int option"
  add_resolve_ok :: "ext_call list \<Rightarrow> bool"
  nonce :: "ext_call list \<Rightarrow> u64 option"

datatype task =
    TaskDiscover ptr
  | TaskDiscoverFinish ptr
  | TaskKill ptr
  | TaskClosePayment ptr

section \<open>State\<close>

record peer =
  peer_id :: bytes
  peer_conn :: "conn_atomic option"
  pingSeqno :: u64
  pongSeqno :: u64
  references :: int
  CreatedAt :: int
  DiscoveredAt :: int
  LastPacketFromAt :: int
  LastPacketToAt :: int
  LastPingSentAt :: int
  discoverInProgress :: bool
  peer_closed :: bool

record net =
  peers :: "peer list"
  activePeers :: "(bytes, ptr) gomap"
  pending :: "task list"
  outputs :: "ext_call list"

definition new_peer :: "env \<Rightarrow> bytes \<Rightarrow> peer" where
  "new_peer E adnl = \<lparr>peer_id = adnl, peer_conn = None, pingSeqno = 0, pongSeqno = 0, references = 0,
     CreatedAt = now E, DiscoveredAt = 0, LastPacketFromAt = 0, LastPacketToAt = 0,
     LastPingSentAt = 0, discoverInProgress = False, peer_closed = False\<rparr>"

definition upd_peer :: "ptr \<Rightarrow> (peer \<Rightarrow> peer) \<Rightarrow> 'a net_scheme \<Rightarrow> 'a net_scheme" where
  "upd_peer p f s = s\<lparr>peers := hupd p f (peers s)\<rparr>"

definition emit :: "ext_call \<Rightarrow> 'a net_scheme \<Rightarrow> 'a net_scheme" where
  "emit c s = s\<lparr>outputs := outputs s @ [c]\<rparr>"

definition spawn :: "task \<Rightarrow> 'a net_scheme \<Rightarrow> 'a net_scheme" where
  "spawn t s = s\<lparr>pending := pending s @ [t]\<rparr>"

section \<open>Operations\<close>

text \<open>Storing a connection, as \<open>addPeer\<close> and \<open>discover\<close> do.\<close>

definition set_conn :: "env \<Rightarrow> ptr \<Rightarrow> conn_atomic \<Rightarrow> 'a net_scheme \<Rightarrow> 'a net_scheme" where
  "set_conn E p c s =
     upd_peer p (\<lambda>q. q\<lparr>peer_conn := Some c, DiscoveredAt := now E\<rparr>)
       (emit (CallSetHandler (conn_handle c) p) s)"

definition lookup_or_new :: "env \<Rightarrow> bytes \<Rightarrow> 'a net_scheme \<Rightarrow> ptr \<times> 'a net_scheme" where
  "lookup_or_new E adnl s =
     (case map_of (activePeers s) adnl of
        Some p \<Rightarrow> (p, s)
      | None \<Rightarrow> (length (peers s),
          s\<lparr>peers := peers s @ [new_peer E adnl],
             activePeers := mput adnl (length (peers s)) (activePeers s)\<rparr>))"

definition addPeer :: "env \<Rightarrow> bytes \<Rightarrow> conn_atomic option \<Rightarrow> 'a net_scheme \<Rightarrow> ptr \<times> 'a net_scheme" where
  "addPeer E adnl conn s =
     (let (p, s') = lookup_or_new E adnl s
      in case conn of
           Some c \<Rightarrow> (p, set_conn E p c s')
         | None \<Rightarrow> (p, spawn (TaskDiscover p) s'))"

definition getConn :: "ptr \<Rightarrow> 'a net_scheme \<Rightarrow> nat option" where
  "getConn p s = map_option conn_handle (peer_conn (peers s ! p))"

definition getAddr :: "ptr \<Rightarrow> 'a net_scheme \<Rightarrow> string" where
  "getAddr p s = (case peer_conn (peers s ! p) of None \<Rightarrow> ''empty'' | Some c \<Rightarrow> conn_addr c)"

text \<open>
  \<open>discover\<close> up to its network lookup, and from the answer on; in between other steps may run,
  with \<open>discoverInProgress\<close> set.
\<close>

definition discover_start :: "ptr \<Rightarrow> 'a net_scheme \<Rightarrow> 'a net_scheme" where
  "discover_start p s =
     (if getConn p s \<noteq> None then s
      else if discoverInProgress (peers s ! p) then s
      else spawn (TaskDiscoverFinish p)
             (emit (CallFindAddresses (peer_id (peers s ! p)))
               (upd_peer p (\<lambda>q. q\<lparr>discoverInProgress := True\<rparr>) s)))"

definition discover_finish :: "env \<Rightarrow> ptr \<Rightarrow> 'a net_scheme \<Rightarrow> 'a net_scheme \<times> go_error option" where
  "discover_finish E p s =
     (let finished = upd_peer p (\<lambda>q. q\<lparr>discoverInProgress := False\<rparr>)
      in case find_addresses E (outputs s) of
           None \<Rightarrow> (finished s, Some ErrFindAddresses)
         | Some [] \<Rightarrow> (finished s, Some ErrEmptyAddressList)
         | Some ((ip, port) # _) \<Rightarrow>
             let s' = emit (CallRegisterClient ip port) s
             in case register_client E (outputs s') of
                  None \<Rightarrow> (finished s', Some ErrRegisterPeer)
                | Some c \<Rightarrow> (finished (set_conn E p c s'), None))"

definition closeConn :: "ptr \<Rightarrow> nat option \<Rightarrow> 'a net_scheme \<Rightarrow> 'a net_scheme" where
  "closeConn p cmp s =
     (case getConn p s of None \<Rightarrow> s
      | Some h \<Rightarrow>
          if cmp = None \<or> cmp = Some h
          then upd_peer p (\<lambda>q. q\<lparr>peer_conn := None\<rparr>) (emit (CallConnClose h) s)
          else s)"

definition AddReference :: "ptr \<Rightarrow> 'a net_scheme \<Rightarrow> 'a net_scheme" where
  "AddReference p = upd_peer p (\<lambda>q. q\<lparr>references := i64 (references q + 1)\<rparr>)"

definition remove_peer :: "ptr \<Rightarrow> 'a net_scheme \<Rightarrow> 'a net_scheme" where
  "remove_peer p s =
     upd_peer p (\<lambda>q. q\<lparr>peer_closed := True\<rparr>)
       (s\<lparr>activePeers := mdel (peer_id (peers s ! p)) (activePeers s)\<rparr>)"

definition kill :: "ptr \<Rightarrow> 'a net_scheme \<Rightarrow> 'a net_scheme" where
  "kill p s = remove_peer p (closeConn p None s)"

definition Dereference :: "ptr \<Rightarrow> 'a net_scheme \<Rightarrow> 'a net_scheme" where
  "Dereference p s =
     (let s' = upd_peer p (\<lambda>q. q\<lparr>references := i64 (references q - 1)\<rparr>) s
      in if references (peers s' ! p) \<le> 0 then remove_peer p (closeConn p None s') else s')"

definition SendCustomMessage ::
  "env \<Rightarrow> ptr \<Rightarrow> net_msg \<Rightarrow> 'a net_scheme \<Rightarrow> 'a net_scheme \<times> go_error option" where
  "SendCustomMessage E p req s =
     (case getConn p s of None \<Rightarrow> (s, Some ErrNotConnected)
      | Some h \<Rightarrow>
          let s' = emit (CallSend h req) (upd_peer p (\<lambda>q. q\<lparr>LastPacketToAt := now E\<rparr>) s)
          in (s', if send_ok E (outputs s') then None else Some ErrSendFailed))"

section \<open>What the operations leave alone\<close>

text \<open>
  A network step changes nothing but the peer store, the table, the pending tasks and the
  history; whatever a larger state adds to these is untouched.
\<close>

definition net_step :: "'a net_scheme \<Rightarrow> 'a net_scheme \<Rightarrow> bool" where
  "net_step s s' \<longleftrightarrow> (\<exists>ps ap pe ou. s' = s\<lparr>peers := ps, activePeers := ap, pending := pe, outputs := ou\<rparr>)"

lemma net_stepI: "s' = s\<lparr>peers := ps, activePeers := ap, pending := pe, outputs := ou\<rparr> \<Longrightarrow> net_step s s'"
  by (auto simp: net_step_def)

lemma net_step_refl [simp, intro]: "net_step s s"
  by (rule net_stepI [where ps = "peers s" and ap = "activePeers s" and pe = "pending s" and ou = "outputs s"]) simp

lemma net_step_trans [trans]: "net_step s t \<Longrightarrow> net_step t u \<Longrightarrow> net_step s u"
  by (fastforce simp: net_step_def)

lemma net_step_upd_peer [simp, intro]: "net_step s (upd_peer p f s)"
  by (rule net_stepI [where ap = "activePeers s" and pe = "pending s" and ou = "outputs s"])
    (simp add: upd_peer_def)

lemma net_step_emit [simp, intro]: "net_step s (emit c s)"
  by (rule net_stepI [where ps = "peers s" and ap = "activePeers s" and pe = "pending s"])
    (simp add: emit_def)

lemma net_step_spawn [simp, intro]: "net_step s (spawn t s)"
  by (rule net_stepI [where ps = "peers s" and ap = "activePeers s" and ou = "outputs s"])
    (simp add: spawn_def)

lemma net_step_set_conn [simp, intro]: "net_step s (set_conn E p c s)"
  unfolding set_conn_def by (rule net_step_trans [OF net_step_emit net_step_upd_peer])

lemma net_step_lookup [simp, intro]: "net_step s (snd (lookup_or_new E adnl s))"
  by (auto simp: lookup_or_new_def split: option.splits
      intro: net_stepI [where pe = "pending s" and ou = "outputs s"])

lemma net_step_addPeer [simp, intro]: "net_step s (snd (addPeer E adnl conn s))"
  by (auto simp: addPeer_def split: prod.splits option.splits
      intro: net_step_trans [OF net_step_lookup [of s E adnl]])

lemma net_step_closeConn [simp, intro]: "net_step s (closeConn p cmp s)"
  by (auto simp: closeConn_def split: option.splits intro: net_step_trans [OF net_step_emit])

lemma net_step_remove [simp, intro]: "net_step s (remove_peer p s)"
  unfolding remove_peer_def
  by (rule net_step_trans [OF _ net_step_upd_peer])
    (rule net_stepI [where ps = "peers s" and pe = "pending s" and ou = "outputs s"], simp)

lemma net_step_AddReference [simp, intro]: "net_step s (AddReference p s)"
  by (simp add: AddReference_def)

lemma net_step_kill [simp, intro]: "net_step s (kill p s)"
  unfolding kill_def by (rule net_step_trans [OF net_step_closeConn net_step_remove])

lemma net_step_Dereference [simp, intro]: "net_step s (Dereference p s)"
  by (auto simp: Dereference_def Let_def
      intro: net_step_trans [OF net_step_upd_peer net_step_trans [OF net_step_closeConn net_step_remove]])

lemma net_step_Send [simp, intro]: "net_step s (fst (SendCustomMessage E p m s))"
  by (auto simp: SendCustomMessage_def Let_def split: option.splits
      intro: net_step_trans [OF net_step_upd_peer])

lemma net_step_discover_start [simp, intro]: "net_step s (discover_start p s)"
  by (auto simp: discover_start_def
      intro: net_step_trans [OF net_step_upd_peer net_step_trans [OF net_step_emit]])

lemma net_step_discover_finish [simp, intro]: "net_step s (fst (discover_finish E p s))"
  by (auto simp: discover_finish_def Let_def split: option.splits list.splits
      intro: net_step_trans [OF net_step_emit]
        net_step_trans [OF net_step_trans [OF net_step_emit net_step_set_conn] net_step_upd_peer])

section \<open>Reference counts\<close>

definition refs :: "'a net_scheme \<Rightarrow> ptr \<Rightarrow> int" where
  "refs s p = references (peers s ! p)"

definition peer_valid :: "'a net_scheme \<Rightarrow> ptr \<Rightarrow> bool" where
  "peer_valid s p \<longleftrightarrow> p < length (peers s)"

named_theorems peer_simps \<open>effect of the operations on the peer store and the table\<close>

lemma peers_basic [peer_simps]:
  "peers (emit c s) = peers s" "peers (spawn t s) = peers s" "peers (upd_peer p f s) = hupd p f (peers s)"
  "activePeers (emit c s) = activePeers s" "activePeers (spawn t s) = activePeers s"
  "activePeers (upd_peer p f s) = activePeers s" "outputs (spawn t s) = outputs s"
  "outputs (upd_peer p f s) = outputs s" "outputs (emit c s) = outputs s @ [c]"
  "pending (emit c s) = pending s" "pending (spawn t s) = pending s @ [t]"
  "pending (upd_peer p f s) = pending s"
  by (simp_all add: emit_def spawn_def upd_peer_def)

lemma getConn_basic [peer_simps]:
  "getConn p (emit c s) = getConn p s" "getConn p (spawn t s) = getConn p s"
  by (simp_all add: getConn_def peer_simps)

lemma refs_basic [peer_simps]:
  "refs (emit c s) = refs s" "refs (spawn t s) = refs s"
  "(\<And>q. references (f q) = references q) \<Longrightarrow> refs (upd_peer p f s) q = refs s q"
  by (simp_all add: refs_def peer_simps fun_eq_iff)

lemma refs_closeConn [peer_simps]: "refs (closeConn p cmp s) q = refs s q"
  by (simp add: closeConn_def peer_simps split: option.splits)

lemma refs_remove [peer_simps]: "refs (remove_peer p s) q = refs s q"
  by (simp add: remove_peer_def refs_def peer_simps)

lemma refs_SendCustomMessage [peer_simps]: "refs (fst (SendCustomMessage E p m s)) q = refs s q"
  by (simp add: SendCustomMessage_def Let_def peer_simps split: option.splits)

lemma refs_addPeer [peer_simps]:
  "peer_valid s q \<Longrightarrow> refs (snd (addPeer E adnl conn s)) q = refs s q"
  by (auto simp: addPeer_def lookup_or_new_def set_conn_def peer_simps refs_def peer_valid_def nth_append
      split: option.splits prod.splits)

lemma refs_addPeer_new:
  "map_of (activePeers s) adnl = None \<Longrightarrow> refs (snd (addPeer E adnl conn s)) (length (peers s)) = 0"
  by (auto simp: addPeer_def lookup_or_new_def set_conn_def peer_simps refs_def new_peer_def
      split: option.splits)

lemma length_peers [peer_simps]:
  "length (peers (closeConn p cmp s)) = length (peers s)"
  "length (peers (remove_peer p s)) = length (peers s)"
  "length (peers (AddReference p s)) = length (peers s)"
  "length (peers (Dereference p s)) = length (peers s)"
  "length (peers (kill p s)) = length (peers s)"
  "length (peers (fst (SendCustomMessage E p m s))) = length (peers s)"
  "length (peers (set_conn E p c s)) = length (peers s)"
  by (simp_all add: closeConn_def remove_peer_def AddReference_def Dereference_def kill_def
      SendCustomMessage_def set_conn_def Let_def peer_simps split: option.splits)

lemma length_peers_addPeer:
  "length (peers (snd (addPeer E adnl conn s)))
     = length (peers s) + (if map_of (activePeers s) adnl = None then 1 else 0)"
  by (auto simp: addPeer_def lookup_or_new_def peer_simps split: option.splits prod.splits)

lemma addPeer_ptr:
  "fst (addPeer E adnl conn s)
     = (case map_of (activePeers s) adnl of Some p \<Rightarrow> p | None \<Rightarrow> length (peers s))"
  by (auto simp: addPeer_def lookup_or_new_def split: option.splits prod.splits)

text \<open>
  A holder's view of reference counting: acquiring and releasing change the count of that
  object and of no other, modulo the 64-bit range.
\<close>

locale ref_counted =
  fixes acquire :: "'p \<Rightarrow> 's \<Rightarrow> 's"
    and release :: "'p \<Rightarrow> 's \<Rightarrow> 's"
    and count :: "'s \<Rightarrow> 'p \<Rightarrow> int"
    and valid :: "'s \<Rightarrow> 'p \<Rightarrow> bool"
  assumes count_acquire: "valid s p \<Longrightarrow> count (acquire p s) q = (if q = p then i64 (count s q + 1) else count s q)"
    and count_release: "valid s p \<Longrightarrow> count (release p s) q = (if q = p then i64 (count s q - 1) else count s q)"
    and valid_acquire: "valid (acquire p s) q = valid s q"
    and valid_release: "valid (release p s) q = valid s q"
begin

lemma acquire_release:
  assumes "valid s p" "is_i64 (count s p)"
  shows "count (release p (acquire p s)) q = count s q"
  using assms by (simp add: count_release count_acquire valid_acquire i64_id)
    (metis add_diff_cancel_right' i64_add_left i64_id uminus_add_conv_diff add.commute)

lemma release_all:
  assumes "list_all (valid s) ps" "count s q = i64 (n + int (count_list ps q))"
  shows "count (fold release ps s) q = i64 n"
  using assms
proof (induction ps arbitrary: s)
  case Nil
  then show ?case by simp
next
  case (Cons p ps)
  have v: "valid s p" "list_all (valid (release p s)) ps"
    using Cons.prems(1) by (simp_all add: valid_release list_all_iff)
  have "i64 (i64 (n + int (count_list (p # ps) p)) - 1) = i64 (n + int (count_list ps p))"
    using i64_add_left [of "n + int (count_list (p # ps) p)" "- 1"] by (simp add: algebra_simps)
  then have "count (release p s) q = i64 (n + int (count_list ps q))"
    using Cons.prems(2) v(1) by (auto simp: count_release)
  with v(2) show ?case by (simp add: Cons.IH)
qed

end

interpretation peer_refs: ref_counted AddReference Dereference refs peer_valid
proof
  fix s :: "'a net_scheme" and p q
  assume "peer_valid s p"
  then show "refs (AddReference p s) q = (if q = p then i64 (refs s q + 1) else refs s q)"
    by (simp add: AddReference_def refs_def peer_simps peer_valid_def)
  show "refs (Dereference p s) q = (if q = p then i64 (refs s q - 1) else refs s q)"
    using \<open>peer_valid s p\<close>
    by (simp add: Dereference_def Let_def peer_simps) (simp add: refs_def peer_simps peer_valid_def)
qed (simp_all add: peer_valid_def peer_simps)

section \<open>The table\<close>

text \<open>Every entry of the table points to a peer of the store with that ADNL id.\<close>

definition table_wf :: "'a net_scheme \<Rightarrow> bool" where
  "table_wf s \<longleftrightarrow> map_wf (activePeers s) \<and>
     (\<forall>a p. map_of (activePeers s) a = Some p \<longrightarrow> peer_valid s p \<and> peer_id (peers s ! p) = a)"

lemma table_wf_upd:
  assumes "table_wf s" "\<And>q. peer_id (f q) = peer_id q"
  shows "table_wf (upd_peer p f s)"
  using assms by (auto simp: table_wf_def peer_valid_def peer_simps)

lemma table_wf_basic [simp]:
  "table_wf (emit c s) = table_wf s" "table_wf (spawn t s) = table_wf s"
  by (simp_all add: table_wf_def peer_valid_def peer_simps)

lemma table_wf_closeConn: "table_wf s \<Longrightarrow> table_wf (closeConn p cmp s)"
  by (auto simp: closeConn_def intro: table_wf_upd split: option.splits)

lemma table_wf_remove: "table_wf s \<Longrightarrow> table_wf (remove_peer p s)"
  unfolding remove_peer_def
  by (rule table_wf_upd) (auto simp: table_wf_def peer_valid_def gm.wf_del split: if_splits)

lemma table_wf_AddReference: "table_wf s \<Longrightarrow> table_wf (AddReference p s)"
  by (simp add: AddReference_def table_wf_upd)

lemma table_wf_Dereference: "table_wf s \<Longrightarrow> table_wf (Dereference p s)"
  by (auto simp: Dereference_def Let_def intro!: table_wf_remove table_wf_closeConn table_wf_upd)

lemma table_wf_kill: "table_wf s \<Longrightarrow> table_wf (kill p s)"
  by (simp add: kill_def table_wf_remove table_wf_closeConn)

lemma table_wf_Send: "table_wf s \<Longrightarrow> table_wf (fst (SendCustomMessage E p m s))"
  by (auto simp: SendCustomMessage_def Let_def intro!: table_wf_upd split: option.splits)

lemma table_wf_lookup: "table_wf s \<Longrightarrow> table_wf (snd (lookup_or_new E adnl s))"
  by (auto simp: lookup_or_new_def table_wf_def peer_valid_def nth_append new_peer_def
      less_Suc_eq gm.wf_put split: option.splits if_splits)

lemma table_wf_set_conn: "table_wf s \<Longrightarrow> table_wf (set_conn E p c s)"
  by (auto simp: set_conn_def intro!: table_wf_upd)

lemma table_wf_addPeer: "table_wf s \<Longrightarrow> table_wf (snd (addPeer E adnl conn s))"
  using table_wf_lookup [of s E adnl] table_wf_set_conn
  by (auto simp: addPeer_def split: prod.splits option.splits)

lemma table_wf_discover_start: "table_wf s \<Longrightarrow> table_wf (discover_start p s)"
  by (auto simp: discover_start_def intro!: table_wf_upd)

lemma table_wf_discover_finish: "table_wf s \<Longrightarrow> table_wf (fst (discover_finish E p s))"
  by (auto simp: discover_finish_def Let_def intro!: table_wf_upd table_wf_set_conn
      split: option.splits list.splits)

lemmas table_wf_intros = table_wf_closeConn table_wf_remove table_wf_AddReference
  table_wf_Dereference table_wf_kill table_wf_Send table_wf_addPeer table_wf_discover_start
  table_wf_discover_finish

lemma addPeer_in_table:
  assumes "table_wf s"
  shows "map_of (activePeers (snd (addPeer E adnl conn s))) adnl = Some (fst (addPeer E adnl conn s))"
    and "peer_valid (snd (addPeer E adnl conn s)) (fst (addPeer E adnl conn s))"
proof -
  show *: "map_of (activePeers (snd (addPeer E adnl conn s))) adnl = Some (fst (addPeer E adnl conn s))"
    by (auto simp: addPeer_def lookup_or_new_def set_conn_def peer_simps split: option.splits prod.splits)
  from table_wf_addPeer [OF assms, of E adnl conn] * 
  show "peer_valid (snd (addPeer E adnl conn s)) (fst (addPeer E adnl conn s))"
    by (auto simp: table_wf_def)
qed

lemma addPeer_keeps_entries:
  "map_of (activePeers s) a = Some p \<Longrightarrow> map_of (activePeers (snd (addPeer E adnl conn s))) a = Some p"
  by (auto simp: addPeer_def lookup_or_new_def set_conn_def peer_simps split: option.splits prod.splits)

lemma activePeers_simps [peer_simps]:
  "activePeers (AddReference p s) = activePeers s"
  "activePeers (closeConn p cmp s) = activePeers s"
  "activePeers (fst (SendCustomMessage E p m s)) = activePeers s"
  "activePeers (remove_peer p s) = mdel (peer_id (peers s ! p)) (activePeers s)"
  by (simp_all add: AddReference_def closeConn_def SendCustomMessage_def remove_peer_def Let_def
      peer_simps split: option.splits)

lemma peer_id_simps [peer_simps]:
  "peer_id (peers (closeConn p cmp s) ! q) = peer_id (peers s ! q)"
  "peer_id (peers (AddReference p s) ! q) = peer_id (peers s ! q)"
  "peer_id (peers (Dereference p s) ! q) = peer_id (peers s ! q)"
  "peer_id (peers (fst (SendCustomMessage E p m s)) ! q) = peer_id (peers s ! q)"
  by (simp_all add: closeConn_def AddReference_def Dereference_def remove_peer_def SendCustomMessage_def
      Let_def peer_simps split: option.splits)

lemma activePeers_Dereference:
  "peer_valid s p \<Longrightarrow> activePeers (Dereference p s) =
     (if i64 (refs s p - 1) \<le> 0 then mdel (peer_id (peers s ! p)) (activePeers s) else activePeers s)"
  by (simp add: Dereference_def Let_def peer_simps refs_def peer_valid_def)

section \<open>Properties\<close>

text \<open>
  Life cycle of a shared peer: dropping a reference while others remain only lowers the
  count and leaves the table and the connection alone; dropping the last one closes the
  connection, cancels the peer and takes it out of the table.
\<close>

lemma Dereference_lifecycle:
  assumes "peer_valid s p" "0 < refs s p" "is_i64 (refs s p)"
  shows "refs (Dereference p s) p = refs s p - 1 \<and>
    (if refs s p = 1
     then map_of (activePeers (Dereference p s)) (peer_id (peers s ! p)) = None
          \<and> getConn p (Dereference p s) = None \<and> peer_closed (peers (Dereference p s) ! p)
     else activePeers (Dereference p s) = activePeers s \<and> getConn p (Dereference p s) = getConn p s)"
proof -
  have i: "i64 (refs s p - 1) = refs s p - 1"
    using assms(2,3) by (intro i64_id) (simp add: is_i64_def)
  show ?thesis
  proof (cases "refs s p = 1")
    case True
    then show ?thesis using assms i
      by (auto simp: Dereference_def Let_def remove_peer_def closeConn_def getConn_def
          refs_def peer_valid_def peer_simps split: option.splits)
  next
    case False
    then show ?thesis using assms i
      by (auto simp: Dereference_def Let_def getConn_def refs_def peer_valid_def peer_simps)
  qed
qed

definition demo_env :: env where
  "demo_env = \<lparr>now = 1000, send_ok = (\<lambda>_. True), find_addresses = (\<lambda>_. Some [([10, 0, 0, 1], 17330)]),
     register_client = (\<lambda>_. Some \<lparr>conn_addr = ''10.0.0.1:17330'', conn_handle = 1\<rparr>),
     rate_add = (\<lambda>_. 1), try_lock = (\<lambda>_ _. True), gate_addresses = [[10, 0, 0, 9]],
     listen_packet = (\<lambda>_. Some 4000), write_ok = (\<lambda>_. True),
     load_state = (\<lambda>bs. case bs of [] \<Rightarrow> None | b # _ \<Rightarrow> Some \<lparr>Amount = uint b, Signature = bs\<rparr>),
     verify_state = (\<lambda>_ _. True),
     channel_meta = (\<lambda>_ _. Some \<lparr>LastKnownResolve = [], Incoming = Some (''1'', 9000),
       HasOutgoing = False, StatusActive = True\<rparr>),
     parse_ton = (\<lambda>_. Some 1000000000), add_resolve_ok = (\<lambda>_. True), nonce = (\<lambda>_. Some 5)\<rparr>"

definition demo_net :: net where
  "demo_net = snd (addPeer demo_env [1] (Some \<lparr>conn_addr = ''a'', conn_handle = 3\<rparr>)
     \<lparr>peers = [], activePeers = [], pending = [], outputs = []\<rparr>)"

lemma Dereference_lifecycle_witness:
  "refs (AddReference 0 demo_net) 0 = 1 \<and>
   map_of (activePeers (Dereference 0 (AddReference 0 demo_net))) [1] = None"
proof -
  have 1: "peer_valid (AddReference 0 demo_net) 0" "refs (AddReference 0 demo_net) 0 = 1"
    "peer_id (peers (AddReference 0 demo_net) ! 0) = [1]"
    by (simp_all add: demo_net_def addPeer_def lookup_or_new_def set_conn_def peer_valid_def refs_def
        AddReference_def upd_peer_def emit_def hupd_def new_peer_def i64_def)
  with Dereference_lifecycle [of "AddReference 0 demo_net" 0] show ?thesis
    by (simp add: is_i64_def)
qed

end
