(* ===== verification/Tunnel_State.thy ===== *)
theory Tunnel_State
  imports Seqno_Window Peer_Table
begin

text \<open>
  The state of a gateway (the structs of \<open>tunnel/gateway.go\<close>) and the operations that close
  its parts. Sections and payment channels are shared through pointers and live in stores;
  a route and an out belong to one section for ever (nothing removes them from it), so they
  are values inside it. The Prometheus gauges of active sections, routes and outs are part of
  the state.
\<close>

section \<open>State\<close>

record route_target =
  tgtPeer :: ptr
  tgtADNL :: bytes
  tgtSectionKey :: bytes
  tgtPrice :: u64

record route =
  rID :: u32
  rTarget :: route_target
  PacketsRouted :: u64
  PaymentReceived :: bool
  PrepaidPackets :: int

record out =
  inboundPeer :: ptr
  outPort :: u16
  outClosed :: bool
  InboundADNL :: bytes
  PayloadCipherKey :: bytes
  PayloadCipherKeyCRC :: u64
  InboundSectionKey :: bytes
  outInstructions :: bytes
  PacketsSentOut :: u64
  PacketsSentIn :: u64
  PrepaidPacketsIn :: int
  PrepaidPacketsOut :: int
  outPrice :: int
  backSeqno :: u32

record payment_channel =
  chKey :: bytes
  chActive :: bool
  chDeadline :: int
  chCapacity :: int
  chLatestState :: "vc_state option"
  chPurpose :: u64

datatype cached_action =
    RouteCachedAction u32
  | SendOutCachedAction
  | DeliverInitiatorCachedAction metadata ptr

record tun_section =
  lastPacketAt :: int
  secKey :: bytes
  cipherKey :: bytes
  cipherKeyCrc :: u64
  routes :: "(u32, route) gomap"
  sec_out :: "out option"
  cachedActions :: "cached_action list"
  cachedActionsVer :: u64
  sec_payments :: "(bytes, ptr) gomap"
  sec_seqno :: seqno_window
  seqnoCached :: seqno_window

record gateway = net +
  gwKey :: bytes
  allowRouting :: bool
  allowOut :: bool
  tunnels :: "(u32, ptr) gomap"
  statsReceived :: u64
  statsSent :: u64
  statsRouted :: u64
  payService :: bool
  MinPricePerPacketRoute :: u64
  MinPricePerPacketInOut :: u64
  sections :: "tun_section list"
  inboundSections :: "(bytes, ptr) gomap"
  channels :: "payment_channel list"
  ActiveInboundSections :: int
  ActiveRoutes :: "bool \<Rightarrow> int"
  ActiveOutGateways :: "bool \<Rightarrow> int"

definition NewGateway :: "bytes \<Rightarrow> bool \<Rightarrow> u64 \<Rightarrow> u64 \<Rightarrow> gateway" where
  "NewGateway key service minRoute minInOut =
     \<lparr>peers = [], activePeers = [], pending = [], outputs = [],
      gwKey = key, allowRouting = True, allowOut = True, tunnels = [],
      statsReceived = 0, statsSent = 0, statsRouted = 0,
      payService = service, MinPricePerPacketRoute = minRoute, MinPricePerPacketInOut = minInOut,
      sections = [], inboundSections = [], channels = [],
      ActiveInboundSections = 0, ActiveRoutes = (\<lambda>_. 0), ActiveOutGateways = (\<lambda>_. 0)\<rparr>"

definition new_section :: "env \<Rightarrow> bytes \<Rightarrow> bytes \<Rightarrow> tun_section" where
  "new_section E key shKey =
     \<lparr>lastPacketAt = now E, secKey = key, cipherKey = shKey, cipherKeyCrc = crc64 shKey,
      routes = [], sec_out = None, cachedActions = [], cachedActionsVer = 0, sec_payments = [],
      sec_seqno = empty_window, seqnoCached = empty_window\<rparr>"

abbreviation sec :: "'a gateway_scheme \<Rightarrow> ptr \<Rightarrow> tun_section" where
  "sec s sp \<equiv> sections s ! sp"

definition sec_valid :: "'a gateway_scheme \<Rightarrow> ptr \<Rightarrow> bool" where
  "sec_valid s sp \<longleftrightarrow> sp < length (sections s)"

definition upd_sec :: "ptr \<Rightarrow> (tun_section \<Rightarrow> tun_section) \<Rightarrow> 'a gateway_scheme \<Rightarrow> 'a gateway_scheme" where
  "upd_sec sp f s = s\<lparr>sections := hupd sp f (sections s)\<rparr>"

definition upd_route :: "u32 \<Rightarrow> (route \<Rightarrow> route) \<Rightarrow> tun_section \<Rightarrow> tun_section" where
  "upd_route rid f sc = (case map_of (routes sc) rid of None \<Rightarrow> sc
     | Some r \<Rightarrow> sc\<lparr>routes := mput rid (f r) (routes sc)\<rparr>)"

definition upd_out :: "(out \<Rightarrow> out) \<Rightarrow> tun_section \<Rightarrow> tun_section" where
  "upd_out f sc = sc\<lparr>sec_out := map_option f (sec_out sc)\<rparr>"

definition upd_chan :: "ptr \<Rightarrow> (payment_channel \<Rightarrow> payment_channel) \<Rightarrow> 'a gateway_scheme \<Rightarrow> 'a gateway_scheme" where
  "upd_chan v f s = s\<lparr>channels := hupd v f (channels s)\<rparr>"

definition gauge_routes :: "bool \<Rightarrow> int \<Rightarrow> 'a gateway_scheme \<Rightarrow> 'a gateway_scheme" where
  "gauge_routes paid d s = s\<lparr>ActiveRoutes := (ActiveRoutes s)(paid := ActiveRoutes s paid + d)\<rparr>"

definition gauge_outs :: "bool \<Rightarrow> int \<Rightarrow> 'a gateway_scheme \<Rightarrow> 'a gateway_scheme" where
  "gauge_outs paid d s = s\<lparr>ActiveOutGateways := (ActiveOutGateways s)(paid := ActiveOutGateways s paid + d)\<rparr>"

section \<open>Closing\<close>

text \<open>The error of \<open>CloseVirtualChannel\<close> is only logged.\<close>

definition closePaymentChannel :: "ptr \<Rightarrow> 'a gateway_scheme \<Rightarrow> 'a gateway_scheme" where
  "closePaymentChannel v s =
     (if \<not> chActive (channels s ! v) then s
      else let s' = upd_chan v (\<lambda>ch. ch\<lparr>chActive := False\<rparr>) s
           in if chLatestState (channels s ! v) = None then s'
              else emit (CallCloseVirtual (chKey (channels s ! v))) s')"

definition Route_Close :: "route \<Rightarrow> 'a gateway_scheme \<Rightarrow> 'a gateway_scheme" where
  "Route_Close r s =
     gauge_routes (0 < tgtPrice (rTarget r)) (- 1) (Dereference (tgtPeer (rTarget r)) s)"

definition Out_Close :: "ptr \<Rightarrow> out \<Rightarrow> 'a gateway_scheme \<Rightarrow> 'a gateway_scheme" where
  "Out_Close sp ot s =
     gauge_outs (0 < outPrice ot) (- 1)
       (Dereference (inboundPeer ot)
         (emit (CallUdpClose (outPort ot))
           (upd_sec sp (upd_out (\<lambda>q. q\<lparr>outClosed := True\<rparr>)) s)))"

definition close_section :: "ptr \<Rightarrow> 'a gateway_scheme \<Rightarrow> 'a gateway_scheme" where
  "close_section sp s =
     (let s1 = fold closePaymentChannel (map snd (sec_payments (sec s sp))) s;
          s2 = fold Route_Close (map snd (routes (sec s sp))) s1;
          s3 = (case sec_out (sec s sp) of None \<Rightarrow> s2 | Some ot \<Rightarrow> Out_Close sp ot s2)
      in s3\<lparr>ActiveInboundSections := ActiveInboundSections s3 - 1\<rparr>)"

definition closeIfNotLocked :: "env \<Rightarrow> ptr \<Rightarrow> 'a gateway_scheme \<Rightarrow> 'a gateway_scheme \<times> bool" where
  "closeIfNotLocked E sp s =
     (let s0 = emit (CallTryLock sp) s
      in if try_lock E (outputs s0) sp then (close_section sp s0, True) else (s0, False))"

definition drop_section :: "env \<Rightarrow> ptr \<Rightarrow> 'a gateway_scheme \<Rightarrow> 'a gateway_scheme" where
  "drop_section E sp s =
     (case closeIfNotLocked E sp s of
        (s', True) \<Rightarrow> s'\<lparr>inboundSections := mdel (secKey (sec s sp)) (inboundSections s')\<rparr>
      | (s', False) \<Rightarrow> s')"

definition Destroy_Execute :: "env \<Rightarrow> ptr \<Rightarrow> 'a gateway_scheme \<Rightarrow> 'a gateway_scheme \<times> go_error option" where
  "Destroy_Execute E sp s = (drop_section E sp s, None)"

section \<open>Packet statistics\<close>

record section_stats =
  Routed :: u64
  Sent :: u64
  Received :: u64
  PrepaidPacketsRoute :: "int list"
  statPrepaidIn :: int
  statPrepaidOut :: int

definition section_stats_of :: "tun_section \<Rightarrow> section_stats" where
  "section_stats_of sc =
     \<lparr>Routed = sum_list (map (PacketsRouted \<circ> snd) (routes sc)),
      Sent = (case sec_out sc of None \<Rightarrow> 0 | Some ot \<Rightarrow> PacketsSentOut ot),
      Received = (case sec_out sc of None \<Rightarrow> 0 | Some ot \<Rightarrow> PacketsSentIn ot),
      PrepaidPacketsRoute = map (PrepaidPackets \<circ> snd) (routes sc),
      statPrepaidIn = (case sec_out sc of None \<Rightarrow> 0 | Some ot \<Rightarrow> PrepaidPacketsIn ot),
      statPrepaidOut = (case sec_out sc of None \<Rightarrow> 0 | Some ot \<Rightarrow> PrepaidPacketsOut ot)\<rparr>"

definition GetPacketsStats :: "'a gateway_scheme \<Rightarrow> (bytes, section_stats) gomap" where
  "GetPacketsStats s = map (\<lambda>(k, sp). (k, section_stats_of (sec s sp))) (inboundSections s)"

section \<open>Sequence numbers of a section\<close>

definition checkSeqno :: "ptr \<Rightarrow> u32 \<Rightarrow> bool \<Rightarrow> 'a gateway_scheme \<Rightarrow> 'a gateway_scheme \<times> bool" where
  "checkSeqno sp seqno cached s =
     (if cached
      then let (w, ok) = check_window seqno (seqnoCached (sec s sp))
           in (upd_sec sp (\<lambda>sc. sc\<lparr>seqnoCached := w\<rparr>) s, ok)
      else let (w, ok) = check_window seqno (sec_seqno (sec s sp))
           in (upd_sec sp (\<lambda>sc. sc\<lparr>sec_seqno := w\<rparr>) s, ok))"

section \<open>What network steps leave alone\<close>

lemma net_step_fields:
  assumes "net_step (s :: 'a gateway_scheme) s'"
  shows "gwKey s' = gwKey s" "allowRouting s' = allowRouting s" "allowOut s' = allowOut s"
    "tunnels s' = tunnels s" "statsReceived s' = statsReceived s" "statsSent s' = statsSent s"
    "statsRouted s' = statsRouted s" "payService s' = payService s"
    "MinPricePerPacketRoute s' = MinPricePerPacketRoute s"
    "MinPricePerPacketInOut s' = MinPricePerPacketInOut s"
    "sections s' = sections s" "inboundSections s' = inboundSections s" "channels s' = channels s"
    "ActiveInboundSections s' = ActiveInboundSections s" "ActiveRoutes s' = ActiveRoutes s"
    "ActiveOutGateways s' = ActiveOutGateways s"
  using assms by (auto simp: net_step_def)

lemmas frame_net [simp] =
  net_step_fields [OF net_step_upd_peer] net_step_fields [OF net_step_emit]
  net_step_fields [OF net_step_spawn] net_step_fields [OF net_step_set_conn]
  net_step_fields [OF net_step_addPeer] net_step_fields [OF net_step_closeConn]
  net_step_fields [OF net_step_AddReference] net_step_fields [OF net_step_kill]
  net_step_fields [OF net_step_Dereference] net_step_fields [OF net_step_Send]
  net_step_fields [OF net_step_discover_start] net_step_fields [OF net_step_discover_finish]

section \<open>Reading the state after a write\<close>

lemma upd_sec_fields [simp]:
  "peers (upd_sec sp f s) = peers s" "activePeers (upd_sec sp f s) = activePeers s"
  "pending (upd_sec sp f s) = pending s" "outputs (upd_sec sp f s) = outputs s"
  "gwKey (upd_sec sp f s) = gwKey s" "allowRouting (upd_sec sp f s) = allowRouting s"
  "allowOut (upd_sec sp f s) = allowOut s" "tunnels (upd_sec sp f s) = tunnels s"
  "payService (upd_sec sp f s) = payService s"
  "MinPricePerPacketRoute (upd_sec sp f s) = MinPricePerPacketRoute s"
  "MinPricePerPacketInOut (upd_sec sp f s) = MinPricePerPacketInOut s"
  "inboundSections (upd_sec sp f s) = inboundSections s" "channels (upd_sec sp f s) = channels s"
  "ActiveInboundSections (upd_sec sp f s) = ActiveInboundSections s"
  "ActiveRoutes (upd_sec sp f s) = ActiveRoutes s" "ActiveOutGateways (upd_sec sp f s) = ActiveOutGateways s"
  "statsReceived (upd_sec sp f s) = statsReceived s" "statsSent (upd_sec sp f s) = statsSent s"
  "statsRouted (upd_sec sp f s) = statsRouted s"
  "sections (upd_sec sp f s) = hupd sp f (sections s)"
  by (simp_all add: upd_sec_def)

lemma upd_chan_fields [simp]:
  "peers (upd_chan v g s) = peers s" "activePeers (upd_chan v g s) = activePeers s"
  "pending (upd_chan v g s) = pending s" "outputs (upd_chan v g s) = outputs s"
  "sections (upd_chan v g s) = sections s" "inboundSections (upd_chan v g s) = inboundSections s"
  "channels (upd_chan v g s) = hupd v g (channels s)"
  "ActiveRoutes (upd_chan v g s) = ActiveRoutes s" "ActiveOutGateways (upd_chan v g s) = ActiveOutGateways s"
  "ActiveInboundSections (upd_chan v g s) = ActiveInboundSections s"
  by (simp_all add: upd_chan_def)

lemma gauge_fields [simp]:
  "peers (gauge_routes b d s) = peers s" "activePeers (gauge_routes b d s) = activePeers s"
  "sections (gauge_routes b d s) = sections s" "inboundSections (gauge_routes b d s) = inboundSections s"
  "channels (gauge_routes b d s) = channels s" "outputs (gauge_routes b d s) = outputs s"
  "pending (gauge_routes b d s) = pending s"
  "ActiveOutGateways (gauge_routes b d s) = ActiveOutGateways s"
  "ActiveInboundSections (gauge_routes b d s) = ActiveInboundSections s"
  "peers (gauge_outs b d s) = peers s" "activePeers (gauge_outs b d s) = activePeers s"
  "sections (gauge_outs b d s) = sections s" "inboundSections (gauge_outs b d s) = inboundSections s"
  "channels (gauge_outs b d s) = channels s" "outputs (gauge_outs b d s) = outputs s"
  "pending (gauge_outs b d s) = pending s"
  "ActiveRoutes (gauge_outs b d s) = ActiveRoutes s"
  "ActiveInboundSections (gauge_outs b d s) = ActiveInboundSections s"
  by (simp_all add: gauge_routes_def gauge_outs_def)

lemma ActiveRoutes_gauge [simp]:
  "ActiveRoutes (gauge_routes b d s) c = ActiveRoutes s c + (if c = b then d else 0)"
  "ActiveOutGateways (gauge_outs b d s) c = ActiveOutGateways s c + (if c = b then d else 0)"
  by (simp_all add: gauge_routes_def gauge_outs_def)

section \<open>Well-formed states\<close>

text \<open>
  What every handler keeps. A section has at most three routes, each stored under its own id;
  routes and outs point to existing peers that carry the ADNL id they were configured with;
  the prepaid counters never leave the credit the node grants (20000 packets on credit for
  routes and incoming packets, none for outgoing ones); cached route actions name existing
  routes; the tables are maps and their entries point into the stores.
\<close>

definition peer_ids :: "'a net_scheme \<Rightarrow> bytes list" where
  "peer_ids s = map peer_id (peers s)"

definition points_to :: "bytes list \<Rightarrow> ptr \<Rightarrow> bytes \<Rightarrow> bool" where
  "points_to ids p adnl \<longleftrightarrow> p < length ids \<and> ids ! p = adnl"

definition route_ok :: "bytes list \<Rightarrow> u32 \<Rightarrow> route \<Rightarrow> bool" where
  "route_ok ids rid r \<longleftrightarrow> rID r = rid \<and> points_to ids (tgtPeer (rTarget r)) (tgtADNL (rTarget r)) \<and>
     - 20000 \<le> PrepaidPackets r \<and> PrepaidPackets r \<le> MaxInt64 \<and>
     (PaymentReceived r \<or> PrepaidPackets r = 0)"

definition out_ok :: "bytes list \<Rightarrow> out \<Rightarrow> bool" where
  "out_ok ids ot \<longleftrightarrow> points_to ids (inboundPeer ot) (InboundADNL ot) \<and> 0 \<le> outPrice ot \<and>
     0 \<le> PrepaidPacketsOut ot \<and> PrepaidPacketsOut ot \<le> MaxInt64 \<and>
     - 20000 \<le> PrepaidPacketsIn ot \<and> PrepaidPacketsIn ot \<le> MaxInt64"

definition section_ok :: "bytes list \<Rightarrow> nat \<Rightarrow> tun_section \<Rightarrow> bool" where
  "section_ok ids nc sc \<longleftrightarrow>
     map_wf (routes sc) \<and> length (routes sc) \<le> 3 \<and>
     (\<forall>rid r. map_of (routes sc) rid = Some r \<longrightarrow> route_ok ids rid r) \<and>
     (\<forall>ot. sec_out sc = Some ot \<longrightarrow> out_ok ids ot) \<and>
     map_wf (sec_payments sc) \<and> (\<forall>k v. map_of (sec_payments sc) k = Some v \<longrightarrow> v < nc) \<and>
     (\<forall>rid. RouteCachedAction rid \<in> set (cachedActions sc) \<longrightarrow> map_of (routes sc) rid \<noteq> None)"

definition gw_inv :: "'a gateway_scheme \<Rightarrow> bool" where
  "gw_inv s \<longleftrightarrow> table_wf s \<and> map_wf (inboundSections s) \<and>
     (\<forall>k sp. map_of (inboundSections s) k = Some sp \<longrightarrow> sec_valid s sp \<and> secKey (sec s sp) = k) \<and>
     (\<forall>sp. sec_valid s sp \<longrightarrow> section_ok (peer_ids s) (length (channels s)) (sec s sp))"

lemma points_to_append: "points_to ids p adnl \<Longrightarrow> points_to (ids @ xs) p adnl"
  by (auto simp: points_to_def nth_append)

lemma section_ok_mono: "section_ok ids nc sc \<Longrightarrow> nc \<le> nc' \<Longrightarrow> section_ok (ids @ xs) nc' sc"
  by (fastforce simp: section_ok_def route_ok_def out_ok_def intro: points_to_append)

text \<open>A network operation that keeps the peers it finds keeps the invariant.\<close>

definition net_keeps :: "'a net_scheme \<Rightarrow> 'a net_scheme \<Rightarrow> bool" where
  "net_keeps s s' \<longleftrightarrow> net_step s s' \<and> (table_wf s \<longrightarrow> table_wf s') \<and> (\<exists>xs. peer_ids s' = peer_ids s @ xs)"

lemma net_keeps_refl [simp]: "net_keeps s s"
  by (simp add: net_keeps_def)

lemma net_keeps_trans [trans]: "net_keeps s t \<Longrightarrow> net_keeps t u \<Longrightarrow> net_keeps s u"
  unfolding net_keeps_def using net_step_trans by (metis append_assoc)

lemma peer_ids_upd: "(\<And>q. peer_id (g q) = peer_id q) \<Longrightarrow> peer_ids (upd_peer p g s) = peer_ids s"
  by (simp add: peer_ids_def upd_peer_def hupd_def map_update list_update_same_conv)
    (metis list_update_beyond list_update_id map_update not_less nth_map)

lemma peer_ids_basic [simp]: "peer_ids (emit c s) = peer_ids s" "peer_ids (spawn t s) = peer_ids s"
  by (simp_all add: peer_ids_def emit_def spawn_def)

lemma net_keeps_upd_peer: "(\<And>q. peer_id (g q) = peer_id q) \<Longrightarrow> net_keeps s (upd_peer p g s)"
  by (simp add: net_keeps_def table_wf_upd peer_ids_upd)

lemma net_keeps_basic [simp]: "net_keeps s (emit c s)" "net_keeps s (spawn t s)"
  by (simp_all add: net_keeps_def)

lemma peer_ids_remove: "peer_ids (remove_peer p s) = peer_ids s"
proof -
  let ?t = "s\<lparr>activePeers := mdel (peer_id (peers s ! p)) (activePeers s)\<rparr>"
  have "peer_ids (remove_peer p s) = peer_ids ?t"
    unfolding remove_peer_def by (rule peer_ids_upd) simp
  then show ?thesis by (simp add: peer_ids_def)
qed

lemma net_keeps_remove [simp]: "net_keeps s (remove_peer p s)"
  by (simp add: net_keeps_def table_wf_remove peer_ids_remove)

lemma net_keeps_closeConn [simp]: "net_keeps s (closeConn p cmp s)"
  by (auto simp: closeConn_def split: option.splits
      intro: net_keeps_trans [OF net_keeps_basic(1) net_keeps_upd_peer])

lemma net_keeps_AddReference [simp]: "net_keeps s (AddReference p s)"
  by (simp add: AddReference_def net_keeps_upd_peer)

lemma net_keeps_kill [simp]: "net_keeps s (kill p s)"
  unfolding kill_def by (rule net_keeps_trans [OF net_keeps_closeConn net_keeps_remove])

lemma net_keeps_Dereference [simp]: "net_keeps s (Dereference p s)"
  by (auto simp: Dereference_def Let_def intro!: net_keeps_upd_peer
      intro: net_keeps_trans [OF net_keeps_upd_peer net_keeps_trans [OF net_keeps_closeConn net_keeps_remove]])

lemma net_keeps_Send [simp]: "net_keeps s (fst (SendCustomMessage E p m s))"
  by (auto simp: SendCustomMessage_def Let_def split: option.splits
      intro: net_keeps_trans [OF net_keeps_upd_peer net_keeps_basic(1)])

lemma net_keeps_set_conn [simp]: "net_keeps s (set_conn E p c s)"
  unfolding set_conn_def by (rule net_keeps_trans [OF net_keeps_basic(1) net_keeps_upd_peer]) simp

lemma net_keeps_lookup [simp]: "net_keeps s (snd (lookup_or_new E adnl s))"
proof -
  have "\<exists>xs. peer_ids (snd (lookup_or_new E adnl s)) = peer_ids s @ xs"
    by (cases "map_of (activePeers s) adnl") (auto simp: peer_ids_def lookup_or_new_def)
  then show ?thesis by (simp add: net_keeps_def table_wf_lookup)
qed

lemma net_keeps_addPeer [simp]: "net_keeps s (snd (addPeer E adnl conn s))"
  by (auto simp: addPeer_def split: prod.splits option.splits
      intro: net_keeps_trans [OF net_keeps_lookup [of s E adnl]])

lemma net_keeps_discover_start [simp]: "net_keeps s (discover_start p s)"
  by (auto simp: discover_start_def
      intro: net_keeps_trans [OF net_keeps_upd_peer net_keeps_trans [OF net_keeps_basic(1) net_keeps_basic(2)]])

lemma net_keeps_discover_finish [simp]: "net_keeps s (fst (discover_finish E p s))"
  by (auto simp: discover_finish_def Let_def split: option.splits list.splits
      intro: net_keeps_upd_peer net_keeps_trans [OF net_keeps_basic(1) net_keeps_upd_peer]
        net_keeps_trans [OF net_keeps_trans [OF net_keeps_basic(1) net_keeps_set_conn] net_keeps_upd_peer])

lemma gw_inv_net:
  assumes "gw_inv s" "net_keeps s s'"
  shows "gw_inv s'"
proof -
  from assms(2) obtain xs where *: "peer_ids s' = peer_ids s @ xs" and n: "net_step s s'"
    and t: "table_wf s \<longrightarrow> table_wf s'"
    by (auto simp: net_keeps_def)
  show ?thesis
    using assms(1) t net_step_fields [OF n]
    by (auto simp: gw_inv_def sec_valid_def * intro: section_ok_mono)
qed

lemmas gw_inv_nets = gw_inv_net [OF _ net_keeps_basic(1)] gw_inv_net [OF _ net_keeps_basic(2)]
  gw_inv_net [OF _ net_keeps_closeConn] gw_inv_net [OF _ net_keeps_AddReference]
  gw_inv_net [OF _ net_keeps_Dereference] gw_inv_net [OF _ net_keeps_Send]
  gw_inv_net [OF _ net_keeps_addPeer] gw_inv_net [OF _ net_keeps_kill]
  gw_inv_net [OF _ net_keeps_discover_start] gw_inv_net [OF _ net_keeps_discover_finish]

lemma gw_inv_upd_sec:
  assumes "gw_inv s" "secKey (f (sec s sp)) = secKey (sec s sp)"
    and "sec_valid s sp \<Longrightarrow> section_ok (peer_ids s) (length (channels s)) (sec s sp)
         \<Longrightarrow> section_ok (peer_ids s) (length (channels s)) (f (sec s sp))"
  shows "gw_inv (upd_sec sp f s)"
  using assms by (auto simp: gw_inv_def sec_valid_def table_wf_def peer_valid_def peer_ids_def nth_hupd)

lemma gw_inv_simps [simp]:
  "gw_inv (gauge_routes b d s) = gw_inv s" "gw_inv (gauge_outs b d s) = gw_inv s"
  "gw_inv (upd_chan v g s) = gw_inv s" "gw_inv (statsRouted_update h s) = gw_inv s"
  "gw_inv (statsSent_update h s) = gw_inv s" "gw_inv (statsReceived_update h s) = gw_inv s"
  "gw_inv (ActiveInboundSections_update k s) = gw_inv s"
  by (simp_all add: gw_inv_def sec_valid_def table_wf_def peer_valid_def peer_ids_def)

lemma gw_inv_section:
  "gw_inv s \<Longrightarrow> sec_valid s sp \<Longrightarrow> section_ok (peer_ids s) (length (channels s)) (sec s sp)"
  by (simp add: gw_inv_def)

lemma section_ok_route:
  "section_ok ids nc sc \<Longrightarrow> map_of (routes sc) rid = Some r \<Longrightarrow> route_ok ids rid r"
  by (simp add: section_ok_def)

lemma section_ok_put_route:
  assumes "section_ok ids nc sc" "route_ok ids rid r"
    and "map_of (routes sc) rid = None \<Longrightarrow> length (routes sc) < 3"
  shows "section_ok ids nc (sc\<lparr>routes := mput rid r (routes sc)\<rparr>)"
  using assms gm.len_put_bound [of "routes sc" rid 3 r] by (auto simp: section_ok_def gm.wf_put)

lemma section_ok_upd_route:
  assumes "section_ok ids nc sc" "\<And>r. map_of (routes sc) rid = Some r \<Longrightarrow> route_ok ids rid r \<Longrightarrow> route_ok ids rid (f r)"
  shows "section_ok ids nc (upd_route rid f sc)"
  using assms section_ok_put_route [of ids nc sc rid] section_ok_route [of ids nc sc rid]
  by (auto simp: upd_route_def split: option.splits)

lemma section_ok_upd_out:
  assumes "section_ok ids nc sc" "\<And>ot. sec_out sc = Some ot \<Longrightarrow> out_ok ids ot \<Longrightarrow> out_ok ids (f ot)"
  shows "section_ok ids nc (upd_out f sc)"
  using assms by (auto simp: section_ok_def upd_out_def)

lemma secKey_upd [simp]: "secKey (upd_route rid f sc) = secKey sc" "secKey (upd_out g sc) = secKey sc"
  by (simp_all add: upd_route_def upd_out_def split: option.splits)

section \<open>Closing keeps the invariant\<close>

lemma gw_inv_closePaymentChannel: "gw_inv s \<Longrightarrow> gw_inv (closePaymentChannel v s)"
  by (auto simp: closePaymentChannel_def Let_def intro: gw_inv_nets)

lemma gw_inv_Route_Close: "gw_inv s \<Longrightarrow> gw_inv (Route_Close r s)"
  by (auto simp: Route_Close_def intro: gw_inv_nets)

lemma gw_inv_Out_Close: "gw_inv s \<Longrightarrow> gw_inv (Out_Close sp ot s)"
proof -
  assume "gw_inv s"
  then have "gw_inv (upd_sec sp (upd_out (\<lambda>q. q\<lparr>outClosed := True\<rparr>)) s)"
    by (rule gw_inv_upd_sec) (simp, rule section_ok_upd_out, auto simp: out_ok_def)
  then show ?thesis unfolding Out_Close_def
    by (simp add: gw_inv_nets)
qed

lemma gw_inv_fold: "(\<And>x t. gw_inv t \<Longrightarrow> gw_inv (f x t)) \<Longrightarrow> gw_inv s \<Longrightarrow> gw_inv (fold f xs s)"
  by (induction xs arbitrary: s) auto

lemma gw_inv_close_section: "gw_inv s \<Longrightarrow> gw_inv (close_section sp s)"
  by (auto simp: close_section_def Let_def split: option.split
      intro!: gw_inv_Out_Close gw_inv_fold [of Route_Close] gw_inv_Route_Close
        gw_inv_fold [of closePaymentChannel] gw_inv_closePaymentChannel)

lemma gw_inv_drop: "gw_inv s \<Longrightarrow> gw_inv (s\<lparr>inboundSections := mdel k (inboundSections s)\<rparr>)"
  by (auto simp: gw_inv_def sec_valid_def table_wf_def peer_valid_def peer_ids_def gm.wf_del
      split: if_splits)

lemma gw_inv_drop_section: "gw_inv s \<Longrightarrow> gw_inv (drop_section E sp s)"
  by (auto simp: drop_section_def closeIfNotLocked_def Let_def intro!: gw_inv_drop gw_inv_close_section
      gw_inv_nets)

lemma gw_inv_checkSeqno: "gw_inv s \<Longrightarrow> gw_inv (fst (checkSeqno sp n c s))"
  by (auto simp: checkSeqno_def split: prod.split intro!: gw_inv_upd_sec) (auto simp: section_ok_def)

lemma gw_inv_NewGateway: "gw_inv (NewGateway key service minRoute minInOut)"
  by (simp add: gw_inv_def NewGateway_def table_wf_def sec_valid_def)

end
