(* ===== verification/Route_Instructions.thy ===== *)
theory Route_Instructions
  imports Tunnel_State
begin

text \<open>
  Routes of a section and the instruction cache (\<open>tunnel/instructions.go\<close>): building and
  changing a route, forwarding packets over it with the prepaid and free budgets, and the
  list of actions that cached packets run. The leaky bucket of free packets is a library
  object; its answers come from \<open>rate_add\<close>.
\<close>

section \<open>Building a route\<close>

definition MaxActiveRoutesPerSection :: nat where
  "MaxActiveRoutesPerSection = 3"

definition new_route :: "u32 \<Rightarrow> route_target \<Rightarrow> route" where
  "new_route rid target = \<lparr>rID = rid, rTarget = target, PacketsRouted = 0, PaymentReceived = False,
     PrepaidPackets = 0\<rparr>"

definition move_gauge :: "u64 \<Rightarrow> u64 \<Rightarrow> 'a gateway_scheme \<Rightarrow> 'a gateway_scheme" where
  "move_gauge old new s =
     (if (0 < old) \<noteq> (0 < new) then gauge_routes (0 < new) 1 (gauge_routes (0 < old) (- 1) s) else s)"

definition retarget :: "ptr \<Rightarrow> u32 \<Rightarrow> route \<Rightarrow> route_target \<Rightarrow> 'a gateway_scheme \<Rightarrow> 'a gateway_scheme" where
  "retarget sp rid route target s =
     (let existing = rTarget route; adnlChanged = tgtADNL existing \<noteq> tgtADNL target
      in if \<not> adnlChanged \<and> tgtSectionKey existing = tgtSectionKey target
            \<and> tgtPrice existing = tgtPrice target
         then s
         else let s1 = (if adnlChanged then Dereference (tgtPeer existing) (AddReference (tgtPeer target) s)
                        else s)
              in upd_sec sp (upd_route rid (\<lambda>r. r\<lparr>rTarget := target\<rparr>))
                   (move_gauge (tgtPrice existing) (tgtPrice target) s1))"

definition BuildRoute_Execute ::
  "env \<Rightarrow> ptr \<Rightarrow> bytes \<Rightarrow> bytes \<Rightarrow> u32 \<Rightarrow> u64 \<Rightarrow> 'a gateway_scheme \<Rightarrow> 'a gateway_scheme \<times> go_error option" where
  "BuildRoute_Execute E sp adnl key rid price s =
     (if \<not> allowRouting s then (s, Some ErrRoutingNotAllowed)
      else if price < MinPricePerPacketRoute s then (s, Some ErrLowPrice)
      else let (p, s1) = addPeer E adnl None s;
               target = \<lparr>tgtPeer = p, tgtADNL = adnl, tgtSectionKey = key, tgtPrice = price\<rparr>;
               active = routes (sec s1 sp)
           in case map_of active rid of
                None \<Rightarrow>
                  if MaxActiveRoutesPerSection \<le> length active
                  then (s1, Some (ErrTooManyRoutes (length active)))
                  else (gauge_routes (0 < price) 1
                         (upd_sec sp (\<lambda>sc. sc\<lparr>routes := mput rid (new_route rid target) (routes sc)\<rparr>)
                           (AddReference p s1)), None)
              | Some route \<Rightarrow> (retarget sp rid route target s1, None))"

section \<open>Forwarding\<close>

definition LossAcceptablePercent :: u64 where "LossAcceptablePercent = 0"
definition LossAcceptableStartup :: u64 where "LossAcceptableStartup = 20000"

definition maxLoss :: "u64 \<Rightarrow> int" where
  "maxLoss packets = i64 (- i64 (uint ((packets div 100) * LossAcceptablePercent + LossAcceptableStartup)))"

text \<open>
  Paying for one packet of a priced route: from the prepaid balance if a payment was received
  and the balance is above the accepted loss, else from the free budget.
\<close>

definition charge_route ::
  "env \<Rightarrow> ptr \<Rightarrow> u32 \<Rightarrow> route \<Rightarrow> 'a gateway_scheme \<Rightarrow> 'a gateway_scheme \<times> bool \<times> go_error option" where
  "charge_route E sp rid r s =
     (let loss = maxLoss (PacketsRouted r);
          takes = PaymentReceived r \<and> loss < PrepaidPackets r;
          left = i64 (PrepaidPackets r - 1);
          s1 = (if takes then upd_sec sp (upd_route rid (\<lambda>q. q\<lparr>PrepaidPackets := left\<rparr>)) s else s)
      in if takes \<and> loss \<le> left then (s1, True, None)
         else let s2 = emit CallRateAdd s1
              in (s2, False, if rate_add E (outputs s2) \<le> 0 then Some (ErrRateLimit (rID r)) else None))"

definition route_message :: "route_target \<Rightarrow> bytes \<Rightarrow> bool \<Rightarrow> bytes \<Rightarrow> u32 \<Rightarrow> net_msg" where
  "route_message target payload cached instructions seqno =
     (if cached
      then MsgCached \<lparr>cSectionPubKey = tgtSectionKey target, cSeqno = seqno, cPayload = payload\<rparr>
      else MsgEncrypted \<lparr>msgSectionPubKey = tgtSectionKey target, msgInstructions = instructions,
             msgPayload = payload\<rparr>)"

text \<open>The route is given by its id in the section: a cached action holds a route of its own section.\<close>

definition Route_Route ::
  "env \<Rightarrow> ptr \<Rightarrow> u32 \<Rightarrow> bytes \<Rightarrow> bool \<Rightarrow> bytes \<Rightarrow> u32 \<Rightarrow> 'a gateway_scheme \<Rightarrow> 'a gateway_scheme \<times> go_error option" where
  "Route_Route E sp rid payload cached instructions seqno s =
     (case map_of (routes (sec s sp)) rid of
        None \<Rightarrow> (s, Some PanicNil)
      | Some r \<Rightarrow>
          (let target = rTarget r
           in case (if 0 < tgtPrice target then charge_route E sp rid r s else (s, False, None)) of
                (s1, paid, Some e) \<Rightarrow> (s1, Some e)
              | (s1, paid, None) \<Rightarrow>
                  (case SendCustomMessage E (tgtPeer target)
                          (route_message target payload cached instructions seqno) s1 of
                     (s2, Some e) \<Rightarrow>
                       (if paid
                        then upd_sec sp (upd_route rid (\<lambda>q. q\<lparr>PrepaidPackets := i64 (PrepaidPackets q + 1)\<rparr>)) s2
                        else s2, Some e)
                   | (s2, None) \<Rightarrow>
                       (upd_sec sp (upd_route rid (\<lambda>q. q\<lparr>PacketsRouted := PacketsRouted q + 1\<rparr>))
                          (s2\<lparr>statsRouted := statsRouted s2 + 1\<rparr>), None))))"

definition RouteCachedAction_Execute ::
  "env \<Rightarrow> ptr \<Rightarrow> u32 \<Rightarrow> u32 \<Rightarrow> bytes \<Rightarrow> 'a gateway_scheme \<Rightarrow> 'a gateway_scheme \<times> go_error option" where
  "RouteCachedAction_Execute E sp rid seqno payload s =
     (if \<not> allowRouting s then (s, Some ErrRoutingNotAllowed)
      else Route_Route E sp rid payload True [] seqno s)"

definition RouteInstruction_Execute ::
  "env \<Rightarrow> ptr \<Rightarrow> u32 \<Rightarrow> bytes \<Rightarrow> bytes \<Rightarrow> 'a gateway_scheme \<Rightarrow> 'a gateway_scheme \<times> go_error option" where
  "RouteInstruction_Execute E sp rid restInstructions payload s =
     (if \<not> allowRouting s then (s, Some ErrRoutingNotAllowed)
      else if map_of (routes (sec s sp)) rid = None then (s, Some (ErrNoRoute rid))
      else Route_Route E sp rid payload False restInstructions 0 s)"

section \<open>The instruction cache\<close>

fun resolve_action :: "ptr \<Rightarrow> 'a gateway_scheme \<Rightarrow> instruction \<Rightarrow> go_error + cached_action" where
  "resolve_action sp s (DeliverInitiatorInstruction from meta) =
     (case map_of (tunnels s) from of None \<Rightarrow> Inl (ErrNoTunnel from)
      | Some t \<Rightarrow> Inr (DeliverInitiatorCachedAction meta t))"
| "resolve_action sp s SendOutInstruction = Inr SendOutCachedAction"
| "resolve_action sp s (RouteInstruction rid) =
     (if map_of (routes (sec s sp)) rid = None then Inl (ErrNoRoute rid) else Inr (RouteCachedAction rid))"
| "resolve_action sp s _ = Inl ErrUnsupportedInList"

fun resolve_actions :: "ptr \<Rightarrow> 'a gateway_scheme \<Rightarrow> instruction list \<Rightarrow> go_error + cached_action list" where
  "resolve_actions sp s [] = Inr []"
| "resolve_actions sp s (ins # rest) =
     (case resolve_action sp s ins of Inl e \<Rightarrow> Inl e
      | Inr a \<Rightarrow> (case resolve_actions sp s rest of Inl e \<Rightarrow> Inl e | Inr list \<Rightarrow> Inr (a # list)))"

definition Cache_Execute ::
  "ptr \<Rightarrow> u64 \<Rightarrow> instruction list \<Rightarrow> 'a gateway_scheme \<Rightarrow> 'a gateway_scheme \<times> go_error option" where
  "Cache_Execute sp version instructions s =
     (if version \<le> cachedActionsVer (sec s sp) then (s, None)
      else case resolve_actions sp s instructions of
             Inl e \<Rightarrow> (s, Some e)
           | Inr list \<Rightarrow>
               (upd_sec sp (\<lambda>sc. sc\<lparr>cachedActions := list, cachedActionsVer := version,
                                    seqnoCached := empty_window\<rparr>) s, None))"

section \<open>The invariant\<close>

lemma maxLoss_const [simp]: "maxLoss n = - 20000"
  by (simp add: maxLoss_def LossAcceptablePercent_def LossAcceptableStartup_def i64_def)

lemma points_to_table:
  assumes "table_wf s" "map_of (activePeers s) adnl = Some p"
  shows "points_to (peer_ids s) p adnl"
  using assms by (auto simp: table_wf_def points_to_def peer_ids_def peer_valid_def)

lemma gw_inv_table [simp]: "gw_inv s \<Longrightarrow> table_wf s"
  by (simp add: gw_inv_def)

lemma addPeer_points_to:
  "table_wf s \<Longrightarrow> addPeer E adnl conn s = (p, s1) \<Longrightarrow> points_to (peer_ids s1) p adnl"
  using addPeer_in_table(1) [of s E adnl conn] table_wf_addPeer [of s E adnl conn]
  by (auto intro: points_to_table)

lemma peer_ids_refs [simp]:
  "peer_ids (AddReference p s) = peer_ids s" "peer_ids (Dereference p s) = peer_ids s"
  by (rule nth_equalityI; simp add: peer_ids_def peer_simps)+

lemma peer_ids_gauge [simp]: "peer_ids (gauge_routes b d s) = peer_ids s" "peer_ids (upd_sec sp f s) = peer_ids s"
  by (simp_all add: peer_ids_def)

lemma gw_inv_set_target:
  assumes "gw_inv s" "points_to (peer_ids s) (tgtPeer target) (tgtADNL target)"
  shows "gw_inv (upd_sec sp (upd_route rid (\<lambda>r. r\<lparr>rTarget := target\<rparr>)) s)"
  using assms by (auto intro!: gw_inv_upd_sec section_ok_upd_route simp: route_ok_def)

lemma gw_inv_retarget:
  assumes "gw_inv s" "points_to (peer_ids s) (tgtPeer target) (tgtADNL target)"
  shows "gw_inv (retarget sp rid r target s)"
  using assms
  by (auto simp: retarget_def Let_def move_gauge_def intro!: gw_inv_set_target gw_inv_nets)

lemma gw_inv_BuildRoute:
  assumes "gw_inv s"
  shows "gw_inv (fst (BuildRoute_Execute E sp adnl key rid price s))"
proof -
  obtain p s1 where a: "addPeer E adnl None s = (p, s1)" by fastforce
  have i: "gw_inv s1" using gw_inv_net [OF assms net_keeps_addPeer [of s E adnl None]] a by simp
  have t: "points_to (peer_ids s1) p adnl" by (rule addPeer_points_to [OF _ a]) (simp add: assms)
  have n: "gw_inv (upd_sec sp (\<lambda>sc. sc\<lparr>routes := mput rid (new_route rid target) (routes sc)\<rparr>)
       (AddReference p s1))"
    if "map_of (routes (sec s1 sp)) rid = None" "length (routes (sec s1 sp)) < 3"
       "tgtPeer target = p" "tgtADNL target = adnl" for target
    using i t that
    by (intro gw_inv_upd_sec section_ok_put_route) (auto simp: route_ok_def new_route_def MaxInt64_def intro: gw_inv_nets)
  show ?thesis
    using assms i t n gw_inv_retarget [OF i]
    by (auto simp: BuildRoute_Execute_def a Let_def MaxActiveRoutesPerSection_def not_le split: option.splits)
qed

lemma i64_credit:
  "- 20000 \<le> x \<Longrightarrow> x \<le> MaxInt64 \<Longrightarrow> i64 (x - 1) = x - 1"
  "- 20000 \<le> x \<Longrightarrow> x < MaxInt64 \<Longrightarrow> i64 (x + 1) = x + 1"
  by (auto intro!: i64_id simp: is_i64_def MaxInt64_def)

text \<open>What the sections look like after a route was charged, used or refunded.\<close>

lemma upd_route_Some:
  "map_of (routes sc) rid = Some r \<Longrightarrow> upd_route rid f sc = sc\<lparr>routes := mput rid (f r) (routes sc)\<rparr>"
  by (simp add: upd_route_def)

lemma map_of_upd_route:
  "map_of (routes (upd_route rid f sc)) k
     = (if k = rid then map_option f (map_of (routes sc) k) else map_of (routes sc) k)"
  by (auto simp: upd_route_def split: option.splits)

lemma map_of_upd_sec_route:
  "sec_valid s sp \<Longrightarrow> map_of (routes (sec (upd_sec sp (upd_route rid f) s) sp)) k
     = (if k = rid then map_option f (map_of (routes (sec s sp)) k) else map_of (routes (sec s sp)) k)"
  by (simp add: sec_valid_def map_of_upd_route)

lemma charge_route_cases:
  assumes "route_ok ids rid r"
  shows "charge_route E sp rid r s =
     (if PaymentReceived r \<and> - 20000 < PrepaidPackets r
      then (upd_sec sp (upd_route rid (\<lambda>q. q\<lparr>PrepaidPackets := PrepaidPackets r - 1\<rparr>)) s, True, None)
      else (emit CallRateAdd s, False,
            if rate_add E (outputs s @ [CallRateAdd]) \<le> 0 then Some (ErrRateLimit rid) else None))"
proof (cases "PaymentReceived r \<and> - 20000 < PrepaidPackets r")
  case True
  then have "i64 (PrepaidPackets r - 1) = PrepaidPackets r - 1"
    using assms by (intro i64_credit(1)) (simp_all add: route_ok_def)
  with True show ?thesis by (simp add: charge_route_def)
next
  case False
  from assms have "rID r = rid" by (simp add: route_ok_def)
  moreover have "outputs (emit CallRateAdd s) = outputs s @ [CallRateAdd]"
    by (simp add: peer_simps)
  ultimately show ?thesis using False by (auto simp: charge_route_def Let_def)
qed

section \<open>The net effect of forwarding\<close>

lemma Send_upd_sec:
  "SendCustomMessage E p m (upd_sec sp f s) =
     (case SendCustomMessage E p m s of (t, e) \<Rightarrow> (upd_sec sp f t, e))"
  by (simp add: SendCustomMessage_def getConn_def upd_peer_def emit_def upd_sec_def Let_def split: option.split)

lemma mput_same: "map_of m k = Some v \<Longrightarrow> mput k v m = m"
  by (induction m) auto

lemma upd_sec_upd_sec: "upd_sec sp f (upd_sec sp g s) = upd_sec sp (f \<circ> g) s"
  by (simp add: upd_sec_def hupd_hupd)

lemma upd_sec_id: "f (sec s sp) = sec s sp \<Longrightarrow> upd_sec sp f s = s"
  by (simp add: upd_sec_def hupd_def)

lemma refund:
  assumes "sections t = sections s" "map_of (routes (sec s sp)) rid = Some r" "i64 (PrepaidPackets r) = PrepaidPackets r"
  shows "upd_sec sp (upd_route rid (\<lambda>q. q\<lparr>PrepaidPackets := i64 (PrepaidPackets q + 1)\<rparr>))
     (upd_sec sp (upd_route rid (\<lambda>q. q\<lparr>PrepaidPackets := PrepaidPackets r - 1\<rparr>)) t) = t"
  unfolding upd_sec_upd_sec using assms by (intro upd_sec_id) (simp add: upd_route_def mput_same)

text \<open>
  Forwarding in one equation: a priced route takes a packet of the prepaid balance when it
  may, else asks the free budget; a refused budget sends nothing; a failed send leaves balance
  and counters as they were.
\<close>

definition pays :: "route \<Rightarrow> bool" where
  "pays r \<longleftrightarrow> 0 < tgtPrice (rTarget r) \<and> PaymentReceived r \<and> - 20000 < PrepaidPackets r"

definition asks_free :: "route \<Rightarrow> bool" where
  "asks_free r \<longleftrightarrow> 0 < tgtPrice (rTarget r) \<and> \<not> pays r"

lemma upd_route_counted:
  "upd_sec sp (upd_route rid (\<lambda>q. q\<lparr>PacketsRouted := PacketsRouted q + 1\<rparr>)) (upd_sec sp (upd_route rid (\<lambda>q. q\<lparr>PrepaidPackets := x\<rparr>)) s)
   = upd_sec sp (upd_route rid (\<lambda>q. q\<lparr>PrepaidPackets := x, PacketsRouted := PacketsRouted q + 1\<rparr>)) s"
  unfolding upd_sec_upd_sec
  by (rule arg_cong [where f = "\<lambda>g. upd_sec sp g s"]) (auto simp: fun_eq_iff upd_route_def split: option.splits)

lemma upd_route_same_balance:
  assumes "map_of (routes (sec s sp)) rid = Some r"
  shows "upd_sec sp (upd_route rid (\<lambda>q. q\<lparr>PrepaidPackets := PrepaidPackets r, PacketsRouted := PacketsRouted q + 1\<rparr>)) s
     = upd_sec sp (upd_route rid (\<lambda>q. q\<lparr>PacketsRouted := PacketsRouted q + 1\<rparr>)) s"
  using assms by (simp add: upd_sec_def hupd_def upd_route_def)

lemma statsRouted_upd_sec: "statsRouted_update h (upd_sec sp f s) = upd_sec sp f (statsRouted_update h s)"
  by (simp add: upd_sec_def)

lemma Route_Route_eq:
  assumes "gw_inv s" "sec_valid s sp" "map_of (routes (sec s sp)) rid = Some r"
  shows "Route_Route E sp rid payload cached ins seqno s =
    (if asks_free r \<and> rate_add E (outputs s @ [CallRateAdd]) \<le> 0
     then (emit CallRateAdd s, Some (ErrRateLimit rid))
     else case SendCustomMessage E (tgtPeer (rTarget r)) (route_message (rTarget r) payload cached ins seqno)
                 (if asks_free r then emit CallRateAdd s else s) of
       (t, Some e) \<Rightarrow> (t, Some e)
     | (t, None) \<Rightarrow>
         (upd_sec sp (upd_route rid (\<lambda>q. q\<lparr>PrepaidPackets := PrepaidPackets r - (if pays r then 1 else 0),
              PacketsRouted := PacketsRouted q + 1\<rparr>))
            (t\<lparr>statsRouted := statsRouted t + 1\<rparr>), None))"
proof -
  have ok: "route_ok (peer_ids s) rid r"
    by (rule section_ok_route [OF gw_inv_section [OF assms(1,2)] assms(3)])
  then have i: "i64 (PrepaidPackets r) = PrepaidPackets r"
    by (intro i64_id) (simp add: route_ok_def is_i64_def MaxInt64_def)
  define msg where "msg = route_message (rTarget r) payload cached ins seqno"
  have sec: "sections (fst (SendCustomMessage E (tgtPeer (rTarget r)) msg u)) = sections u"
    for u :: "'a gateway_scheme" by simp
  show ?thesis
  proof (cases "pays r")
    case True
    obtain t e where t: "SendCustomMessage E (tgtPeer (rTarget r)) msg s = (t, e)" by fastforce
    then have "sections t = sections s" using sec [of s] by simp
    then show ?thesis
      using True assms(3) charge_route_cases [OF ok, of E sp s] t refund [OF _ assms(3) i, of t]
      by (simp add: upd_route_counted statsRouted_upd_sec Route_Route_def msg_def [symmetric] Send_upd_sec pays_def asks_free_def split: option.split)
  next
    case False
    let ?u = "if asks_free r then emit CallRateAdd s else s"
    obtain t e where t: "SendCustomMessage E (tgtPeer (rTarget r)) msg ?u = (t, e)" by fastforce
    then have "sections t = sections s" using sec [of ?u] by (simp split: if_splits)
    then have sm: "upd_sec sp (upd_route rid (\<lambda>q. q\<lparr>PrepaidPackets := PrepaidPackets r, PacketsRouted := PacketsRouted q + 1\<rparr>))
        (t\<lparr>statsRouted := statsRouted t + 1\<rparr>)
      = upd_sec sp (upd_route rid (\<lambda>q. q\<lparr>PacketsRouted := PacketsRouted q + 1\<rparr>)) (t\<lparr>statsRouted := statsRouted t + 1\<rparr>)"
      using assms(3) by (intro upd_route_same_balance) simp
    show ?thesis
    proof (cases "asks_free r")
      case True
      then have "charge_route E sp rid r s = (emit CallRateAdd s, False,
          if rate_add E (outputs s @ [CallRateAdd]) \<le> 0 then Some (ErrRateLimit rid) else None)"
        using False charge_route_cases [OF ok, of E sp s] by (simp add: pays_def asks_free_def)
      moreover have "0 < tgtPrice (rTarget r)" using True by (simp add: asks_free_def)
      ultimately show ?thesis
        using True False assms(3) t sm by (simp add: Route_Route_def msg_def [symmetric] split: option.split)
    next
      case nofree: False
      then have "\<not> 0 < tgtPrice (rTarget r)" using False by (simp add: asks_free_def)
      then show ?thesis
        using nofree False assms(3) t sm by (simp add: Route_Route_def msg_def [symmetric] split: option.split)
    qed
  qed
qed

lemma gw_inv_Route:
  assumes "gw_inv s" "sec_valid s sp"
  shows "gw_inv (fst (Route_Route E sp rid payload cached ins seqno s))"
proof (cases "map_of (routes (sec s sp)) rid")
  case None
  then show ?thesis by (simp add: Route_Route_def assms)
next
  case (Some r)
  have ok: "route_ok (peer_ids s) rid r"
    by (rule section_ok_route [OF gw_inv_section [OF assms] Some])
  have use: "gw_inv (upd_sec sp (upd_route rid (\<lambda>q. q\<lparr>PrepaidPackets := PrepaidPackets r - (if pays r then 1 else 0),
       PacketsRouted := PacketsRouted q + 1\<rparr>)) (t\<lparr>statsRouted := n\<rparr>))"
    if "gw_inv t" "sections t = sections s" for n and t :: "'a gateway_scheme"
    using that ok Some
    by (intro gw_inv_upd_sec section_ok_upd_route) (auto simp: route_ok_def pays_def)
  let ?u = "if asks_free r then emit CallRateAdd s else s"
  let ?m = "route_message (rTarget r) payload cached ins seqno"
  obtain t e where t: "SendCustomMessage E (tgtPeer (rTarget r)) ?m ?u = (t, e)" by fastforce
  have u: "gw_inv ?u" using assms(1) by (simp add: gw_inv_nets)
  have "gw_inv t" "sections t = sections s"
    using gw_inv_nets(6) [OF u, of E "tgtPeer (rTarget r)" ?m]
      net_step_fields(11) [OF net_step_Send [of ?u E "tgtPeer (rTarget r)" ?m]] t by (simp_all split: if_splits)
  with use t assms(1) show ?thesis
    by (auto simp: Route_Route_eq [OF assms Some] gw_inv_nets split: option.split)
qed

lemma resolve_actions_all2:
  "resolve_actions sp s list = Inr as \<Longrightarrow> list_all2 (\<lambda>ins a. resolve_action sp s ins = Inr a) list as"
  by (induction list arbitrary: as) (auto split: sum.splits)

lemma resolve_actions_error:
  "resolve_actions sp s list = Inl e \<Longrightarrow> \<exists>ins \<in> set list. resolve_action sp s ins = Inl e"
  by (induction list) (auto split: sum.splits)

lemma resolve_action_route:
  "resolve_action sp s ins = Inr (RouteCachedAction rid) \<Longrightarrow> map_of (routes (sec s sp)) rid \<noteq> None"
  by (cases ins) (auto split: option.splits if_splits)

lemma gw_inv_Cache: "gw_inv s \<Longrightarrow> gw_inv (fst (Cache_Execute sp ver list s))"
proof -
  assume "gw_inv s"
  have "gw_inv (upd_sec sp (\<lambda>sc. sc\<lparr>cachedActions := as, cachedActionsVer := ver, seqnoCached := empty_window\<rparr>) s)"
    if "resolve_actions sp s list = Inr as" for as
  proof -
    from resolve_actions_all2 [OF that]
    have "map_of (routes (sec s sp)) rid \<noteq> None" if "RouteCachedAction rid \<in> set as" for rid
      using that resolve_action_route
      by (force simp: list_all2_conv_all_nth in_set_conv_nth)
    with \<open>gw_inv s\<close> show ?thesis
      by (intro gw_inv_upd_sec) (auto simp: section_ok_def)
  qed
  with \<open>gw_inv s\<close> show ?thesis
    by (auto simp: Cache_Execute_def split: sum.splits)
qed

text \<open>A gateway with one connected peer and one section that has a priced route and an out.\<close>

definition demo_route :: route where
  "demo_route = \<lparr>rID = 7, rTarget = \<lparr>tgtPeer = 0, tgtADNL = [1], tgtSectionKey = [42], tgtPrice = 4\<rparr>,
     PacketsRouted = 0, PaymentReceived = True, PrepaidPackets = 5\<rparr>"

definition demo_out :: out where
  "demo_out = \<lparr>inboundPeer = 0, outPort = 4000, outClosed = False, InboundADNL = [1],
     PayloadCipherKey = [3], PayloadCipherKeyCRC = 77, InboundSectionKey = [43], outInstructions = [],
     PacketsSentOut = 0, PacketsSentIn = 0, PrepaidPacketsIn = 0, PrepaidPacketsOut = 2, outPrice = 4,
     backSeqno = 0\<rparr>"

definition demo_section :: tun_section where
  "demo_section = \<lparr>lastPacketAt = 1000, secKey = [5], cipherKey = [6], cipherKeyCrc = 77,
     routes = [(7, demo_route)], sec_out = Some demo_out, cachedActions = [RouteCachedAction 7],
     cachedActionsVer = 1, sec_payments = [], sec_seqno = empty_window, seqnoCached = empty_window\<rparr>"

definition demo_gw :: gateway where
  "demo_gw = (NewGateway [9] True 0 0)\<lparr>
     peers := [(new_peer demo_env [1])\<lparr>peer_conn := Some \<lparr>conn_addr = ''a'', conn_handle = 3\<rparr>, references := 2\<rparr>],
     activePeers := [([1], 0)], sections := [demo_section], inboundSections := [([5], 0)],
     ActiveInboundSections := 1, ActiveRoutes := (\<lambda>b. if b then 1 else 0),
     ActiveOutGateways := (\<lambda>b. if b then 1 else 0)\<rparr>"

lemmas demo_defs = demo_gw_def demo_section_def demo_out_def demo_route_def NewGateway_def new_peer_def demo_env_def

lemma demo_gw_fields [simp]:
  "sections demo_gw = [demo_section]" "inboundSections demo_gw = [([5], 0)]" "activePeers demo_gw = [([1], 0)]"
  "outputs demo_gw = []" "channels demo_gw = []" "allowRouting demo_gw" "allowOut demo_gw"
  "MinPricePerPacketRoute demo_gw = 0" "tunnels demo_gw = []" "payService demo_gw"
  "peer_ids demo_gw = [[1]]" "length (peers demo_gw) = 1" "statsRouted demo_gw = 0" "refs demo_gw 0 = 2"
  "MinPricePerPacketInOut demo_gw = 0" "gwKey demo_gw = [9]" "pending demo_gw = []"
  "getConn 0 demo_gw = Some 3" "peer_id (peers demo_gw ! 0) = [1]"
  by (simp_all add: demo_gw_def NewGateway_def peer_ids_def new_peer_def refs_def getConn_def)

lemma demo_section_ok: "section_ok [[1]] 0 demo_section"
  by (simp add: section_ok_def demo_section_def map_wf_def route_ok_def out_ok_def points_to_def demo_route_def
      demo_out_def MaxInt64_def)

lemma demo_gw_inv [simp]: "gw_inv demo_gw"
  using demo_section_ok
  by (auto simp: gw_inv_def table_wf_def map_wf_def sec_valid_def peer_valid_def demo_section_def)

lemma demo_sec_valid [simp]: "sec_valid demo_gw 0"
  by (simp add: sec_valid_def)

section \<open>Properties\<close>



text \<open>
  A packet that is not routed is not charged: whatever the reason (free budget exhausted,
  peer not connected, send failed), every section, balance and counter is as before; without
  budget nothing reaches the peer.
\<close>

lemma Route_failure:
  assumes "gw_inv s" "sec_valid s sp" "map_of (routes (sec s sp)) rid = Some r"
    and "Route_Route E sp rid payload cached ins seqno s = (s', Some e)"
  shows "sections s' = sections s \<and> statsRouted s' = statsRouted s \<and>
    e \<in> {ErrRateLimit rid, ErrNotConnected, ErrSendFailed} \<and>
    (e = ErrRateLimit rid \<longrightarrow> asks_free r \<and> outputs s' = outputs s @ [CallRateAdd])"
  using assms(4) Route_Route_eq [OF assms(1-3), of E payload cached ins seqno]
  by (auto simp: SendCustomMessage_def Let_def peer_simps split: if_splits option.splits)

lemma Route_failure_witness:
  "\<exists>s'. Route_Route (demo_env\<lparr>send_ok := (\<lambda>_. False)\<rparr>) 0 7 [8] False [] 0 demo_gw = (s', Some ErrSendFailed) \<and>
     sections s' = [demo_section]"
proof -
  let ?E = "demo_env\<lparr>send_ok := (\<lambda>_. False)\<rparr>"
  have r: "map_of (routes (sec demo_gw 0)) 7 = Some demo_route" by (simp add: demo_section_def)
  obtain s' where s': "Route_Route ?E 0 7 [8] False [] 0 demo_gw = (s', Some ErrSendFailed)"
    by (simp add: Route_Route_eq [OF demo_gw_inv demo_sec_valid r] asks_free_def pays_def demo_route_def
        SendCustomMessage_def Let_def)
  from Route_failure [OF demo_gw_inv demo_sec_valid r s'] s' show ?thesis by simp
qed

text \<open>A stream of packets over one route: the final state and the number of packets routed.\<close>

type_synonym routed_packet = "env \<times> bytes \<times> bool \<times> bytes \<times> u32"

fun route_stream :: "ptr \<Rightarrow> u32 \<Rightarrow> routed_packet list \<Rightarrow> 'a gateway_scheme \<Rightarrow> 'a gateway_scheme \<times> nat" where
  "route_stream sp rid [] s = (s, 0)"
| "route_stream sp rid ((E, payload, cached, ins, seqno) # rest) s =
     (case Route_Route E sp rid payload cached ins seqno s of
        (s', e) \<Rightarrow> (case route_stream sp rid rest s' of (s'', n) \<Rightarrow> (s'', if e = None then Suc n else n)))"

abbreviation free_requests :: "'a gateway_scheme \<Rightarrow> int" where
  "free_requests s \<equiv> int (count_list (outputs s) CallRateAdd)"

lemma Route_one:
  assumes "gw_inv s" "sec_valid s sp" "map_of (routes (sec s sp)) rid = Some r"
    and "0 < tgtPrice (rTarget r)"
    and R: "Route_Route E sp rid payload cached ins seqno s = (s', e)"
  shows "\<exists>r'. map_of (routes (sec s' sp)) rid = Some r' \<and> rTarget r' = rTarget r \<and> sec_valid s' sp \<and> gw_inv s' \<and>
     (if e = None then 1 else 0) \<le> PrepaidPackets r - PrepaidPackets r' + (free_requests s' - free_requests s)"
proof -
  have i: "gw_inv s'" using gw_inv_Route [OF assms(1,2), of E rid payload cached ins seqno] R by simp
  from R show ?thesis
    using Route_Route_eq [OF assms(1-3), of E payload cached ins seqno] assms(2-4) i
    by (auto simp: SendCustomMessage_def Let_def peer_simps map_of_upd_route sec_valid_def asks_free_def
        split: if_splits option.splits)
qed

lemma route_stream_bound:
  assumes "gw_inv s" "sec_valid s sp" "map_of (routes (sec s sp)) rid = Some r"
    and "0 < tgtPrice (rTarget r)" "route_stream sp rid ps s = (s', n)"
  shows "\<exists>r'. map_of (routes (sec s' sp)) rid = Some r' \<and> sec_valid s' sp \<and> gw_inv s' \<and>
     int n \<le> PrepaidPackets r - PrepaidPackets r' + (free_requests s' - free_requests s)"
  using assms
proof (induction ps arbitrary: s r n)
  case Nil
  then show ?case by simp
next
  case (Cons p ps)
  obtain E payload cached ins seqno where p: "p = (E, payload, cached, ins, seqno)" by (cases p)
  obtain t e where t: "Route_Route E sp rid payload cached ins seqno s = (t, e)" by fastforce
  obtain m where m: "route_stream sp rid ps t = (s', m)" "n = (if e = None then Suc m else m)"
    using Cons.prems(5) p t by (auto split: prod.splits)
  from Route_one [OF Cons.prems(1-4) t] obtain q where q: "map_of (routes (sec t sp)) rid = Some q"
    "rTarget q = rTarget r" "sec_valid t sp" "gw_inv t"
    "(if e = None then 1 else 0) \<le> PrepaidPackets r - PrepaidPackets q + (free_requests t - free_requests s)"
    by blast
  then show ?case
    using Cons.IH [OF q(4,3,1) _ m(1)] Cons.prems(4) m(2) by (auto split: if_splits)
qed



lemma sections_move_gauge [simp]: "sections (move_gauge a b s) = sections s"
  by (simp add: move_gauge_def)

definition same_target :: "route_target \<Rightarrow> route_target \<Rightarrow> bool" where
  "same_target t u \<longleftrightarrow> tgtADNL t = tgtADNL u \<and> tgtSectionKey t = tgtSectionKey u \<and> tgtPrice t = tgtPrice u"

lemma retarget_route:
  assumes "sec_valid s sp" "map_of (routes (sec s sp)) rid = Some r"
  shows "map_of (routes (sec (retarget sp rid r target s) sp)) = (map_of (routes (sec s sp)))(rid \<mapsto>
     (if same_target (rTarget r) target then r else r\<lparr>rTarget := target\<rparr>))"
proof (cases "same_target (rTarget r) target")
  case True
  then show ?thesis using assms(2) by (auto simp: retarget_def Let_def same_target_def)
next
  case False
  then show ?thesis using assms
    by (auto simp: retarget_def Let_def same_target_def sec_valid_def fun_eq_iff map_of_upd_route)
qed

lemma sections_addPeer: "addPeer E adnl c s = (p, s1) \<Longrightarrow> sections s1 = sections s"
  using net_step_fields(11) [OF net_step_addPeer [of s E adnl c]] by simp

lemma BuildRoute_routes:
  assumes "sec_valid s sp" "BuildRoute_Execute E sp adnl key rid price s = (s', None)"
  shows "\<exists>r. map_of (routes (sec s' sp)) = (map_of (routes (sec s sp)))(rid \<mapsto> r) \<and>
    tgtADNL (rTarget r) = adnl \<and> tgtSectionKey (rTarget r) = key \<and> tgtPrice (rTarget r) = price \<and>
    (\<forall>r0. map_of (routes (sec s sp)) rid = Some r0 \<longrightarrow> PrepaidPackets r = PrepaidPackets r0 \<and>
        PacketsRouted r = PacketsRouted r0 \<and> PaymentReceived r = PaymentReceived r0)"
proof -
  obtain p s1 where a: "addPeer E adnl None s = (p, s1)" by fastforce
  define target where "target = \<lparr>tgtPeer = p, tgtADNL = adnl, tgtSectionKey = key, tgtPrice = price\<rparr>"
  note sc = sections_addPeer [OF a]
  then have v: "sec_valid s1 sp" using assms(1) by (simp add: sec_valid_def)
  show ?thesis
  proof (cases "map_of (routes (sec s sp)) rid")
    case None
    with assms have "map_of (routes (sec s' sp)) = (map_of (routes (sec s sp)))(rid \<mapsto> new_route rid target)"
      by (auto simp: BuildRoute_Execute_def a Let_def sc target_def sec_valid_def split: if_splits)
    then show ?thesis using None
      by (intro exI [of _ "new_route rid target"]) (simp add: new_route_def target_def)
  next
    case (Some r0)
    with assms have "s' = retarget sp rid r0 target s1"
      by (auto simp: BuildRoute_Execute_def a Let_def sc target_def split: if_splits)
    then have "map_of (routes (sec s' sp)) = (map_of (routes (sec s sp)))(rid \<mapsto>
        (if same_target (rTarget r0) target then r0 else r0\<lparr>rTarget := target\<rparr>))"
      using retarget_route [OF v, of rid r0 target] Some by (simp add: sc)
    then show ?thesis using Some
      by (intro exI [of _ "if same_target (rTarget r0) target then r0 else r0\<lparr>rTarget := target\<rparr>"])
        (auto simp: same_target_def target_def)
  qed
qed

text \<open>
  C33. Building a route: when the instruction succeeds, the section has the route with exactly
  the requested target and price (no cheaper than the node's minimum), a reconfigured route
  keeps its balance and counters, no other route is touched and there are at most three; when
  it fails, no section changes and no reference is taken.
\<close>

theorem BuildRoute_configures:
  assumes "gw_inv s" "sec_valid s sp" "BuildRoute_Execute E sp adnl key rid price s = (s', e)"
  shows "case e of
      Some _ \<Rightarrow> sections s' = sections s \<and> (\<forall>p. peer_valid s p \<longrightarrow> refs s' p = refs s p)
    | None \<Rightarrow> MinPricePerPacketRoute s \<le> price \<and> length (routes (sec s' sp)) \<le> 3 \<and>
        (\<exists>r. map_of (routes (sec s' sp)) = (map_of (routes (sec s sp)))(rid \<mapsto> r) \<and>
          tgtADNL (rTarget r) = adnl \<and> tgtSectionKey (rTarget r) = key \<and> tgtPrice (rTarget r) = price \<and>
          (\<forall>r0. map_of (routes (sec s sp)) rid = Some r0 \<longrightarrow> PrepaidPackets r = PrepaidPackets r0 \<and>
             PacketsRouted r = PacketsRouted r0 \<and> PaymentReceived r = PaymentReceived r0))"
proof (cases e)
  case None
  have i: "gw_inv s'" using gw_inv_BuildRoute [OF assms(1), of E sp adnl key rid price] assms(3) by simp
  obtain p s1 where a: "addPeer E adnl None s = (p, s1)" by fastforce
  have "length (sections s') = length (sections s)" and m: "MinPricePerPacketRoute s \<le> price"
    using assms(3) None sections_addPeer [OF a]
    by (auto simp: BuildRoute_Execute_def a Let_def retarget_def not_less split: if_splits option.splits)
  then have "section_ok (peer_ids s') (length (channels s')) (sec s' sp)"
    using assms(2) i by (intro gw_inv_section) (simp_all add: sec_valid_def)
  then have "length (routes (sec s' sp)) \<le> 3" by (simp add: section_ok_def)
  with m show ?thesis
    using BuildRoute_routes [OF assms(2) assms(3) [unfolded None]] by (simp add: None)
next
  case (Some err)
  obtain p s1 where a: "addPeer E adnl None s = (p, s1)" by fastforce
  have "refs s1 p = refs s p" if "peer_valid s p" for p
    using refs_addPeer [OF that, of E adnl None] a by simp
  then show ?thesis
    using assms(3) Some sections_addPeer [OF a]
    by (auto simp: BuildRoute_Execute_def a Let_def split: if_splits option.splits)
qed

theorem BuildRoute_configures_witness:
  "\<exists>s'. BuildRoute_Execute demo_env 0 [1] [50] 7 9 demo_gw = (s', None) \<and> length (routes (sec s' 0)) \<le> 3 \<and>
     map_option (tgtPrice \<circ> rTarget) (map_of (routes (sec s' 0)) 7) = Some 9 \<and>
     map_option PrepaidPackets (map_of (routes (sec s' 0)) 7) = Some 5"
proof -
  have "snd (BuildRoute_Execute demo_env 0 [1] [50] 7 9 demo_gw) = None"
    by (simp add: BuildRoute_Execute_def addPeer_def lookup_or_new_def demo_section_def)
  then obtain s' where s': "BuildRoute_Execute demo_env 0 [1] [50] 7 9 demo_gw = (s', None)"
    by (metis prod.collapse)
  have r: "map_of (routes (sec demo_gw 0)) 7 = Some demo_route" by (simp add: demo_section_def)
  from BuildRoute_configures [OF demo_gw_inv demo_sec_valid s'] s' r show ?thesis
    by (auto simp: demo_route_def)
qed

text \<open>
  The instruction cache changes all at once or not at all: only a strictly newer version
  whose instructions all resolve is installed, with one action per instruction in order and a
  fresh replay window; a stale version is ignored silently and an unresolvable instruction is
  reported, both without any effect.
\<close>

lemma Cache_atomic:
  assumes "sec_valid s sp" "Cache_Execute sp ver list s = (s', e)"
  shows "if e = None \<and> cachedActionsVer (sec s sp) < ver
    then list_all2 (\<lambda>ins a. resolve_action sp s ins = Inr a) list (cachedActions (sec s' sp)) \<and>
         cachedActionsVer (sec s' sp) = ver \<and> seqnoCached (sec s' sp) = empty_window \<and>
         sec_seqno (sec s' sp) = sec_seqno (sec s sp) \<and> routes (sec s' sp) = routes (sec s sp) \<and>
         (\<forall>q. q \<noteq> sp \<longrightarrow> sec s' q = sec s q)
    else s' = s \<and> (\<forall>err. e = Some err \<longrightarrow> (\<exists>ins \<in> set list. resolve_action sp s ins = Inl err))"
  using assms resolve_actions_all2 [of sp s list] resolve_actions_error [of sp s list]
  by (auto simp: Cache_Execute_def sec_valid_def not_le not_less split: sum.splits if_splits)

lemma Cache_atomic_witness:
  "\<exists>s'. Cache_Execute 0 2 [RouteInstruction 7, SendOutInstruction] demo_gw = (s', None) \<and>
     length (cachedActions (sec s' 0)) = 2 \<and> cachedActionsVer (sec s' 0) = 2"
proof -
  have "snd (Cache_Execute 0 2 [RouteInstruction 7, SendOutInstruction] demo_gw) = None"
    by (simp add: Cache_Execute_def demo_section_def)
  then obtain s' where s': "Cache_Execute 0 2 [RouteInstruction 7, SendOutInstruction] demo_gw = (s', None)"
    by (metis prod.collapse)
  have "cachedActionsVer (sec demo_gw 0) < 2" by (simp add: demo_section_def)
  with Cache_atomic [OF demo_sec_valid s'] s' show ?thesis
    by (auto dest!: list_all2_lengthD)
qed

end
