(* ===== verification/Payment_Instruction.thy ===== *)
theory Payment_Instruction
  imports Route_Instructions
begin

text \<open>
  Payment of traffic (\<open>PaymentInstruction.Execute\<close> and \<open>addPrepaid\<close> of
  \<open>tunnel/instructions.go\<close>): a signed state of a virtual channel is checked against the channel
  and the purpose, handed to the payment service, and turned into prepaid packets of a route or
  of the out gateway. The payment service, the cell parser and the signature check are
  functions of \<open>env\<close>; times are in seconds.
\<close>

section \<open>Definitions\<close>

definition PaymentPurposeRoute :: u64 where "PaymentPurposeRoute = 1"
definition PaymentPurposeOut :: u64 where "PaymentPurposeOut = 2"
definition MinChannelTimeoutSec :: int where "MinChannelTimeoutSec = 300"

text \<open>\<open>BitLen() >= 64\<close> of a \<open>big.Int\<close> says that its absolute value is at least \<open>2^63\<close>.\<close>

definition addPrepaid :: "int \<Rightarrow> int \<Rightarrow> int" where
  "addPrepaid at num = (if 2 ^ 63 \<le> \<bar>num + at\<bar> then MaxInt64 else i64 (at + i64 num))"

definition load_channel ::
  "env \<Rightarrow> ptr \<Rightarrow> bytes \<Rightarrow> u64 \<Rightarrow> 'a gateway_scheme \<Rightarrow> 'a gateway_scheme \<times> (go_error + (ptr \<times> bool))" where
  "load_channel E sp key purpose s =
     (case map_of (sec_payments (sec s sp)) key of
        Some v \<Rightarrow> (s, Inr (v, False))
      | None \<Rightarrow>
          let s1 = emit (CallChannelMeta key) s
          in case channel_meta E (outputs s1) key of
               None \<Rightarrow> (s1, Inl ErrChannelMeta)
             | Some vc \<Rightarrow>
                 if LastKnownResolve vc \<noteq> [] \<and> load_state E (LastKnownResolve vc) = None
                 then (s1, Inl ErrLatestState)
                 else case Incoming vc of
                   None \<Rightarrow> (s1, Inl ErrDirection)
                 | Some (capString, deadline) \<Rightarrow>
                     if HasOutgoing vc then (s1, Inl ErrHasOutgoing)
                     else case parse_ton E capString of
                       None \<Rightarrow> (s1, Inl ErrCapacityFormat)
                     | Some capacity \<Rightarrow>
                         let countable = MinChannelTimeoutSec \<le> deadline - now E;
                             ch = \<lparr>chKey = key, chActive = StatusActive vc \<and> countable,
                                   chDeadline = deadline, chCapacity = capacity,
                                   chLatestState = (if LastKnownResolve vc = [] then None
                                                    else load_state E (LastKnownResolve vc)),
                                   chPurpose = purpose\<rparr>;
                             v = length (channels s1)
                         in (upd_sec sp (\<lambda>sc. sc\<lparr>sec_payments := mput key v (sec_payments sc)\<rparr>)
                               (s1\<lparr>channels := channels s1 @ [ch]\<rparr>), Inr (v, countable)))"

datatype mutation = MutateOut | MutateRoute u32 int

definition payment_mutation ::
  "ptr \<Rightarrow> payment_channel \<Rightarrow> int \<Rightarrow> 'a gateway_scheme \<Rightarrow> go_error + mutation" where
  "payment_mutation sp ch amt s =
     (let kind = drop_bit 32 (chPurpose ch)
      in if kind = PaymentPurposeOut then
           (case sec_out (sec s sp) of
              None \<Rightarrow> Inl ErrOutMissing
            | Some ot \<Rightarrow>
                if chLatestState ch = None \<and> chCapacity ch < outPrice ot * 10000 then Inl ErrLowCapacity
                else Inr MutateOut)
         else if kind = PaymentPurposeRoute then
           (let rid = ucast (chPurpose ch)
            in case map_of (routes (sec s sp)) rid of
                 None \<Rightarrow> Inl (ErrNoRoute rid)
               | Some r \<Rightarrow>
                   let price = tgtPrice (rTarget r)
                   in if price = 0 then Inl (ErrPaymentNotRequired rid)
                      else if chLatestState ch = None \<and> chCapacity ch < uint price * 1000
                      then Inl ErrLowCapacity
                      else Inr (MutateRoute rid (amt div uint price)))
         else Inl (ErrUnknownPurpose kind))"

definition apply_mutation ::
  "ptr \<Rightarrow> int \<Rightarrow> mutation \<Rightarrow> 'a gateway_scheme \<Rightarrow> 'a gateway_scheme \<times> go_error option" where
  "apply_mutation sp amt m s =
     (case m of
        MutateOut \<Rightarrow>
          (case sec_out (sec s sp) of None \<Rightarrow> (s, Some PanicNil)
           | Some ot \<Rightarrow>
               if outPrice ot = 0 then (s, Some PanicDivZero)
               else let num = amt div outPrice ot
                    in (upd_sec sp (upd_out (\<lambda>q. q\<lparr>PrepaidPacketsOut := addPrepaid (PrepaidPacketsOut q) num,
                          PrepaidPacketsIn := addPrepaid (PrepaidPacketsIn q) num\<rparr>)) s, None))
      | MutateRoute rid num \<Rightarrow>
          (upd_sec sp (upd_route rid (\<lambda>r. r\<lparr>PaymentReceived := True,
             PrepaidPackets := addPrepaid (PrepaidPackets r) num\<rparr>)) s, None))"

definition last_amount :: "bool \<Rightarrow> payment_channel \<Rightarrow> int" where
  "last_amount justLoadedAndCountable ch =
     (case chLatestState ch of Some l \<Rightarrow> if justLoadedAndCountable then 0 else Amount l | None \<Rightarrow> 0)"

text \<open>From the loaded channel on, with its lock held.\<close>

definition process_payment ::
  "env \<Rightarrow> ptr \<Rightarrow> bytes \<Rightarrow> vc_state \<Rightarrow> u64 \<Rightarrow> bool \<Rightarrow> ptr \<Rightarrow> bool \<Rightarrow> 'a gateway_scheme
   \<Rightarrow> 'a gateway_scheme \<times> go_error option" where
  "process_payment E sp key st purpose final v justLoadedAndCountable s =
     (let ch = channels s ! v; amt = Amount st - last_amount justLoadedAndCountable ch
      in if chPurpose ch \<noteq> purpose then (s, Some ErrPurposeChange)
         else if amt \<le> 0 then (s, None)
         else if \<not> chActive ch \<and> \<not> justLoadedAndCountable then (s, Some ErrChannelInactive)
         else if chDeadline ch - now E < MinChannelTimeoutSec then (s, Some ErrDeadlineShort)
         else case payment_mutation sp ch amt s of
           Inl e \<Rightarrow> (s, Some e)
         | Inr m \<Rightarrow>
             let s1 = emit (CallAddResolve key st) s
             in if \<not> add_resolve_ok E (outputs s1) then (s1, Some ErrResolve)
                else case apply_mutation sp amt m s1 of
                  (s2, Some e) \<Rightarrow> (s2, Some e)
                | (s2, None) \<Rightarrow>
                    let s3 = upd_chan v (\<lambda>c. c\<lparr>chLatestState := Some st\<rparr>) s2
                    in (if final then spawn (TaskClosePayment v) s3 else s3, None))"

definition Payment_Execute ::
  "env \<Rightarrow> ptr \<Rightarrow> bytes \<Rightarrow> bytes \<Rightarrow> u64 \<Rightarrow> bool \<Rightarrow> 'a gateway_scheme \<Rightarrow> 'a gateway_scheme \<times> go_error option" where
  "Payment_Execute E sp key state purpose final s =
     (if \<not> allowRouting s then (s, Some ErrRoutingNotAllowed)
      else if \<not> payService s then (s, Some ErrPaymentsDisabled)
      else case load_state E state of
        None \<Rightarrow> (s, Some ErrStateCell)
      | Some st \<Rightarrow>
          if Amount st \<le> 0 then (s, Some ErrAmountNotPositive)
          else if \<not> verify_state E st key then (s, Some ErrInvalidState)
          else case load_channel E sp key purpose s of
            (s1, Inl e) \<Rightarrow> (s1, Some e)
          | (s1, Inr (v, fresh)) \<Rightarrow> process_payment E sp key st purpose final v fresh s1)"

section \<open>Saturating credit\<close>

lemma addPrepaid_eq:
  assumes "- (2 ^ 63) < at" "at < 2 ^ 63" "0 \<le> num"
  shows "addPrepaid at num = min MaxInt64 (at + num)"
proof (cases "2 ^ 63 \<le> \<bar>num + at\<bar>")
  case True
  then have "2 ^ 63 \<le> at + num" using assms by auto
  then show ?thesis using True by (simp add: addPrepaid_def MaxInt64_def)
next
  case False
  then have "i64 (at + num) = at + num" "at + num < 2 ^ 63"
    by (auto intro!: i64_id simp: is_i64_def)
  then show ?thesis using False by (simp add: addPrepaid_def MaxInt64_def)
qed

lemma addPrepaid_range:
  assumes "lo \<le> at" "at \<le> MaxInt64" "- (2 ^ 63) < lo" "0 \<le> num"
  shows "lo \<le> addPrepaid at num" "addPrepaid at num \<le> MaxInt64" "addPrepaid at num \<le> at + num"
proof -
  have "- (2 ^ 63) < at" "at < 2 ^ 63" using assms by (auto simp: MaxInt64_def)
  from addPrepaid_eq [OF this assms(4)] assms
  show "lo \<le> addPrepaid at num" "addPrepaid at num \<le> MaxInt64" "addPrepaid at num \<le> at + num"
    by (auto simp: MaxInt64_def)
qed

section \<open>The invariant\<close>

lemma gw_inv_add_channel: "gw_inv s \<Longrightarrow> gw_inv (s\<lparr>channels := channels s @ [ch]\<rparr>)"
  using section_ok_mono [where xs = "[]"]
  by (auto simp: gw_inv_def sec_valid_def table_wf_def peer_valid_def peer_ids_def)

lemma section_ok_put_payment:
  "section_ok ids nc sc \<Longrightarrow> v < nc \<Longrightarrow> section_ok ids nc (sc\<lparr>sec_payments := mput k v (sec_payments sc)\<rparr>)"
  by (auto simp: section_ok_def gm.wf_put)

lemma gw_inv_load_channel:
  assumes "gw_inv s"
  shows "gw_inv (fst (load_channel E sp key purpose s))"
proof -
  have e: "gw_inv (emit c s)" for c using assms by (rule gw_inv_nets)
  have "gw_inv (upd_sec sp (\<lambda>sc. sc\<lparr>sec_payments := mput key (length (channels t)) (sec_payments sc)\<rparr>)
       (t\<lparr>channels := channels t @ [ch]\<rparr>))" if "gw_inv t" for ch and t :: "'a gateway_scheme"
    using gw_inv_add_channel [OF that, of ch]
    by (intro gw_inv_upd_sec section_ok_put_payment) auto
  from this [OF e [of "CallChannelMeta key"]] e [of "CallChannelMeta key"] assms show ?thesis
    by (simp add: load_channel_def Let_def split: option.split)
qed

lemma gw_inv_apply_mutation:
  assumes "gw_inv s" "0 \<le> amt" "case m of MutateOut \<Rightarrow> True | MutateRoute rid num \<Rightarrow> 0 \<le> num"
  shows "gw_inv (fst (apply_mutation sp amt m s))"
proof (cases m)
  case MutateOut
  have credit: "gw_inv (upd_sec sp (upd_out (\<lambda>q. q\<lparr>PrepaidPacketsOut := addPrepaid (PrepaidPacketsOut q) num,
       PrepaidPacketsIn := addPrepaid (PrepaidPacketsIn q) num\<rparr>)) s)" if "0 \<le> num" for num
    using assms(1) that addPrepaid_range [of 0 _ num] addPrepaid_range [of "- 20000" _ num]
    by (intro gw_inv_upd_sec section_ok_upd_out) (auto simp: out_ok_def)
  show ?thesis
  proof (cases "sec_out (sec s sp)")
    case None
    then show ?thesis using assms(1) MutateOut by (simp add: apply_mutation_def)
  next
    case (Some ot)
    show ?thesis
    proof (cases "sec_valid s sp")
      case True
      with assms(1) Some have "0 \<le> outPrice ot"
        using gw_inv_section by (fastforce simp: section_ok_def out_ok_def)
      then have "0 \<le> amt div outPrice ot" using assms(2) by (simp add: div_int_pos_iff)
      then show ?thesis using assms(1) MutateOut Some credit by (simp add: apply_mutation_def Let_def)
    next
      case False
      then show ?thesis using assms(1) MutateOut Some
        by (simp add: apply_mutation_def upd_sec_def hupd_def sec_valid_def list_update_beyond Let_def)
    qed
  qed
next
  case (MutateRoute rid num)
  then show ?thesis
    using assms addPrepaid_range [of "- 20000" _ num]
    by (auto simp: apply_mutation_def route_ok_def intro!: gw_inv_upd_sec section_ok_upd_route)
qed

lemma payment_mutation_num:
  "payment_mutation sp ch amt s = Inr m \<Longrightarrow> 0 \<le> amt \<Longrightarrow>
     (case m of MutateOut \<Rightarrow> True | MutateRoute rid num \<Rightarrow> 0 \<le> num)"
  by (auto simp: payment_mutation_def Let_def div_int_pos_iff split: option.splits if_splits)

lemma gw_inv_process_payment:
  assumes "gw_inv s"
  shows "gw_inv (fst (process_payment E sp key st purpose final v fresh s))"
proof -
  have "gw_inv (emit c s)" for c using assms by (rule gw_inv_nets)
  then have "gw_inv (fst (apply_mutation sp amt m (emit c s)))"
    if "payment_mutation sp ch amt s = Inr m" "0 < amt" for ch amt m c
    using that payment_mutation_num [OF that(1)] by (intro gw_inv_apply_mutation) auto
  then have "gw_inv t" if "apply_mutation sp amt m (emit c s) = (t, e)"
      "payment_mutation sp ch amt s = Inr m" "0 < amt" for ch amt m c e t
    using that by (metis fst_conv)
  with assms show ?thesis
    by (auto simp: process_payment_def Let_def not_le split: sum.split prod.split option.split intro!: gw_inv_nets)
qed

lemma gw_inv_Payment: "gw_inv s \<Longrightarrow> gw_inv (fst (Payment_Execute E sp key state purpose final s))"
  using gw_inv_load_channel [of s E sp key purpose] gw_inv_process_payment
  by (auto simp: Payment_Execute_def split: option.splits prod.splits sum.splits)

section \<open>Money received and packets granted\<close>

definition paid :: "payment_channel \<Rightarrow> int" where
  "paid ch = (case chLatestState ch of None \<Rightarrow> 0 | Some l \<Rightarrow> Amount l)"

definition total_paid :: "'a gateway_scheme \<Rightarrow> int" where
  "total_paid s = sum_list (map paid (channels s))"

definition route_value :: "route \<Rightarrow> int" where
  "route_value r = uint (tgtPrice (rTarget r)) * PrepaidPackets r"

definition section_value :: "tun_section \<Rightarrow> int" where
  "section_value sc = sum_list (map (route_value \<circ> snd) (routes sc))
     + (case sec_out sc of None \<Rightarrow> 0 | Some ot \<Rightarrow> outPrice ot * PrepaidPacketsOut ot)"

lemma sum_list_mput:
  "map_of m k = Some v \<Longrightarrow> sum_list (map (f \<circ> snd) (mput k w m)) = sum_list (map (f \<circ> snd) m) - f v + (f w :: int)"
  by (induction m) auto

lemma sum_list_hupd:
  "v < length h \<Longrightarrow> sum_list (map f (hupd v g h)) = sum_list (map f h) - f (h ! v) + (f (g (h ! v)) :: int)"
proof (induction h arbitrary: v)
  case Nil
  then show ?case by simp
next
  case (Cons x h)
  then show ?case by (cases v) (auto simp: hupd_def)
qed

lemma section_value_upd_route:
  "map_of (routes sc) rid = Some r \<Longrightarrow>
     section_value (upd_route rid f sc) = section_value sc - route_value r + route_value (f r)"
  by (simp add: section_value_def upd_route_def sum_list_mput)

lemma section_value_upd_out:
  "sec_out sc = Some ot \<Longrightarrow> section_value (upd_out f sc)
     = section_value sc - outPrice ot * PrepaidPacketsOut ot + outPrice (f ot) * PrepaidPacketsOut (f ot)"
  by (simp add: section_value_def upd_out_def)

lemma price_div_le: "0 \<le> price \<Longrightarrow> price * (amt div price) \<le> (amt :: int)" if "0 \<le> amt"
  using that by (cases "price = 0") (simp_all add: minus_mod_eq_mult_div [symmetric])

lemma credit_le:
  assumes "0 \<le> price" "x \<le> y + amt div price" "0 \<le> amt"
  shows "price * x - price * y \<le> (amt :: int)"
proof -
  have "price * x \<le> price * (y + amt div price)" using assms by (intro mult_left_mono)
  with price_div_le [OF assms(3,1)] show ?thesis by (simp add: distrib_left)
qed

lemma mutation_value:
  assumes "gw_inv s" "sec_valid s sp" "0 < amt" "payment_mutation sp ch amt s = Inr m"
    and "sections t = sections s" "apply_mutation sp amt m t = (t', None)"
  shows "section_value (sec t' sp) - section_value (sec s sp) \<le> amt \<and> channels t' = channels t"
proof (cases m)
  case MutateOut
  with assms(6) obtain ot where ot: "sec_out (sec s sp) = Some ot" "outPrice ot \<noteq> 0"
    and t': "t' = upd_sec sp (upd_out (\<lambda>q. q\<lparr>PrepaidPacketsOut := addPrepaid (PrepaidPacketsOut q) (amt div outPrice ot),
             PrepaidPacketsIn := addPrepaid (PrepaidPacketsIn q) (amt div outPrice ot)\<rparr>)) t"
    by (auto simp: apply_mutation_def Let_def assms(5) split: option.splits if_splits)
  have ok: "out_ok (peer_ids s) ot" using gw_inv_section [OF assms(1,2)] ot by (simp add: section_ok_def)
  then have p: "0 \<le> outPrice ot" by (simp add: out_ok_def)
  then have "0 \<le> amt div outPrice ot" using assms(3) by (simp add: div_int_pos_iff)
  then have "addPrepaid (PrepaidPacketsOut ot) (amt div outPrice ot) \<le> PrepaidPacketsOut ot + amt div outPrice ot"
    using ok by (intro addPrepaid_range(3) [of 0]) (simp_all add: out_ok_def)
  from credit_le [OF p this] show ?thesis
    using assms(2,3,5) ot by (simp add: t' sec_valid_def section_value_upd_out)
next
  case (MutateRoute rid num)
  with assms(4) obtain r where r: "map_of (routes (sec s sp)) rid = Some r"
    and num: "num = amt div uint (tgtPrice (rTarget r))"
    by (auto simp: payment_mutation_def Let_def split: option.splits if_splits)
  have "0 \<le> num" using num assms(3) by (simp add: div_int_pos_iff)
  moreover have "route_ok (peer_ids s) rid r"
    by (rule section_ok_route [OF gw_inv_section [OF assms(1,2)] r])
  ultimately have "addPrepaid (PrepaidPackets r) num \<le> PrepaidPackets r + num"
    by (intro addPrepaid_range(3) [of "- 20000"]) (simp_all add: route_ok_def)
  from credit_le [OF uint_nonnegative this [unfolded num]] show ?thesis
    using assms(2,3,5,6) MutateRoute r
    by (auto simp: apply_mutation_def sec_valid_def section_value_upd_route route_value_def num)
qed

lemma apply_mutation_error: "apply_mutation sp amt m s = (s', Some e) \<Longrightarrow> s' = s"
  by (auto simp: apply_mutation_def Let_def split: mutation.splits option.splits if_splits)

text \<open>The two ways a payment ends: nothing granted, or accepted.\<close>

lemma process_payment_cases:
  assumes "process_payment E sp key st purpose final v fresh s = (s', e)"
  obtains
    (idle) "sections s' = sections s" "channels s' = channels s" "allowRouting s' = allowRouting s"
      "payService s' = payService s"
      "e = None \<Longrightarrow> s' = s \<and> chPurpose (channels s ! v) = purpose \<and> Amount st \<le> last_amount fresh (channels s ! v)"
  | (accepted) m t where "e = None" "chPurpose (channels s ! v) = purpose"
      "0 < Amount st - last_amount fresh (channels s ! v)"
      "payment_mutation sp (channels s ! v) (Amount st - last_amount fresh (channels s ! v)) s = Inr m"
      "apply_mutation sp (Amount st - last_amount fresh (channels s ! v)) m (emit (CallAddResolve key st) s) = (t, None)"
      "s' = (let u = upd_chan v (\<lambda>c. c\<lparr>chLatestState := Some st\<rparr>) t
             in if final then spawn (TaskClosePayment v) u else u)"
proof -
  let ?ch = "channels s ! v" let ?amt = "Amount st - last_amount fresh (channels s ! v)"
  let ?s1 = "emit (CallAddResolve key st) s"
  consider (early) "s' = s" "e \<noteq> None" | (done1) "s' = s" "e = None" "chPurpose ?ch = purpose" "?amt \<le> 0"
    | (refused) "s' = ?s1" "e \<noteq> None"
    | (ok) m where "chPurpose ?ch = purpose" "0 < ?amt" "payment_mutation sp ?ch ?amt s = Inr m"
        "(case apply_mutation sp ?amt m ?s1 of (s2, Some e) \<Rightarrow> (s2, Some e)
          | (s2, None) \<Rightarrow> let s3 = upd_chan v (\<lambda>c. c\<lparr>chLatestState := Some st\<rparr>) s2
                    in (if final then spawn (TaskClosePayment v) s3 else s3, None)) = (s', e)"
    using assms by (simp add: process_payment_def Let_def not_le split: if_splits sum.splits) blast+
  then show ?thesis
  proof cases
    case ok
    obtain t e' where t: "apply_mutation sp ?amt m ?s1 = (t, e')" by fastforce
    show ?thesis
    proof (cases e')
      case None
      then show ?thesis using ok t by (intro accepted [of m t]) (auto simp: Let_def)
    next
      case (Some x)
      then have "s' = ?s1" "e \<noteq> None" using ok(4) t apply_mutation_error by auto
      then show ?thesis by (intro idle) auto
    qed
  qed (auto intro!: idle)
qed

text \<open>One payment, from the loaded channel on: granted at most what the channel's state grew by.\<close>

lemma process_payment_value:
  assumes "gw_inv s" "sec_valid s sp" "v < length (channels s)"
    and "process_payment E sp key st purpose final v fresh s = (s', e)"
  shows "sections s' = sections s \<and> channels s' = channels s \<or>
    section_value (sec s' sp) - section_value (sec s sp)
      \<le> total_paid s' - total_paid s + paid (channels s ! v) - last_amount fresh (channels s ! v)"
  using assms(4)
proof (cases rule: process_payment_cases)
  case idle
  then show ?thesis by (simp add: total_paid_def)
next
  case (accepted m t)
  let ?amt = "Amount st - last_amount fresh (channels s ! v)"
  have ch: "channels s' = hupd v (\<lambda>c. c\<lparr>chLatestState := Some st\<rparr>) (channels s)" "sections s' = sections t"
    and v: "section_value (sec t sp) - section_value (sec s sp) \<le> ?amt"
    using accepted mutation_value [OF assms(1,2) accepted(3,4) _ accepted(5)] by (auto simp: Let_def)
  have "total_paid s' - total_paid s = Amount st - paid (channels s ! v)"
    using assms(3) by (simp add: total_paid_def ch sum_list_hupd) (simp add: paid_def)
  then show ?thesis using v ch(2) by simp
qed

lemma load_channel_cases:
  assumes "load_channel E sp key purpose s = (s1, res)" "sec_valid s sp"
  obtains
    (failed) err where "res = Inl err" "sections s1 = sections s" "channels s1 = channels s"
  | (known) v where "res = Inr (v, False)" "s1 = s" "map_of (sec_payments (sec s sp)) key = Some v"
  | (fresh) ch countable where "res = Inr (length (channels s), countable)" "channels s1 = channels s @ [ch]"
      "sections s1 = hupd sp (\<lambda>sc. sc\<lparr>sec_payments := mput key (length (channels s)) (sec_payments sc)\<rparr>) (sections s)"
      "chLatestState ch = None \<or> (\<exists>bs. chLatestState ch = load_state E bs)" "chPurpose ch = purpose"
      "allowRouting s1 = allowRouting s" "payService s1 = payService s"
proof (cases "map_of (sec_payments (sec s sp)) key")
  case (Some v)
  then show ?thesis using assms(1) by (intro known [of v]) (simp_all add: load_channel_def)
next
  case None
  let ?s1 = "emit (CallChannelMeta key) s"
  show ?thesis
  proof (cases "\<exists>err. res = Inl err")
    case True
    moreover have "s1 = ?s1" if "res = Inl err" for err
      using assms(1) None that by (auto simp: load_channel_def Let_def split: option.splits if_splits)
    ultimately show ?thesis by (auto intro: failed)
  next
    case False
    with assms(1) None obtain vc capString deadline capacity where
      m: "channel_meta E (outputs ?s1) key = Some vc" "Incoming vc = Some (capString, deadline)"
        "parse_ton E capString = Some capacity" "\<not> HasOutgoing vc"
        "\<not> (LastKnownResolve vc \<noteq> [] \<and> load_state E (LastKnownResolve vc) = None)"
      by (auto simp: load_channel_def Let_def split: option.splits if_splits)
    define ch where "ch = \<lparr>chKey = key, chActive = StatusActive vc \<and> MinChannelTimeoutSec \<le> deadline - now E,
      chDeadline = deadline, chCapacity = capacity,
      chLatestState = (if LastKnownResolve vc = [] then None else load_state E (LastKnownResolve vc)), chPurpose = purpose\<rparr>"
    have "s1 = upd_sec sp (\<lambda>sc. sc\<lparr>sec_payments := mput key (length (channels s)) (sec_payments sc)\<rparr>)
          (?s1\<lparr>channels := channels s @ [ch]\<rparr>)"
      "res = Inr (length (channels s), MinChannelTimeoutSec \<le> deadline - now E)"
      using assms(1) None m by (simp_all add: load_channel_def Let_def ch_def)
    then show ?thesis by (intro fresh [of _ ch]) (auto simp: ch_def)
  qed
qed

definition amounts_nonneg :: "env \<Rightarrow> bool" where
  "amounts_nonneg E \<longleftrightarrow> (\<forall>bs st. load_state E bs = Some st \<longrightarrow> 0 \<le> Amount st)"

lemma Payment_value:
  assumes "gw_inv s" "sec_valid s sp" "amounts_nonneg E"
    and "Payment_Execute E sp key state purpose final s = (s', e)"
  shows "section_value (sec s' sp) - section_value (sec s sp) \<le> total_paid s' - total_paid s"
proof (cases "s' = s")
  case False
  then obtain st s1 res where st: "load_state E state = Some st"
    and ld: "load_channel E sp key purpose s = (s1, res)"
    and s': "(case res of Inl e \<Rightarrow> (s1, Some e)
              | Inr (v, fresh) \<Rightarrow> process_payment E sp key st purpose final v fresh s1) = (s', e)"
    using assms(4) by (auto simp: Payment_Execute_def split: if_splits option.splits prod.splits)
  have i1: "gw_inv s1" using gw_inv_load_channel [OF assms(1), of E sp key purpose] ld by simp
  from ld assms(2) show ?thesis
  proof (cases rule: load_channel_cases)
    case (failed err)
    then show ?thesis using s' by (simp add: total_paid_def)
  next
    case (known v)
    then have "v < length (channels s)"
      using gw_inv_section [OF assms(1,2)] by (simp add: section_ok_def)
    with known s' process_payment_value [OF assms(1,2), of v E key st purpose final False s' e]
    show ?thesis by (auto simp: total_paid_def paid_def last_amount_def split: option.splits)
  next
    case (fresh ch countable)
    have v1: "sec_valid s1 sp" using assms(2) fresh(3) by (simp add: sec_valid_def)
    have "0 \<le> paid ch" using fresh(4) assms(3) by (auto simp: paid_def amounts_nonneg_def split: option.splits)
    moreover have "total_paid s1 = total_paid s + paid ch" by (simp add: total_paid_def fresh(2))
    moreover have "section_value (sec s1 sp) = section_value (sec s sp)"
      using assms(2) by (simp add: fresh(3) sec_valid_def section_value_def)
    moreover have "0 \<le> last_amount countable ch"
      using \<open>0 \<le> paid ch\<close> by (auto simp: last_amount_def paid_def split: option.splits)
    ultimately show ?thesis
      using process_payment_value [OF i1 v1, of "length (channels s)" E key st purpose final countable s' e] s' fresh(1,2)
      by (auto simp: total_paid_def)
  qed
qed simp

lemma sections_length_Payment:
  "length (sections (fst (Payment_Execute E sp key state purpose final s))) = length (sections s)"
proof -
  have a: "length (sections (fst (apply_mutation sp amt m t))) = length (sections t)" for amt m and t :: "'a gateway_scheme"
    by (simp add: apply_mutation_def Let_def split: mutation.split option.split)
  have p: "length (sections t') = length (sections t)"
    if "process_payment E sp key st purpose final v fresh t = (t', e)" for st v fresh e and t t' :: "'a gateway_scheme"
    using that
  proof (cases rule: process_payment_cases)
    case (accepted m u)
    then show ?thesis using a [of "Amount st - last_amount fresh (channels t ! v)" m "emit (CallAddResolve key st) t"]
      by (simp add: Let_def)
  qed simp
  have l: "length (sections (fst (load_channel E sp key purpose s))) = length (sections s)"
    by (simp add: load_channel_def Let_def split: option.split)
  have p': "length (sections (fst (process_payment E sp key st purpose final v fresh t))) = length (sections t)"
    for st v fresh and t :: "'a gateway_scheme"
    using p [of st v fresh t "fst (process_payment E sp key st purpose final v fresh t)"] by (metis prod.collapse)
  obtain s1 res where "load_channel E sp key purpose s = (s1, res)" by fastforce
  with l p' show ?thesis by (cases res) (simp_all add: Payment_Execute_def split: option.split prod.split)
qed

section \<open>Properties\<close>

type_synonym payment_args = "env \<times> bytes \<times> bytes \<times> u64 \<times> bool"

fun pay_all :: "ptr \<Rightarrow> payment_args list \<Rightarrow> 'a gateway_scheme \<Rightarrow> 'a gateway_scheme" where
  "pay_all sp [] s = s"
| "pay_all sp ((E, key, state, purpose, final) # ps) s = pay_all sp ps (fst (Payment_Execute E sp key state purpose final s))"

text \<open>
  C1. Money covers credit: over any sequence of payment instructions to a section (any channels,
  purposes, repetitions and failures), the prepaid packets granted to its routes and its out
  gateway, valued at their prices, grow by no more than the money by which the recorded states
  of the payment channels grow. State amounts are coin amounts, hence not negative.
\<close>

theorem payments_cover_credit:
  assumes "gw_inv s" "sec_valid s sp" "\<forall>p \<in> set ps. amounts_nonneg (fst p)"
  shows "section_value (sec (pay_all sp ps s) sp) - section_value (sec s sp)
    \<le> total_paid (pay_all sp ps s) - total_paid s"
  using assms
proof (induction ps arbitrary: s)
  case Nil
  then show ?case by simp
next
  case (Cons p ps)
  obtain E key state purpose final where p: "p = (E, key, state, purpose, final)" by (cases p)
  let ?t = "fst (Payment_Execute E sp key state purpose final s)"
  have v: "sec_valid ?t sp" using Cons.prems(2) by (simp add: sec_valid_def sections_length_Payment)
  from Cons.IH [OF gw_inv_Payment [OF Cons.prems(1)] v] Cons.prems(3)
  have "section_value (sec (pay_all sp ps ?t) sp) - section_value (sec ?t sp) \<le> total_paid (pay_all sp ps ?t) - total_paid ?t"
    by simp
  moreover have "section_value (sec ?t sp) - section_value (sec s sp) \<le> total_paid ?t - total_paid s"
    using Cons.prems(3) by (intro Payment_value [OF Cons.prems(1,2) _ prod.collapse [symmetric]]) (simp add: p)
  ultimately show ?case by (simp add: p)
qed

lemma demo_amounts: "amounts_nonneg demo_env"
  by (auto simp: amounts_nonneg_def demo_env_def split: list.splits)

abbreviation pay_route7 :: u64 where "pay_route7 \<equiv> 4294967303"

lemma purpose_route7: "drop_bit 32 pay_route7 = 1" "ucast pay_route7 = (7 :: u32)"
  by (simp_all add: drop_bit_eq_div)

theorem payments_cover_credit_witness:
  "section_value (sec (pay_all 0 [(demo_env, [7], [100], pay_route7, False)] demo_gw) 0) - section_value demo_section
    \<le> total_paid (pay_all 0 [(demo_env, [7], [100], pay_route7, False)] demo_gw) - total_paid demo_gw"
  using payments_cover_credit [OF demo_gw_inv demo_sec_valid, of "[(demo_env, [7], [100], pay_route7, False)]"]
    demo_amounts by (simp del: pay_all.simps)

text \<open>
  A payment state is counted once per section: repeating a payment instruction that the
  section has processed, at any later time and with or without the final flag, succeeds and
  changes nothing at all.
\<close>

lemma payment_repeated:
  assumes "gw_inv s" "sec_valid s sp" "Payment_Execute E sp key state purpose final s = (s', None)"
    and "load_state E' = load_state E" "verify_state E' = verify_state E"
  shows "Payment_Execute E' sp key state purpose final' s' = (s', None)"
proof -
  from assms(3) obtain st s1 v fresh where c: "allowRouting s" "payService s" "load_state E state = Some st"
      "0 < Amount st" "verify_state E st key"
    and ld: "load_channel E sp key purpose s = (s1, Inr (v, fresh))"
    and pr: "process_payment E sp key st purpose final v fresh s1 = (s', None)"
    by (auto simp: Payment_Execute_def not_le split: if_splits option.splits prod.splits sum.splits)
  have s1: "map_of (sec_payments (sec s1 sp)) key = Some v \<and> v < length (channels s1) \<and> allowRouting s1 \<and>
      payService s1 \<and> sec_valid s1 sp"
    using ld assms(2)
  proof (cases rule: load_channel_cases)
    case (known w)
    then show ?thesis
      using c assms(2) gw_inv_section [OF assms(1,2)] by (simp_all add: section_ok_def)
  next
    case (fresh ch b)
    then show ?thesis
      using c assms(2) by (simp_all add: sec_valid_def)
  qed simp
  have "map_of (sec_payments (sec s' sp)) key = Some v \<and> allowRouting s' \<and> payService s' \<and>
      chPurpose (channels s' ! v) = purpose \<and> Amount st \<le> last_amount False (channels s' ! v)"
    using pr
  proof (cases rule: process_payment_cases)
    case idle
    then show ?thesis using s1 c(4) by (auto simp: last_amount_def split: option.splits if_splits)
  next
    case (accepted m t)
    have "sec_payments (sec t sp) = sec_payments (sec s1 sp)" "channels t = channels s1"
        "allowRouting t = allowRouting s1" "payService t = payService s1"
      using accepted(5) s1
      by (auto simp: apply_mutation_def Let_def sec_valid_def upd_route_def upd_out_def
          split: mutation.splits option.splits if_splits)
    with accepted s1 show ?thesis
      by (simp add: Let_def last_amount_def upd_chan_def)
  qed
  then show ?thesis
    using c assms(4,5) by (simp add: Payment_Execute_def load_channel_def process_payment_def Let_def)
qed

lemma payment_repeated_witness:
  "\<exists>s'. Payment_Execute demo_env 0 [7] [100] pay_route7 False demo_gw = (s', None) \<and>
     Payment_Execute (demo_env\<lparr>now := 2000\<rparr>) 0 [7] [100] pay_route7 True s' = (s', None)"
proof -
  have "snd (Payment_Execute demo_env 0 [7] [100] pay_route7 False demo_gw) = None"
    by (simp add: Payment_Execute_def load_channel_def process_payment_def payment_mutation_def apply_mutation_def
        Let_def demo_section_def demo_route_def demo_env_def last_amount_def purpose_route7 PaymentPurposeOut_def
        PaymentPurposeRoute_def MinChannelTimeoutSec_def)
  then obtain s' where s': "Payment_Execute demo_env 0 [7] [100] pay_route7 False demo_gw = (s', None)"
    by (metis prod.collapse)
  from payment_repeated [OF demo_gw_inv demo_sec_valid s', of "demo_env\<lparr>now := 2000\<rparr>" True] s' show ?thesis
    by simp
qed

text \<open>
  Adding prepaid packets saturates: for every balance above the smallest 64-bit value and every
  number of packets, however large, the new balance is the exact sum cut off at the largest
  64-bit value; it never wraps to a debt.
\<close>

lemma addPrepaid_saturates:
  assumes "- (2 ^ 63) < at" "at < 2 ^ 63" "0 \<le> num"
  shows "addPrepaid at num = min MaxInt64 (at + num)"
  using assms by (rule addPrepaid_eq)

lemma addPrepaid_saturates_witness:
  "addPrepaid 5 (2 ^ 80) = MaxInt64"
  using addPrepaid_saturates [of 5 "2 ^ 80"] by (simp add: MaxInt64_def)

text \<open>
  A valid payment for an out gateway that is bound without a price ends in a division by
  zero: the state passes every check, is handed to the payment service, and the conversion to
  packets panics in the message handler.
\<close>

lemma free_out_payment_panics:
  assumes "allowRouting s" "payService s" "load_state E state = Some st" "0 < Amount st" "verify_state E st key"
    and "map_of (sec_payments (sec s sp)) key = Some v" "chPurpose (channels s ! v) = purpose"
    and "drop_bit 32 purpose = PaymentPurposeOut" "paid (channels s ! v) < Amount st" "chActive (channels s ! v)"
    and "MinChannelTimeoutSec \<le> chDeadline (channels s ! v) - now E" "0 \<le> chCapacity (channels s ! v)"
    and "sec_out (sec s sp) = Some ot" "outPrice ot = 0"
    and "add_resolve_ok E (outputs s @ [CallAddResolve key st])"
  shows "Payment_Execute E sp key state purpose final s = (emit (CallAddResolve key st) s, Some PanicDivZero)"
proof -
  have "last_amount False (channels s ! v) = paid (channels s ! v)"
    by (simp add: last_amount_def paid_def split: option.split)
  moreover have "outputs (emit (CallAddResolve key st) s) = outputs s @ [CallAddResolve key st]"
    by (simp add: peer_simps)
  ultimately show ?thesis using assms
    by (simp add: Payment_Execute_def load_channel_def process_payment_def payment_mutation_def
        apply_mutation_def Let_def)
qed

definition free_out_gw :: gateway where
  "free_out_gw = demo_gw\<lparr>
     channels := [\<lparr>chKey = [7], chActive = True, chDeadline = 9000, chCapacity = 10, chLatestState = None,
                   chPurpose = 8589934592\<rparr>],
     sections := [demo_section\<lparr>sec_out := Some (demo_out\<lparr>outPrice := 0\<rparr>), sec_payments := [([7], 0)]\<rparr>]\<rparr>"

lemma free_out_payment_panics_witness:
  "\<exists>s'. Payment_Execute demo_env 0 [7] [100] 8589934592 False free_out_gw = (s', Some PanicDivZero)"
proof -
  have d: "drop_bit 32 (8589934592 :: u64) = PaymentPurposeOut"
    by (simp add: drop_bit_eq_div PaymentPurposeOut_def)
  have "Payment_Execute demo_env 0 [7] [100] 8589934592 False free_out_gw
      = (emit (CallAddResolve [7] \<lparr>Amount = 100, Signature = [100]\<rparr>) free_out_gw, Some PanicDivZero)"
    by (rule free_out_payment_panics [where v = 0 and ot = "demo_out\<lparr>outPrice := 0\<rparr>"])
      (simp_all add: free_out_gw_def demo_env_def d paid_def MinChannelTimeoutSec_def demo_gw_def NewGateway_def
        PaymentPurposeOut_def)
  then show ?thesis by blast
qed

end
