(* ===== verification/Out_Gateway.thy ===== *)
theory Out_Gateway
  imports Payment_Instruction
begin

text \<open>
  The out gateway of a section (\<open>BindOutInstruction\<close>, \<open>Out.Send\<close>, \<open>Out.Listen\<close> and
  \<open>Out.sendBack\<close> of \<open>tunnel/instructions.go\<close>): a UDP port bound for the initiator, packets
  sent from it, packets received on it and returned through the inbound peer. The UDP stack is
  part of \<open>env\<close>. \<open>Out.Send\<close> decrypts the payload in its message buffer, so it also returns
  the buffer.
\<close>

section \<open>Definitions\<close>

definition sendBack ::
  "crypto \<Rightarrow> tlcodec \<Rightarrow> env \<Rightarrow> ptr \<Rightarrow> payload \<Rightarrow> bool \<Rightarrow> 'a gateway_scheme \<Rightarrow> 'a gateway_scheme \<times> go_error option" where
  "sendBack C T E sp obj isPayload s =
     (case sec_out (sec s sp) of None \<Rightarrow> (s, Some PanicNil)
      | Some ot \<Rightarrow>
          (case tl_payload T obj of None \<Rightarrow> (s, Some ErrSerialize)
           | Some data \<Rightarrow>
               (case encryptStream C (nonce E (outputs s)) (PayloadCipherKeyCRC ot) (PayloadCipherKey ot) data of
                  Inl e \<Rightarrow> (s, Some e)
                | Inr pl \<Rightarrow>
                    if isPayload
                    then let seqno = backSeqno ot + 1
                         in SendCustomMessage E (inboundPeer ot)
                              (MsgCached \<lparr>cSectionPubKey = InboundSectionKey ot, cSeqno = seqno, cPayload = pl\<rparr>)
                              (upd_sec sp (upd_out (\<lambda>q. q\<lparr>backSeqno := seqno\<rparr>)) s)
                    else SendCustomMessage E (inboundPeer ot)
                           (MsgEncrypted \<lparr>msgSectionPubKey = InboundSectionKey ot,
                              msgInstructions = outInstructions ot, msgPayload = pl\<rparr>) s)))"

text \<open>\<open>atomic.AddUint64(&s.out.PacketsSentIn, 1)\<close>, whose result numbers the payload.\<close>

definition count_in :: "ptr \<Rightarrow> 'a gateway_scheme \<Rightarrow> 'a gateway_scheme" where
  "count_in sp = upd_sec sp (upd_out (\<lambda>q. q\<lparr>PacketsSentIn := PacketsSentIn q + 1\<rparr>))"

definition new_out :: "ptr \<Rightarrow> u16 \<Rightarrow> bytes \<Rightarrow> bytes \<Rightarrow> bytes \<Rightarrow> bytes \<Rightarrow> u64 \<Rightarrow> out" where
  "new_out p port adnl sharedKey key instructions price =
     \<lparr>inboundPeer = p, outPort = port, outClosed = False, InboundADNL = adnl,
      PayloadCipherKey = sharedKey, PayloadCipherKeyCRC = crc64 sharedKey, InboundSectionKey = key,
      outInstructions = instructions, PacketsSentOut = 0, PacketsSentIn = 0, PrepaidPacketsIn = 0,
      PrepaidPacketsOut = 0, outPrice = uint price, backSeqno = 0\<rparr>"

definition rebind_out ::
  "env \<Rightarrow> ptr \<Rightarrow> out \<Rightarrow> bytes \<Rightarrow> bytes \<Rightarrow> bytes \<Rightarrow> bytes \<Rightarrow> u64 \<Rightarrow> 'a gateway_scheme \<Rightarrow> 'a gateway_scheme" where
  "rebind_out E sp ot adnl sharedKey key instructions price s =
     (let inADNLChanged = InboundADNL ot \<noteq> adnl;
          changed = inADNLChanged \<or> PayloadCipherKey ot \<noteq> sharedKey \<or> PayloadCipherKeyCRC ot \<noteq> crc64 sharedKey
            \<or> InboundSectionKey ot \<noteq> key \<or> outInstructions ot \<noteq> instructions \<or> outPrice ot \<noteq> uint price
      in if \<not> changed then s
         else let (p, s1) = (if inADNLChanged
                             then let (p, t) = addPeer E adnl None (Dereference (inboundPeer ot) s)
                                  in (p, AddReference p t)
                             else (inboundPeer ot, s))
              in upd_sec sp (upd_out (\<lambda>q. q\<lparr>inboundPeer := p, InboundADNL := adnl, PayloadCipherKey := sharedKey,
                    PayloadCipherKeyCRC := crc64 sharedKey, InboundSectionKey := key,
                    outInstructions := instructions, outPrice := uint price\<rparr>)) s1)"

text \<open>Reporting the bound address to the initiator; an error is only logged.\<close>

definition bind_done :: "crypto \<Rightarrow> tlcodec \<Rightarrow> env \<Rightarrow> ptr \<Rightarrow> 'a gateway_scheme \<Rightarrow> 'a gateway_scheme" where
  "bind_done C T E sp s =
     (let s1 = count_in sp s
      in case sec_out (sec s1 sp) of None \<Rightarrow> s1
         | Some ot \<Rightarrow>
             fst (sendBack C T E sp
               (OutBindDonePayload (PacketsSentIn ot) (hd (gate_addresses E)) (ucast (outPort ot))) False s1))"

definition BindOut_Execute ::
  "crypto \<Rightarrow> tlcodec \<Rightarrow> env \<Rightarrow> ptr \<Rightarrow> bytes \<Rightarrow> bytes \<Rightarrow> bytes \<Rightarrow> bytes \<Rightarrow> u64 \<Rightarrow> 'a gateway_scheme
   \<Rightarrow> 'a gateway_scheme \<times> go_error option" where
  "BindOut_Execute C T E sp adnl key instructions receiver price0 s =
     (if \<not> allowOut s then (s, Some ErrOutNotAllowed)
      else if gate_addresses E = [] then (s, Some ErrNoAddresses)
      else case SharedKey C (gwKey s) receiver of None \<Rightarrow> (s, Some ErrSharedKey)
        | Some sharedKey \<Rightarrow>
            if payService s \<and> price0 < MinPricePerPacketInOut s then (s, Some ErrLowPrice)
            else let price = (if payService s then price0 else 0)
                 in case sec_out (sec s sp) of
                      None \<Rightarrow>
                        let s1 = emit CallListenPacket s
                        in (case listen_packet E (outputs s1) of None \<Rightarrow> (s1, Some ErrListen)
                            | Some port \<Rightarrow>
                                let (p, s2) = addPeer E adnl None s1;
                                    s3 = upd_sec sp (\<lambda>sc. sc\<lparr>sec_out :=
                                           Some (new_out p port adnl sharedKey key instructions price)\<rparr>) s2
                                in (bind_done C T E sp (AddReference p (gauge_outs (0 < price) 1 s3)), None))
                    | Some ot \<Rightarrow>
                        (bind_done C T E sp (rebind_out E sp ot adnl sharedKey key instructions price s), None))"

definition Out_Send ::
  "crypto \<Rightarrow> tlcodec \<Rightarrow> env \<Rightarrow> ptr \<Rightarrow> 'a gateway_scheme \<times> bytes \<Rightarrow> ('a gateway_scheme \<times> bytes) \<times> go_error option" where
  "Out_Send C T E sp st =
     (case st of (s, payload) \<Rightarrow>
       (case sec_out (sec s sp) of None \<Rightarrow> ((s, payload), Some PanicNil)
        | Some ot \<Rightarrow>
            (case decryptStream C (PayloadCipherKeyCRC ot) (PayloadCipherKey ot) payload of
               (buf, Inl e) \<Rightarrow> ((s, buf), Some e)
             | (buf, Inr data) \<Rightarrow>
                 (case tl_parse_payload T data of
                    Some (SendOutPayload seqno ip port pl) \<Rightarrow>
                      if pl = [] then ((s, buf), None)
                      else if length ip \<noteq> 4 \<and> length ip \<noteq> 16 then ((s, buf), Some ErrInvalidIP)
                      else if 0 < outPrice ot \<and> PrepaidPacketsIn ot < maxLoss (PacketsSentIn ot)
                      then ((s, buf), Some ErrPrepaidIn)
                      else if 0 < outPrice ot \<and> PrepaidPacketsOut ot \<le> 0 then ((s, buf), Some ErrPrepaidOut)
                      else let s1 = (if 0 < outPrice ot
                                     then upd_sec sp (upd_out (\<lambda>q. q\<lparr>PrepaidPacketsOut :=
                                            i64 (PrepaidPacketsOut q - 1)\<rparr>)) s
                                     else s);
                               s2 = emit (CallWriteTo (outPort ot) ip (ucast port) pl) s1
                           in if \<not> write_ok E (outputs s2) then ((s2, buf), Some ErrWriteOut)
                              else ((upd_sec sp (upd_out (\<lambda>q. q\<lparr>PacketsSentOut := PacketsSentOut q + 1\<rparr>))
                                      (s2\<lparr>statsSent := statsSent s2 + 1\<rparr>), buf), None)
                  | _ \<Rightarrow> ((s, buf), Some ErrParse)))))"

definition SendOut_Execute ::
  "crypto \<Rightarrow> tlcodec \<Rightarrow> env \<Rightarrow> ptr \<Rightarrow> 'a gateway_scheme \<times> bytes \<Rightarrow> ('a gateway_scheme \<times> bytes) \<times> go_error option" where
  "SendOut_Execute C T E sp st =
     (if \<not> allowOut (fst st) then (st, Some ErrOutNotAllowed) else Out_Send C T E sp st)"

text \<open>
  A packet on the bound port, read into a 2048-byte buffer and handled by a worker of
  \<open>Listen\<close>. A closed out handles nothing; a full queue drops the packet before this step.
\<close>

definition Listen_packet ::
  "crypto \<Rightarrow> tlcodec \<Rightarrow> env \<Rightarrow> ptr \<Rightarrow> bytes \<Rightarrow> u16 \<Rightarrow> bytes \<Rightarrow> 'a gateway_scheme \<Rightarrow> 'a gateway_scheme" where
  "Listen_packet C T E sp srcIP srcPort datagram s =
     (let buf = take 2048 datagram
      in case sec_out (sec s sp) of None \<Rightarrow> s
         | Some ot \<Rightarrow>
             if outClosed ot \<or> length buf < 64 then s
             else if 0 < outPrice ot \<and> PrepaidPacketsIn ot \<le> maxLoss (PacketsSentIn ot) then s
             else let s1 = (if 0 < outPrice ot
                            then upd_sec sp (upd_out (\<lambda>q. q\<lparr>PrepaidPacketsIn := i64 (PrepaidPacketsIn q - 1)\<rparr>)) s
                            else s);
                      s2 = count_in sp (s1\<lparr>statsReceived := statsReceived s1 + 1\<rparr>)
                  in fst (sendBack C T E sp
                       (DeliverUDPPayload (PacketsSentIn ot + 1) srcIP (ucast srcPort) buf) True s2))"

section \<open>The invariant\<close>

lemma gw_inv_sendBack: "gw_inv s \<Longrightarrow> gw_inv (fst (sendBack C T E sp obj b s))"
proof -
  assume i: "gw_inv s"
  then have "gw_inv (upd_sec sp (upd_out (\<lambda>q. q\<lparr>backSeqno := n\<rparr>)) s)" for n
    by (intro gw_inv_upd_sec section_ok_upd_out) (auto simp: out_ok_def)
  with i show ?thesis
    by (auto simp: sendBack_def Let_def split: option.split sum.split intro: gw_inv_nets)
qed

lemma gw_inv_count_in: "gw_inv s \<Longrightarrow> gw_inv (count_in sp s)"
  unfolding count_in_def by (intro gw_inv_upd_sec section_ok_upd_out) (auto simp: out_ok_def)

lemma gw_inv_bind_done: "gw_inv s \<Longrightarrow> gw_inv (bind_done C T E sp s)"
  by (auto simp: bind_done_def Let_def gw_inv_count_in gw_inv_sendBack split: option.split)

lemma section_ok_set_out:
  "section_ok ids nc sc \<Longrightarrow> out_ok ids ot \<Longrightarrow> section_ok ids nc (sc\<lparr>sec_out := Some ot\<rparr>)"
  by (simp add: section_ok_def)

lemma gw_inv_rebind:
  assumes "gw_inv s" "sec_valid s sp" "sec_out (sec s sp) = Some ot"
  shows "gw_inv (rebind_out E sp ot adnl sharedKey key instrs price s)"
proof -
  have ok: "points_to (peer_ids s) (inboundPeer ot) (InboundADNL ot)"
    using gw_inv_section [OF assms(1,2)] assms(3) by (simp add: section_ok_def out_ok_def)
  have set: "gw_inv (upd_sec sp (upd_out (\<lambda>q. q\<lparr>inboundPeer := p, InboundADNL := adnl, PayloadCipherKey := sharedKey,
       PayloadCipherKeyCRC := crc64 sharedKey, InboundSectionKey := key, outInstructions := instrs,
       outPrice := uint price\<rparr>)) t)" if "gw_inv t" "points_to (peer_ids t) p adnl" for p and t :: "'a gateway_scheme"
    using that by (intro gw_inv_upd_sec section_ok_upd_out) (auto simp: out_ok_def)
  obtain p t where a: "addPeer E adnl None (Dereference (inboundPeer ot) s) = (p, t)" by fastforce
  have d: "gw_inv (Dereference (inboundPeer ot) s)" using assms(1) by (rule gw_inv_nets)
  have "gw_inv t" using gw_inv_nets(7) [OF d, of E adnl None] a by simp
  moreover have "points_to (peer_ids t) p adnl" by (rule addPeer_points_to [OF _ a]) (simp add: d)
  ultimately have "gw_inv (upd_sec sp (upd_out (\<lambda>q. q\<lparr>inboundPeer := p, InboundADNL := adnl, PayloadCipherKey := sharedKey,
       PayloadCipherKeyCRC := crc64 sharedKey, InboundSectionKey := key, outInstructions := instrs,
       outPrice := uint price\<rparr>)) (AddReference p t))"
    by (intro set) (simp_all add: gw_inv_nets)
  then show ?thesis using assms(1) ok set [of s] by (auto simp: rebind_out_def Let_def a)
qed

lemma gw_inv_BindOut:
  assumes "gw_inv s" "sec_valid s sp"
  shows "gw_inv (fst (BindOut_Execute C T E sp adnl key instrs receiver price s))"
proof -
  have l: "gw_inv (emit CallListenPacket s)" using assms(1) by (rule gw_inv_nets)
  obtain p t where a: "addPeer E adnl None (emit CallListenPacket s) = (p, t)" by fastforce
  have "gw_inv t" using gw_inv_nets(7) [OF l, of E adnl None] a by simp
  moreover have "points_to (peer_ids t) p adnl" by (rule addPeer_points_to [OF _ a]) (simp add: assms(1))
  ultimately have n: "gw_inv (upd_sec sp (\<lambda>sc. sc\<lparr>sec_out := Some (new_out p port adnl shKey key instrs pr)\<rparr>) t)"
    for port shKey pr
    by (intro gw_inv_upd_sec section_ok_set_out) (auto simp: out_ok_def new_out_def MaxInt64_def)
  show ?thesis
    using assms l n gw_inv_rebind [OF assms]
    by (auto simp: BindOut_Execute_def Let_def a gw_inv_nets split: option.split intro!: gw_inv_bind_done)
qed

lemma gw_inv_Out_Send:
  assumes "gw_inv s" "sec_valid s sp"
  shows "gw_inv (fst (fst (Out_Send C T E sp (s, payload))))"
proof (cases "sec_out (sec s sp)")
  case None
  then show ?thesis by (simp add: Out_Send_def assms)
next
  case (Some ot)
  have ok: "out_ok (peer_ids s) ot" using gw_inv_section [OF assms] Some by (simp add: section_ok_def)
  have dec: "gw_inv (upd_sec sp (upd_out (\<lambda>q. q\<lparr>PrepaidPacketsOut := i64 (PrepaidPacketsOut q - 1)\<rparr>)) s)"
    if "0 < PrepaidPacketsOut ot"
    using assms(1) that Some i64_credit(1) [of "PrepaidPacketsOut ot"]
    by (intro gw_inv_upd_sec section_ok_upd_out) (auto simp: out_ok_def)
  have use: "gw_inv (upd_sec sp (upd_out (\<lambda>q. q\<lparr>PacketsSentOut := PacketsSentOut q + 1\<rparr>)) t)"
    if "gw_inv t" for t :: "'a gateway_scheme"
    using that by (intro gw_inv_upd_sec section_ok_upd_out) (auto simp: out_ok_def)
  show ?thesis
    using assms(1) dec
    by (auto simp: Out_Send_def Some Let_def not_le split: prod.split sum.split option.split payload.split
        intro!: use gw_inv_nets)
qed

lemma gw_inv_Listen:
  assumes "gw_inv s" "sec_valid s sp"
  shows "gw_inv (Listen_packet C T E sp ip port data s)"
proof (cases "sec_out (sec s sp)")
  case None
  then show ?thesis by (simp add: Listen_packet_def assms)
next
  case (Some ot)
  have ok: "out_ok (peer_ids s) ot" using gw_inv_section [OF assms] Some by (simp add: section_ok_def)
  have dec: "gw_inv (upd_sec sp (upd_out (\<lambda>q. q\<lparr>PrepaidPacketsIn := i64 (PrepaidPacketsIn q - 1)\<rparr>)) s)"
    if "- 20000 < PrepaidPacketsIn ot"
    using assms(1) that Some i64_credit(1) [of "PrepaidPacketsIn ot"]
    by (intro gw_inv_upd_sec section_ok_upd_out) (auto simp: out_ok_def)
  show ?thesis
    using assms(1) dec
    by (auto simp: Listen_packet_def Some Let_def not_le intro!: gw_inv_sendBack gw_inv_count_in)
qed

section \<open>The net effect of sending and receiving\<close>

lemma decryptStream_encrypted:
  assumes "encryptStream C rnd crc key data = Inr enc" "data \<noteq> []"
  obtains buf where "decryptStream C crc key enc = (buf, Inr data)"
  using decrypt_encrypt [OF assms] by (metis prod.collapse)

lemma getConn_upd_sec: "getConn p (upd_sec sp f s) = getConn p s"
  by (simp add: getConn_def)

lemma sec_out_upd: "sec_valid s sp \<Longrightarrow> sec_out (sec (upd_sec sp (upd_out f) s) sp) = map_option f (sec_out (sec s sp))"
  by (simp add: sec_valid_def upd_out_def)

definition is_write :: "ext_call \<Rightarrow> bool" where
  "is_write c \<longleftrightarrow> (case c of CallWriteTo _ _ _ _ \<Rightarrow> True | _ \<Rightarrow> False)"

definition is_send :: "ext_call \<Rightarrow> bool" where
  "is_send c \<longleftrightarrow> (case c of CallSend _ _ \<Rightarrow> True | _ \<Rightarrow> False)"

abbreviation writes :: "'a net_scheme \<Rightarrow> int" where
  "writes s \<equiv> int (length (filter is_write (outputs s)))"

abbreviation sends :: "'a net_scheme \<Rightarrow> int" where
  "sends s \<equiv> int (length (filter is_send (outputs s)))"

text \<open>
  What one operation on a priced out costs: writes are paid from the outgoing balance, packets
  returned to the initiator from the incoming one.
\<close>

definition out_cost :: "ptr \<Rightarrow> 'a gateway_scheme \<Rightarrow> 'a gateway_scheme \<Rightarrow> bool" where
  "out_cost sp s s' \<longleftrightarrow> (\<exists>ot ot'. sec_out (sec s sp) = Some ot \<and> sec_out (sec s' sp) = Some ot' \<and>
     outPrice ot' = outPrice ot \<and>
     writes s' - writes s = PrepaidPacketsOut ot - PrepaidPacketsOut ot' \<and>
     sends s' - sends s \<le> PrepaidPacketsIn ot - PrepaidPacketsIn ot')"

lemma out_cost_refl: "sec_out (sec s sp) = Some ot \<Longrightarrow> out_cost sp s s"
  by (simp add: out_cost_def)

lemma out_cost_trans: "out_cost sp s t \<Longrightarrow> out_cost sp t u \<Longrightarrow> out_cost sp s u"
  by (fastforce simp: out_cost_def)

lemma Out_Send_cost:
  assumes "gw_inv s" "sec_valid s sp" "sec_out (sec s sp) = Some ot" "0 < outPrice ot"
  shows "out_cost sp s (fst (fst (Out_Send C T E sp (s, payload))))"
proof -
  have "out_ok (peer_ids s) ot" using gw_inv_section [OF assms(1,2)] assms(3) by (simp add: section_ok_def)
  then have i: "0 < PrepaidPacketsOut ot \<Longrightarrow> i64 (PrepaidPacketsOut ot - 1) = PrepaidPacketsOut ot - 1"
    by (intro i64_credit(1)) (simp_all add: out_ok_def)
  have v: "sec_valid (emit c (upd_sec sp f s)) sp" for c f using assms(2) by (simp add: sec_valid_def)
  show ?thesis
    using assms(2-4) i
    by (auto simp: Out_Send_def out_cost_def Let_def not_le sec_valid_def upd_out_def is_write_def is_send_def
        peer_simps split: prod.split sum.split option.split payload.split)
qed

lemma sendBack_payload:
  assumes "sec_valid s sp" "sec_out (sec s sp) = Some ot" "sendBack C T E sp obj True s = (s', e)"
  shows "\<exists>n. sec_out (sec s' sp) = Some (ot\<lparr>backSeqno := n\<rparr>) \<and> length (sections s') = length (sections s)"
    "writes s' = writes s" "sends s' \<le> sends s + 1"
  using assms
  by (auto simp: sendBack_def SendCustomMessage_def Let_def sec_valid_def upd_out_def is_write_def is_send_def
      peer_simps split: option.splits sum.splits intro: exI [of _ "backSeqno ot"])

lemma Listen_cost:
  assumes "gw_inv s" "sec_valid s sp" "sec_out (sec s sp) = Some ot" "0 < outPrice ot"
  shows "out_cost sp s (Listen_packet C T E sp ip port data s)"
proof (cases "outClosed ot \<or> length (take 2048 data) < 64 \<or> PrepaidPacketsIn ot \<le> - 20000")
  case True
  then have "Listen_packet C T E sp ip port data s = s"
    using assms(3,4) by (auto simp: Listen_packet_def Let_def)
  then show ?thesis using assms(3) by (simp add: out_cost_refl)
next
  case False
  have "out_ok (peer_ids s) ot" using gw_inv_section [OF assms(1,2)] assms(3) by (simp add: section_ok_def)
  then have i: "i64 (PrepaidPacketsIn ot - 1) = PrepaidPacketsIn ot - 1"
    by (intro i64_credit(1)) (simp_all add: out_ok_def)
  let ?s1 = "upd_sec sp (upd_out (\<lambda>q. q\<lparr>PrepaidPacketsIn := i64 (PrepaidPacketsIn q - 1)\<rparr>)) s"
  let ?s2 = "count_in sp (?s1\<lparr>statsReceived := statsReceived ?s1 + 1\<rparr>)"
  let ?obj = "DeliverUDPPayload (PacketsSentIn ot + 1) ip (ucast port) (take 2048 data)"
  let ?ot = "ot\<lparr>PacketsSentIn := PacketsSentIn ot + 1, PrepaidPacketsIn := PrepaidPacketsIn ot - 1\<rparr>"
  have l: "Listen_packet C T E sp ip port data s = fst (sendBack C T E sp ?obj True ?s2)"
    using False assms(3,4) by (simp add: Listen_packet_def Let_def)
  have o2: "sec_out (sec ?s2 sp) = Some ?ot" "sec_valid ?s2 sp" "outputs ?s2 = outputs s"
    using assms(2,3) i by (simp_all add: count_in_def sec_valid_def upd_out_def)
  obtain s' e where s': "sendBack C T E sp ?obj True ?s2 = (s', e)" by fastforce
  from sendBack_payload [OF o2(2,1) s'] show ?thesis
    unfolding l s' using assms(3) o2(3) by (auto simp: out_cost_def)
qed

section \<open>Properties\<close>

datatype out_op = OpSend env bytes | OpReceive env bytes u16 bytes

primrec out_run :: "crypto \<Rightarrow> tlcodec \<Rightarrow> ptr \<Rightarrow> out_op list \<Rightarrow> 'a gateway_scheme \<Rightarrow> 'a gateway_scheme" where
  "out_run C T sp [] s = s"
| "out_run C T sp (x # xs) s = out_run C T sp xs
     (case x of OpSend E payload \<Rightarrow> fst (fst (Out_Send C T E sp (s, payload)))
      | OpReceive E ip port data \<Rightarrow> Listen_packet C T E sp ip port data s)"

lemma out_run_cost:
  assumes "gw_inv s" "sec_valid s sp" "sec_out (sec s sp) = Some ot" "0 < outPrice ot"
  shows "out_cost sp s (out_run C T sp xs s) \<and> gw_inv (out_run C T sp xs s) \<and> sec_valid (out_run C T sp xs s) sp"
  using assms
proof (induction xs arbitrary: s ot)
  case Nil
  then show ?case by (simp add: out_cost_refl)
next
  case (Cons x xs)
  define t where "t = (case x of OpSend E payload \<Rightarrow> fst (fst (Out_Send C T E sp (s, payload)))
      | OpReceive E ip port data \<Rightarrow> Listen_packet C T E sp ip port data s)"
  have c: "out_cost sp s t" and i: "gw_inv t"
    using Cons.prems Out_Send_cost Listen_cost gw_inv_Out_Send gw_inv_Listen
    by (auto simp: t_def split: out_op.split)
  have v: "sec_valid t sp"
    using Cons.prems(2,3)
    by (auto simp: t_def sec_valid_def Out_Send_def Listen_packet_def sendBack_def SendCustomMessage_def count_in_def Let_def
        split: out_op.split prod.split sum.split option.split payload.split)
  from c Cons.prems(3,4) obtain ot' where "sec_out (sec t sp) = Some ot'" "0 < outPrice ot'"
    by (auto simp: out_cost_def)
  from Cons.IH [OF i v this] c show ?case by (auto simp: t_def [symmetric] intro: out_cost_trans)
qed



text \<open>A small payload codec that reads back what it writes.\<close>

definition demo_payload :: "payload \<Rightarrow> bytes option" where
  "demo_payload p = (case p of
      SendOutPayload n ip port pl \<Rightarrow>
        if length ip < 256 then Some (1 # put_u64 n @ put_u32 port @ of_nat (length ip) # ip @ pl) else None
    | DeliverUDPPayload n ip port pl \<Rightarrow>
        if length ip < 256 then Some (2 # put_u64 n @ put_u32 port @ of_nat (length ip) # ip @ pl) else None
    | OutBindDonePayload n ip port \<Rightarrow> Some (3 # put_u64 n @ put_u32 port @ ip)
    | DeliverPayload n pl \<Rightarrow> Some (4 # put_u64 n @ pl))"

definition demo_parse_payload :: "bytes \<Rightarrow> payload option" where
  "demo_parse_payload bs = (case bs of [] \<Rightarrow> None
     | t # r \<Rightarrow>
         let n = get_le (take 8 r); port = get_le (take 4 (drop 8 r)); rest = drop 12 r; len = unat (hd rest)
         in if t = 1 then Some (SendOutPayload n (take len (tl rest)) port (drop len (tl rest)))
            else if t = 2 then Some (DeliverUDPPayload n (take len (tl rest)) port (drop len (tl rest)))
            else if t = 3 then Some (OutBindDonePayload n rest port)
            else Some (DeliverPayload n (drop 8 r)))"

definition demo_tl2 :: tlcodec where
  "demo_tl2 = demo_tl\<lparr>tl_payload := demo_payload, tl_parse_payload := demo_parse_payload\<rparr>"

lemma demo_payload_roundtrip: "demo_payload p = Some bs \<Longrightarrow> bs \<noteq> [] \<and> demo_parse_payload bs = Some p"
  by (auto simp: demo_payload_def demo_parse_payload_def Let_def unat_of_nat drop_append
      split: payload.splits if_splits)

text \<open>
  The way out: a packet that the initiator encrypted for the out gateway is decrypted and written to
  exactly the address and port it names with exactly its bytes, once; it costs one prepaid packet
  when the out has a price, and counts as sent.
\<close>

lemma out_send_writes:
  assumes "gw_inv s" "sec_valid s sp" "allowOut s" "sec_out (sec s sp) = Some ot"
    and "encryptStream C rnd (PayloadCipherKeyCRC ot) (PayloadCipherKey ot) data = Inr enc" "data \<noteq> []"
    and "tl_parse_payload T data = Some (SendOutPayload seqno ip port pl)" "pl \<noteq> []" "length ip \<in> {4, 16}"
    and "outPrice ot = 0 \<or> 0 < PrepaidPacketsOut ot"
    and "write_ok E (outputs s @ [CallWriteTo (outPort ot) ip (ucast port) pl])"
  shows "\<exists>s' buf. SendOut_Execute C T E sp (s, enc) = ((s', buf), None) \<and>
    outputs s' = outputs s @ [CallWriteTo (outPort ot) ip (ucast port) pl] \<and>
    sec_out (sec s' sp) = Some (ot\<lparr>PacketsSentOut := PacketsSentOut ot + 1,
      PrepaidPacketsOut := PrepaidPacketsOut ot - (if outPrice ot = 0 then 0 else 1)\<rparr>)"
proof -
  from assms(5,6) obtain buf where d: "decryptStream C (PayloadCipherKeyCRC ot) (PayloadCipherKey ot) enc = (buf, Inr data)"
    by (rule decryptStream_encrypted)
  have ok: "out_ok (peer_ids s) ot" using gw_inv_section [OF assms(1,2)] assms(4) by (simp add: section_ok_def)
  then have p: "0 \<le> outPrice ot" "- 20000 \<le> PrepaidPacketsIn ot" by (simp_all add: out_ok_def)
  have i: "i64 (PrepaidPacketsOut ot - 1) = PrepaidPacketsOut ot - 1"
    using ok by (intro i64_credit(1)) (simp_all add: out_ok_def)
  show ?thesis
    using assms(2-4,7-11) d p i
    by (auto simp: SendOut_Execute_def Out_Send_def Let_def sec_valid_def upd_out_def peer_simps)
qed

definition tl_payload_laws :: "tlcodec \<Rightarrow> bool" where
  "tl_payload_laws T \<longleftrightarrow> (\<forall>p bs. tl_payload T p = Some bs \<longrightarrow> bs \<noteq> [] \<and> tl_parse_payload T bs = Some p)"

text \<open>
  The way back: a UDP packet received on the bound port is sent to the inbound peer in a cached
  message with the next back sequence number, encrypted so that the initiator, who holds the same
  payload key, recovers exactly the sender's address, port and bytes.
\<close>

lemma out_return_sends:
  assumes "gw_inv s" "sec_valid s sp" "sec_out (sec s sp) = Some ot" "\<not> outClosed ot"
    and "64 \<le> length data" "length data \<le> 2048" "outPrice ot = 0 \<or> - 20000 < PrepaidPacketsIn ot"
    and "tl_payload_laws T" "tl_payload T (DeliverUDPPayload (PacketsSentIn ot + 1) ip (ucast port) data) = Some bs"
    and "nonce E (outputs s) = Some r" "\<forall>key iv. NewCipherCtr C key iv \<noteq> None"
    and "getConn (inboundPeer ot) s = Some h" "CipherKey k = PayloadCipherKey ot" "CipherKeyCRC k = PayloadCipherKeyCRC ot"
  shows "\<exists>pl. outputs (Listen_packet C T E sp ip port data s) = outputs s @
      [CallSend h (MsgCached \<lparr>cSectionPubKey = InboundSectionKey ot, cSeqno = backSeqno ot + 1, cPayload = pl\<rparr>)] \<and>
    snd (decryptRecvPayload C T k pl) = Inr (DeliverUDPPayload (PacketsSentIn ot + 1) ip (ucast port) data)"
proof -
  let ?obj = "DeliverUDPPayload (PacketsSentIn ot + 1) ip (ucast port) data"
  obtain pl where pl: "encryptStream C (Some r) (PayloadCipherKeyCRC ot) (PayloadCipherKey ot) bs = Inr pl"
    using assms(11) by (fastforce simp: encryptStream_def Let_def split: option.splits)
  have b: "bs \<noteq> []" "tl_parse_payload T bs = Some ?obj" using assms(8,9) by (auto simp: tl_payload_laws_def)
  obtain buf where "decryptStream C (CipherKeyCRC k) (CipherKey k) pl = (buf, Inr bs)"
    using decryptStream_encrypted [OF pl b(1)] assms(13,14) by metis
  then have rec: "snd (decryptRecvPayload C T k pl) = Inr ?obj" by (simp add: decryptRecvPayload_def b(2))
  define s1 where "s1 = (if 0 < outPrice ot then upd_sec sp (upd_out (\<lambda>q. q\<lparr>PrepaidPacketsIn := i64 (PrepaidPacketsIn q - 1)\<rparr>)) s else s)"
  define s2 where "s2 = count_in sp (s1\<lparr>statsReceived := statsReceived s1 + 1\<rparr>)"
  have l: "Listen_packet C T E sp ip port data s = fst (sendBack C T E sp ?obj True s2)"
    using assms(3-7) by (auto simp: Listen_packet_def Let_def s1_def s2_def)
  have "outputs s2 = outputs s" "\<And>p. getConn p s2 = getConn p s"
    by (simp_all add: s2_def s1_def count_in_def getConn_def)
  moreover obtain ot2 where "sec_out (sec s2 sp) = Some ot2" "inboundPeer ot2 = inboundPeer ot"
    "PayloadCipherKeyCRC ot2 = PayloadCipherKeyCRC ot" "PayloadCipherKey ot2 = PayloadCipherKey ot"
    "backSeqno ot2 = backSeqno ot" "InboundSectionKey ot2 = InboundSectionKey ot"
  proof (cases "0 < outPrice ot")
    case True
    show thesis
      by (rule that [of "ot\<lparr>PrepaidPacketsIn := i64 (PrepaidPacketsIn ot - 1), PacketsSentIn := PacketsSentIn ot + 1\<rparr>"])
        (use assms(2,3) True in \<open>simp_all add: s2_def s1_def count_in_def sec_valid_def upd_out_def\<close>)
  next
    case False
    show thesis
      by (rule that [of "ot\<lparr>PacketsSentIn := PacketsSentIn ot + 1\<rparr>"])
        (use assms(2,3) False in \<open>simp_all add: s2_def s1_def count_in_def sec_valid_def upd_out_def\<close>)
  qed
  ultimately have "outputs (Listen_packet C T E sp ip port data s) = outputs s @
      [CallSend h (MsgCached \<lparr>cSectionPubKey = InboundSectionKey ot, cSeqno = backSeqno ot + 1, cPayload = pl\<rparr>)]"
    using assms(9,10,12) pl
    by (simp add: l sendBack_def SendCustomMessage_def Let_def peer_simps getConn_upd_sec)
  with rec show ?thesis by blast
qed

end
