(* ===== verification/Gateway.thy ===== *)
theory Gateway
  imports Out_Gateway
begin

text \<open>
  The gateway itself (\<open>tunnel/gateway.go\<close>): dispatch of instructions and cached actions, the
  handler of peer messages, the keep-alive loop, connections, and a step relation in which
  messages, datagrams, timer ticks and the asynchronous tasks interleave in any order. A tunnel
  registered at the gateway is reached through the \<open>Tunnel\<close> interface, whose \<open>Process\<close> is the
  argument \<open>proc\<close>: it may change the state and the payload buffer and may fail. In a run it may
  depend on the outside world of each step.
\<close>

type_synonym 'a tunnel_proc =
  "ptr \<Rightarrow> bytes \<Rightarrow> metadata \<Rightarrow> 'a gateway_scheme \<Rightarrow> 'a gateway_scheme \<times> bytes \<times> go_error option"

section \<open>Dispatch\<close>

definition on_gateway ::
  "('a gateway_scheme \<Rightarrow> 'a gateway_scheme \<times> go_error option) \<Rightarrow> 'a gateway_scheme \<times> bytes
   \<Rightarrow> ('a gateway_scheme \<times> bytes) \<times> go_error option" where
  "on_gateway f st = (case f (fst st) of (s, e) \<Rightarrow> ((s, snd st), e))"

definition deliver ::
  "'a tunnel_proc \<Rightarrow> ptr \<Rightarrow> metadata \<Rightarrow> 'a gateway_scheme \<times> bytes
   \<Rightarrow> ('a gateway_scheme \<times> bytes) \<times> go_error option" where
  "deliver proc t meta st = (case proc t (snd st) meta (fst st) of (s, buf, e) \<Rightarrow> ((s, buf), e))"

fun Execute ::
  "crypto \<Rightarrow> tlcodec \<Rightarrow> env \<Rightarrow> 'a tunnel_proc \<Rightarrow> ptr \<Rightarrow> bytes \<Rightarrow> instruction \<Rightarrow> 'a gateway_scheme \<times> bytes
   \<Rightarrow> ('a gateway_scheme \<times> bytes) \<times> go_error option" where
  "Execute C T E proc sp rest DestroyInstruction st = on_gateway (Destroy_Execute E sp) st"
| "Execute C T E proc sp rest (CacheInstruction ver instrs) st = on_gateway (Cache_Execute sp ver instrs) st"
| "Execute C T E proc sp rest (RouteInstruction rid) st =
     on_gateway (RouteInstruction_Execute E sp rid rest (snd st)) st"
| "Execute C T E proc sp rest (BuildRouteInstruction adnl key rid price) st =
     on_gateway (BuildRoute_Execute E sp adnl key rid price) st"
| "Execute C T E proc sp rest (PaymentInstruction key state purpose final) st =
     on_gateway (Payment_Execute E sp key state purpose final) st"
| "Execute C T E proc sp rest (BindOutInstruction adnl key instrs receiver price) st =
     on_gateway (BindOut_Execute C T E sp adnl key instrs receiver price) st"
| "Execute C T E proc sp rest (ReportStatsInstruction _ _ _ _ _) st =
     (st, if \<not> allowRouting (fst st) then Some ErrRoutingNotAllowed else None)"
| "Execute C T E proc sp rest SendOutInstruction st = SendOut_Execute C T E sp st"
| "Execute C T E proc sp rest DeliverInstruction st = (st, None)"
| "Execute C T E proc sp rest (DeliverInitiatorInstruction from meta) st =
     (case map_of (tunnels (fst st)) from of
        None \<Rightarrow> (st, Some (ErrNoTunnel from))
      | Some t \<Rightarrow> deliver proc t meta st)"

fun Execute_cached ::
  "crypto \<Rightarrow> tlcodec \<Rightarrow> env \<Rightarrow> 'a tunnel_proc \<Rightarrow> ptr \<Rightarrow> u32 \<Rightarrow> cached_action \<Rightarrow> 'a gateway_scheme \<times> bytes
   \<Rightarrow> ('a gateway_scheme \<times> bytes) \<times> go_error option" where
  "Execute_cached C T E proc sp seqno (RouteCachedAction rid) st =
     on_gateway (RouteCachedAction_Execute E sp rid seqno (snd st)) st"
| "Execute_cached C T E proc sp seqno SendOutCachedAction st = SendOut_Execute C T E sp st"
| "Execute_cached C T E proc sp seqno (DeliverInitiatorCachedAction meta t) st = deliver proc t meta st"

section \<open>The message handler\<close>

definition touch :: "env \<Rightarrow> ptr \<Rightarrow> 'a gateway_scheme \<Rightarrow> 'a gateway_scheme" where
  "touch E p = upd_peer p (\<lambda>q. q\<lparr>LastPacketFromAt := now E\<rparr>)"

definition mark_packet :: "env \<Rightarrow> ptr \<Rightarrow> 'a gateway_scheme \<Rightarrow> 'a gateway_scheme" where
  "mark_packet E sp = upd_sec sp (\<lambda>sc. sc\<lparr>lastPacketAt := now E\<rparr>)"

definition finish ::
  "env \<Rightarrow> ptr \<Rightarrow> ('a gateway_scheme \<times> bytes) \<times> go_error option \<Rightarrow> 'a gateway_scheme \<times> go_error option" where
  "finish E p r = (case r of ((s, _), Some e) \<Rightarrow> (s, Some e) | ((s, _), None) \<Rightarrow> (touch E p s, None))"

definition handle_cached ::
  "crypto \<Rightarrow> tlcodec \<Rightarrow> env \<Rightarrow> 'a tunnel_proc \<Rightarrow> ptr \<Rightarrow> encrypted_message_cached \<Rightarrow> 'a gateway_scheme
   \<Rightarrow> 'a gateway_scheme \<times> go_error option" where
  "handle_cached C T E proc p m s =
     (case map_of (inboundSections s) (cSectionPubKey m) of
        None \<Rightarrow> (s, Some ErrSectionMissing)
      | Some sp \<Rightarrow>
          (case checkSeqno sp (cSeqno m) True s of
             (s1, False) \<Rightarrow> (s1, Some ErrRepeatCached)
           | (s1, True) \<Rightarrow>
               if cachedActions (sec s1 sp) = [] then (s1, Some ErrCacheEmpty)
               else finish E p (run_until_err (Execute_cached C T E proc sp (cSeqno m))
                      (cachedActions (sec s1 sp)) (mark_packet E sp s1, cPayload m))))"

text \<open>The section a message belongs to, created for an unknown key.\<close>

definition get_section ::
  "crypto \<Rightarrow> env \<Rightarrow> ptr \<Rightarrow> bytes \<Rightarrow> 'a gateway_scheme \<Rightarrow> 'a gateway_scheme \<times> (go_error + ptr)" where
  "get_section C E p key s =
     (case map_of (inboundSections s) key of
        Some sp \<Rightarrow> (s, Inr sp)
      | None \<Rightarrow>
          (case SharedKey C (gwKey s) key of
             None \<Rightarrow> (s, Inl ErrSharedKey)
           | Some shKey \<Rightarrow>
               if getConn p s = None then (s, Inl PanicNil)
               else (s\<lparr>sections := sections s @ [new_section E key shKey],
                        inboundSections := mput key (length (sections s)) (inboundSections s),
                        ActiveInboundSections := ActiveInboundSections s + 1\<rparr>,
                     Inr (length (sections s)))))"

definition handle_encrypted ::
  "crypto \<Rightarrow> tlcodec \<Rightarrow> env \<Rightarrow> 'a tunnel_proc \<Rightarrow> ptr \<Rightarrow> encrypted_message \<Rightarrow> 'a gateway_scheme
   \<Rightarrow> 'a gateway_scheme \<times> go_error option" where
  "handle_encrypted C T E proc p m s =
     (case get_section C E p (msgSectionPubKey m) s of
        (s1, Inl e) \<Rightarrow> (s1, Some e)
      | (s1, Inr sp) \<Rightarrow>
          (case decryptMessage C T (cipherKeyCrc (sec s1 sp)) (cipherKey (sec s1 sp)) (msgInstructions m) of
             Inl e \<Rightarrow> (s1, Some e)
           | Inr (cont, rest) \<Rightarrow>
               (case checkSeqno sp (Seqno cont) False s1 of
                  (s2, False) \<Rightarrow> (s2, Some ErrRepeat)
                | (s2, True) \<Rightarrow>
                    if 5 < length (List cont) then (s2, Some ErrTooManyInstructions)
                    else finish E p (run_until_err (Execute C T E proc sp rest) (List cont)
                           (mark_packet E sp s2, msgPayload m)))))"

definition messageHandler ::
  "crypto \<Rightarrow> tlcodec \<Rightarrow> env \<Rightarrow> 'a tunnel_proc \<Rightarrow> ptr \<Rightarrow> net_msg \<Rightarrow> 'a gateway_scheme
   \<Rightarrow> 'a gateway_scheme \<times> go_error option" where
  "messageHandler C T E proc p msg s =
     (case msg of
        MsgPing n \<Rightarrow>
          (case SendCustomMessage E p (MsgPong n) s of
             (s1, Some e) \<Rightarrow> (s1, Some e) | (s1, None) \<Rightarrow> (touch E p s1, None))
      | MsgPong n \<Rightarrow> (touch E p (upd_peer p (\<lambda>q. q\<lparr>pongSeqno := n\<rparr>) s), None)
      | MsgCached m \<Rightarrow> handle_cached C T E proc p m s
      | MsgEncrypted m \<Rightarrow> handle_encrypted C T E proc p m s
      | MsgOther \<Rightarrow> (s, Some ErrUnsupportedMessage))"

section \<open>Keep-alive\<close>

definition SectionMaxInactiveSec :: int where "SectionMaxInactiveSec = 120"
definition PeerMaxInactiveSec :: int where "PeerMaxInactiveSec = 10"

definition tick_peer :: "env \<Rightarrow> ptr \<Rightarrow> 'a gateway_scheme \<Rightarrow> 'a gateway_scheme" where
  "tick_peer E p s =
     (let tm = now E; pe = peers s ! p
      in if references pe = 0 \<and> 10 < tm - CreatedAt pe then spawn (TaskKill p) s
         else let s1 = (if PeerMaxInactiveSec < tm - LastPacketFromAt pe \<and> PeerMaxInactiveSec < tm - DiscoveredAt pe
                        then closeConn p None s else s)
              in if getConn p s1 = None
                 then (if discoverInProgress (peers s1 ! p) then s1 else spawn (TaskDiscover p) s1)
                 else if 3 < tm - LastPingSentAt (peers s1 ! p)
                 then let s2 = upd_peer p (\<lambda>q. q\<lparr>LastPingSentAt := tm, pingSeqno := pingSeqno q + 1\<rparr>) s1
                      in fst (SendCustomMessage E p (MsgPing (pingSeqno (peers s2 ! p))) s2)
                 else s1)"

text \<open>
  The scan of the sections: which to close, which payment channels to close, and the removal
  of expired inactive channels. A section whose lock is taken is skipped.
\<close>

definition tick_section ::
  "env \<Rightarrow> ptr \<Rightarrow> 'a gateway_scheme \<times> ptr list \<times> ptr list \<Rightarrow> 'a gateway_scheme \<times> ptr list \<times> ptr list" where
  "tick_section E sp st =
     (case st of (s, secs, chans) \<Rightarrow>
        let s0 = emit (CallTryLock sp) s; tm = now E; sc = sec s0 sp
        in if \<not> try_lock E (outputs s0) sp then (s0, secs, chans)
           else if lastPacketAt sc < tm - SectionMaxInactiveSec then (s0, secs @ [sp], chans)
           else let expired = (\<lambda>v. chDeadline (channels s0 ! v) < tm);
                    active = (\<lambda>v. chActive (channels s0 ! v))
                in (upd_sec sp (\<lambda>q. q\<lparr>sec_payments := filter (\<lambda>(k, v). \<not> (expired v \<and> \<not> active v)) (sec_payments q)\<rparr>) s0,
                    secs, chans @ filter (\<lambda>v. expired v \<and> active v) (map snd (sec_payments sc))))"

definition tick :: "env \<Rightarrow> 'a gateway_scheme \<Rightarrow> 'a gateway_scheme" where
  "tick E s =
     (let s1 = fold (tick_peer E) (map snd (activePeers s)) s
      in case fold (tick_section E) (map snd (inboundSections s1)) (s1, [], []) of
           (s2, secs, chans) \<Rightarrow> fold closePaymentChannel chans (fold (drop_section E) secs s2))"

section \<open>Steps\<close>

primrec run_task :: "env \<Rightarrow> task \<Rightarrow> 'a gateway_scheme \<Rightarrow> 'a gateway_scheme" where
  "run_task E (TaskDiscover p) s = discover_start p s"
| "run_task E (TaskDiscoverFinish p) s = fst (discover_finish E p s)"
| "run_task E (TaskKill p) s = kill p s"
| "run_task E (TaskClosePayment v) s = closePaymentChannel v s"

datatype gw_event =
    EvMessage ptr net_msg
  | EvConnect bytes conn_atomic
  | EvDisconnect ptr nat
  | EvTick
  | EvDatagram ptr bytes u16 bytes
  | EvTask task

inductive gw_step ::
  "crypto \<Rightarrow> tlcodec \<Rightarrow> (env \<Rightarrow> 'a tunnel_proc) \<Rightarrow> env \<Rightarrow> gw_event \<Rightarrow> 'a gateway_scheme \<Rightarrow> 'a gateway_scheme \<Rightarrow> bool"
  for C T proc E where
  message: "peer_valid s p \<Longrightarrow> gw_step C T proc E (EvMessage p m) s (fst (messageHandler C T E (proc E) p m s))"
| connect: "gw_step C T proc E (EvConnect adnl c) s (snd (addPeer E adnl (Some c) s))"
| disconnect: "peer_valid s p \<Longrightarrow> gw_step C T proc E (EvDisconnect p h) s (closeConn p (Some h) s)"
| timer: "gw_step C T proc E EvTick s (tick E s)"
| datagram: "sec_valid s sp \<Longrightarrow> gw_step C T proc E (EvDatagram sp ip port data) s (Listen_packet C T E sp ip port data s)"
| async: "t \<in> set (pending s) \<Longrightarrow>
    gw_step C T proc E (EvTask t) s (run_task E t (s\<lparr>pending := remove1 t (pending s)\<rparr>))"

inductive gw_run ::
  "crypto \<Rightarrow> tlcodec \<Rightarrow> (env \<Rightarrow> 'a tunnel_proc) \<Rightarrow> gw_event list \<Rightarrow> 'a gateway_scheme \<Rightarrow> 'a gateway_scheme \<Rightarrow> bool"
  for C T proc where
  start: "gw_run C T proc [] s s"
| more: "gw_run C T proc evs s t \<Longrightarrow> gw_step C T proc E ev t u \<Longrightarrow> gw_run C T proc (evs @ [ev]) s u"

inductive_cases gw_step_cases: "gw_step C T proc E ev s s'"

section \<open>Sections are never deallocated\<close>

lemma len_fold: "(\<And>x t. length (sections (f x t)) = length (sections t)) \<Longrightarrow>
    length (sections (fold f xs s)) = length (sections s)"
  by (induction xs arbitrary: s) auto

lemma len_closePaymentChannel [simp]: "length (sections (closePaymentChannel v s)) = length (sections s)"
  by (simp add: closePaymentChannel_def Let_def)

lemma len_Route_Close [simp]: "length (sections (Route_Close r s)) = length (sections s)"
  by (simp add: Route_Close_def)

lemma len_close_section [simp]: "length (sections (close_section sp s)) = length (sections s)"
  by (simp add: close_section_def Let_def Out_Close_def len_fold split: option.split)

lemma len_drop_section [simp]: "length (sections (drop_section E sp s)) = length (sections s)"
  by (simp add: drop_section_def closeIfNotLocked_def Let_def)

lemma sections_Send: "SendCustomMessage E p m (t :: 'a gateway_scheme) = (u, e) \<Longrightarrow> sections u = sections t"
  using net_step_fields(11) [OF net_step_Send [of t E p m]] by simp

lemma len_Route [simp]: "length (sections (fst (Route_Route E sp rid pl c ins n s))) = length (sections s)"
proof (cases "map_of (routes (sec s sp)) rid")
  case (Some r)
  obtain s1 paid e where c: "(if 0 < tgtPrice (rTarget r) then charge_route E sp rid r s else (s, False, None)) = (s1, paid, e)"
    by (metis prod_cases3)
  have l1: "length (sections s1) = length (sections s)"
    using c by (auto simp: charge_route_def Let_def split: if_splits)
  obtain s2 e2 where s2: "SendCustomMessage E (tgtPeer (rTarget r)) (route_message (rTarget r) pl c ins n) s1 = (s2, e2)"
    by fastforce
  show ?thesis
    using l1 sections_Send [OF s2] by (simp add: Route_Route_def Some c s2 split: option.split)
qed (simp add: Route_Route_def)

lemma len_BuildRoute [simp]: "length (sections (fst (BuildRoute_Execute E sp adnl key rid price s))) = length (sections s)"
proof -
  obtain p t where "addPeer E adnl None s = (p, t)" by fastforce
  then show ?thesis using sections_addPeer [of E adnl None s p t]
    by (simp add: BuildRoute_Execute_def Let_def retarget_def split: option.split)
qed

lemma len_Cache [simp]: "length (sections (fst (Cache_Execute sp ver l s))) = length (sections s)"
  by (simp add: Cache_Execute_def split: sum.split)

lemma len_sendBack [simp]: "length (sections (fst (sendBack C T E sp obj b s))) = length (sections s)"
  by (simp add: sendBack_def Let_def split: option.split sum.split)

lemma len_bind_done [simp]: "length (sections (bind_done C T E sp s)) = length (sections s)"
  by (simp add: bind_done_def count_in_def Let_def split: option.split)

lemma len_BindOut [simp]: "length (sections (fst (BindOut_Execute C T E sp adnl key ins rc price s))) = length (sections s)"
proof -
  obtain p t where a: "addPeer E adnl None (emit CallListenPacket s) = (p, t)" by fastforce
  have r: "length (sections (rebind_out E sp ot adnl sk key ins pr s)) = length (sections s)" for ot sk pr
    using sections_addPeer [of E adnl None "Dereference (inboundPeer ot) s"]
    by (auto simp: rebind_out_def Let_def split: prod.split)
  show ?thesis using sections_addPeer [OF a]
    by (simp add: BindOut_Execute_def Let_def a r split: option.split)
qed

lemma len_Out_Send [simp]: "length (sections (fst (fst (Out_Send C T E sp st)))) = length (sections (fst st))"
  by (cases st) (simp add: Out_Send_def Let_def split: option.split prod.split sum.split payload.split)

lemma len_Listen [simp]: "length (sections (Listen_packet C T E sp ip port data s)) = length (sections s)"
  by (simp add: Listen_packet_def Let_def count_in_def split: option.split)

section \<open>The invariant over the instruction loops\<close>

text \<open>
  What the gateway relies on of a registered tunnel: processing a payload may send messages and
  change the tunnel's own state, but it touches no inbound section and no gauge and keeps the peers it finds.
\<close>

definition tunnel_ok :: "'a tunnel_proc \<Rightarrow> bool" where
  "tunnel_ok proc \<longleftrightarrow> (\<forall>t pl meta s. let s' = fst (proc t pl meta s) in
     (gw_inv s \<longrightarrow> gw_inv s') \<and> sections s' = sections s \<and> inboundSections s' = inboundSections s \<and>
     activePeers s' = activePeers s \<and> peer_ids s' = peer_ids s \<and> refs s' = refs s \<and>
     ActiveInboundSections s' = ActiveInboundSections s \<and> ActiveRoutes s' = ActiveRoutes s)"

definition sec_inv :: "ptr \<Rightarrow> 'a gateway_scheme \<times> bytes \<Rightarrow> bool" where
  "sec_inv sp st \<longleftrightarrow> gw_inv (fst st) \<and> sec_valid (fst st) sp"

lemma sec_inv_on_gateway:
  "sec_inv sp st \<Longrightarrow> gw_inv (fst (f (fst st))) \<Longrightarrow> length (sections (fst (f (fst st)))) = length (sections (fst st)) \<Longrightarrow>
     sec_inv sp (fst (on_gateway f st))"
  by (cases "f (fst st)") (simp add: sec_inv_def on_gateway_def sec_valid_def)

lemma sec_inv_deliver:
  assumes "tunnel_ok proc" "sec_inv sp st"
  shows "sec_inv sp (fst (deliver proc t meta st))"
proof -
  obtain s' buf e where p: "proc t (snd st) meta (fst st) = (s', buf, e)" by (metis prod_cases3)
  then have "gw_inv s'" "sections s' = sections (fst st)"
    using assms unfolding tunnel_ok_def sec_inv_def Let_def by (metis fst_conv)+
  with assms(2) p show ?thesis by (simp add: sec_inv_def deliver_def sec_valid_def)
qed

lemma sec_inv_SendOut: "sec_inv sp st \<Longrightarrow> sec_inv sp (fst (SendOut_Execute C T E sp st))"
  using gw_inv_Out_Send [of "fst st" sp C T E "snd st"]
  by (simp add: sec_inv_def SendOut_Execute_def sec_valid_def)

lemma sec_invD: "sec_inv sp st \<Longrightarrow> gw_inv (fst st)" "sec_inv sp st \<Longrightarrow> sec_valid (fst st) sp"
  by (simp_all add: sec_inv_def)

lemma sec_inv_Route:
  "sec_inv sp st \<Longrightarrow> sec_inv sp (fst (on_gateway (RouteInstruction_Execute E sp rid rest pl) st))"
  "sec_inv sp st \<Longrightarrow> sec_inv sp (fst (on_gateway (RouteCachedAction_Execute E sp rid n pl) st))"
  by (rule sec_inv_on_gateway; simp add: RouteInstruction_Execute_def RouteCachedAction_Execute_def
      gw_inv_Route sec_invD)+

lemma sec_inv_ops:
  assumes "sec_inv sp st"
  shows "sec_inv sp (fst (on_gateway (Destroy_Execute E sp) st))"
    "sec_inv sp (fst (on_gateway (Cache_Execute sp ver l) st))"
    "sec_inv sp (fst (on_gateway (BuildRoute_Execute E sp adnl key rid price) st))"
    "sec_inv sp (fst (on_gateway (Payment_Execute E sp key state purpose final) st))"
    "sec_inv sp (fst (on_gateway (BindOut_Execute C T E sp adnl key ins rc price) st))"
  using assms sec_invD [OF assms]
  by (simp_all add: sec_inv_on_gateway Destroy_Execute_def gw_inv_drop_section gw_inv_Cache gw_inv_BuildRoute
      gw_inv_Payment sections_length_Payment gw_inv_BindOut)

lemma Execute_inv:
  assumes "tunnel_ok proc" "sec_inv sp st"
  shows "sec_inv sp (fst (Execute C T E proc sp rest ins st))"
  using assms
  by (cases ins) (simp_all add: sec_inv_Route sec_inv_ops sec_inv_SendOut sec_inv_deliver split: option.split)

lemma Execute_cached_inv:
  assumes "tunnel_ok proc" "sec_inv sp st"
  shows "sec_inv sp (fst (Execute_cached C T E proc sp seqno a st))"
  using assms by (cases a) (simp_all add: sec_inv_Route sec_inv_SendOut sec_inv_deliver)

interpretation instr_loop: fallible_loop "Execute C T E proc sp rest" "\<lambda>_. tunnel_ok proc" "sec_inv sp"
  for C T E proc sp rest
  by unfold_locales (rule Execute_inv)

interpretation cached_loop: fallible_loop "Execute_cached C T E proc sp seqno" "\<lambda>_. tunnel_ok proc" "sec_inv sp"
  for C T E proc sp seqno
  by unfold_locales (rule Execute_cached_inv)

section \<open>The invariant over every step\<close>

lemma gw_inv_touch: "gw_inv s \<Longrightarrow> gw_inv (touch E p s)"
  unfolding touch_def by (rule gw_inv_net [OF _ net_keeps_upd_peer]) simp_all

lemma gw_inv_mark: "gw_inv s \<Longrightarrow> gw_inv (mark_packet E sp s)"
  unfolding mark_packet_def by (rule gw_inv_upd_sec) (auto simp: section_ok_def)

lemma gw_inv_finish: "sec_inv sp (fst r) \<Longrightarrow> gw_inv (fst (finish E p r))"
  by (auto simp: finish_def sec_inv_def gw_inv_touch split: prod.split option.split)

lemma checkSeqno_fields:
  assumes "checkSeqno sp n b s = (s1, ok)"
  shows "gw_inv s \<Longrightarrow> gw_inv s1" "sec_valid s1 q = sec_valid s q"
  using gw_inv_checkSeqno [of s sp n b] assms
  by (auto simp: checkSeqno_def sec_valid_def split: prod.splits if_splits)

lemma gw_inv_inbound: "gw_inv s \<Longrightarrow> map_of (inboundSections s) k = Some sp \<Longrightarrow> sec_valid s sp"
  by (simp add: gw_inv_def)

lemma gw_inv_handle_cached:
  assumes "tunnel_ok proc" "gw_inv s"
  shows "gw_inv (fst (handle_cached C T E proc p m s))"
proof (cases "map_of (inboundSections s) (cSectionPubKey m)")
  case (Some sp)
  obtain s1 ok where c: "checkSeqno sp (cSeqno m) True s = (s1, ok)" by fastforce
  note i = checkSeqno_fields [OF c]
  have "sec_inv sp (mark_packet E sp s1, cPayload m)"
    using i assms(2) gw_inv_inbound [OF assms(2) Some]
    by (simp add: sec_inv_def gw_inv_mark) (simp add: mark_packet_def sec_valid_def)
  then have "sec_inv sp (fst (run_until_err (Execute_cached C T E proc sp (cSeqno m)) as (mark_packet E sp s1, cPayload m)))" for as
    using assms(1) by (intro cached_loop.run_inv) (simp_all add: list_all_iff)
  then show ?thesis using i(1) assms(2)
    by (auto simp: handle_cached_def Some c split: bool.split intro: gw_inv_finish)
qed (simp add: handle_cached_def assms)

lemma section_ok_new: "section_ok ids nc (new_section E key shKey)"
  by (simp add: section_ok_def new_section_def)

lemma gw_inv_get_section:
  assumes "gw_inv s" "get_section C E p key s = (s1, res)"
  shows "gw_inv s1" "res = Inr sp \<Longrightarrow> sec_valid s1 sp"
proof -
  have new: "gw_inv (s\<lparr>sections := sections s @ [new_section E key shKey],
      inboundSections := mput key (length (sections s)) (inboundSections s), ActiveInboundSections := n\<rparr>)" for shKey n
    using assms(1) section_ok_new
    by (auto simp: gw_inv_def sec_valid_def table_wf_def peer_valid_def peer_ids_def gm.wf_put nth_append less_Suc_eq
        new_section_def split: if_splits)
  show "gw_inv s1" "res = Inr sp \<Longrightarrow> sec_valid s1 sp"
    using assms new gw_inv_inbound [OF assms(1)]
    by (auto simp: get_section_def sec_valid_def split: option.splits if_splits)
qed

lemma gw_inv_handle_encrypted:
  assumes "tunnel_ok proc" "gw_inv s"
  shows "gw_inv (fst (handle_encrypted C T E proc p m s))"
proof -
  obtain s1 res where g: "get_section C E p (msgSectionPubKey m) s = (s1, res)" by fastforce
  show ?thesis
  proof (cases res)
    case (Inl e)
    then show ?thesis using gw_inv_get_section(1) [OF assms(2) g] by (simp add: handle_encrypted_def g)
  next
    case (Inr sp)
    note i1 = gw_inv_get_section(1) [OF assms(2) g] gw_inv_get_section(2) [OF assms(2) g Inr]
    have body: "gw_inv (fst (case checkSeqno sp (Seqno cont) False s1 of
        (s2, False) \<Rightarrow> (s2, Some ErrRepeat)
      | (s2, True) \<Rightarrow> if 5 < length (List cont) then (s2, Some ErrTooManyInstructions)
          else finish E p (run_until_err (Execute C T E proc sp rest) (List cont) (mark_packet E sp s2, msgPayload m))))"
      for cont rest
    proof -
      obtain s2 ok where c: "checkSeqno sp (Seqno cont) False s1 = (s2, ok)" by fastforce
      note i = checkSeqno_fields [OF c]
      have "sec_inv sp (mark_packet E sp s2, msgPayload m)"
        using i i1 by (simp add: sec_inv_def gw_inv_mark) (simp add: mark_packet_def sec_valid_def)
      then have "sec_inv sp (fst (run_until_err (Execute C T E proc sp rest) (List cont) (mark_packet E sp s2, msgPayload m)))"
        using assms(1) by (intro instr_loop.run_inv) (simp_all add: list_all_iff)
      then show ?thesis using i(1) i1(1) by (auto simp: c split: bool.split intro: gw_inv_finish)
    qed
    show ?thesis
    proof (cases "decryptMessage C T (cipherKeyCrc (sec s1 sp)) (cipherKey (sec s1 sp)) (msgInstructions m)")
      case (Inl e)
      then show ?thesis using i1(1) by (simp add: handle_encrypted_def g Inr)
    next
      case dec: (Inr cr)
      obtain cont rest where "cr = (cont, rest)" by fastforce
      with body [of cont rest] dec show ?thesis by (simp add: handle_encrypted_def g Inr)
    qed
  qed
qed

lemma gw_inv_messageHandler:
  assumes "tunnel_ok proc" "gw_inv s"
  shows "gw_inv (fst (messageHandler C T E proc p m s))"
proof (cases m)
  case (MsgPing n)
  obtain s1 e where "SendCustomMessage E p (MsgPong n) s = (s1, e)" by fastforce
  with gw_inv_nets(6) [OF assms(2), of E p "MsgPong n"] show ?thesis
    by (auto simp: messageHandler_def MsgPing gw_inv_touch split: option.split)
next
  case (MsgPong n)
  have "gw_inv (upd_peer p (\<lambda>q. q\<lparr>pongSeqno := n\<rparr>) s)"
    by (rule gw_inv_net [OF assms(2) net_keeps_upd_peer]) simp
  then show ?thesis by (simp add: messageHandler_def MsgPong gw_inv_touch)
qed (simp_all add: messageHandler_def gw_inv_handle_cached gw_inv_handle_encrypted assms)

lemma gw_inv_tick_peer: "gw_inv s \<Longrightarrow> gw_inv (tick_peer E p s)"
proof -
  assume i: "gw_inv s"
  then have c: "gw_inv (if b then closeConn p None s else s)" for b by (simp add: gw_inv_nets)
  have "gw_inv (fst (SendCustomMessage E p msg (upd_peer p (\<lambda>q. q\<lparr>LastPingSentAt := n, pingSeqno := pingSeqno q + 1\<rparr>) t)))"
    if "gw_inv t" for n msg and t :: "'a gateway_scheme"
    by (rule gw_inv_nets(6), rule gw_inv_net [OF that net_keeps_upd_peer]) simp
  with i c show ?thesis by (simp add: tick_peer_def Let_def gw_inv_nets)
qed

lemma map_of_filter_val:
  "map_wf m \<Longrightarrow> map_of (filter (\<lambda>(k, v). P k v) m) k = Some v \<Longrightarrow> map_of m k = Some v"
  by (auto simp: map_wf_def dest!: map_of_SomeD)

lemma section_ok_filter:
  assumes "section_ok ids nc sc"
  shows "section_ok ids nc (sc\<lparr>sec_payments := filter (\<lambda>(k, v). Q v) (sec_payments sc)\<rparr>)"
proof -
  have w: "map_wf (sec_payments sc)" using assms by (simp add: section_ok_def)
  then have "map_wf (filter (\<lambda>(k, v). Q v) (sec_payments sc))" by (simp add: map_wf_def distinct_map_filter)
  moreover have "v < nc" if "map_of (filter (\<lambda>(k, v). Q v) (sec_payments sc)) k = Some v" for k v
    using map_of_filter_val [OF w that] assms by (simp add: section_ok_def)
  ultimately show ?thesis using assms by (simp add: section_ok_def)
qed

lemma gw_inv_tick_section: "gw_inv (fst st) \<Longrightarrow> gw_inv (fst (tick_section E sp st))"
proof -
  assume i: "gw_inv (fst st)"
  obtain s secs chans where st: "st = (s, secs, chans)" by (metis prod_cases3)
  have e: "gw_inv (emit (CallTryLock sp) s)" using i st by (simp add: gw_inv_nets)
  have "gw_inv (upd_sec sp (\<lambda>q. q\<lparr>sec_payments := filter (\<lambda>(k, v). Q v) (sec_payments q)\<rparr>) (emit (CallTryLock sp) s))" for Q
    using e by (rule gw_inv_upd_sec) (simp_all add: section_ok_filter)
  with e show ?thesis by (simp add: tick_section_def st Let_def)
qed

lemma fold_inv: "(\<And>x t. P t \<Longrightarrow> P (f x t)) \<Longrightarrow> P s \<Longrightarrow> P (fold f xs s)"
  by (induction xs arbitrary: s) auto

lemma gw_inv_tick: "gw_inv s \<Longrightarrow> gw_inv (tick E s)"
proof -
  assume i: "gw_inv s"
  define s1 where "s1 = fold (tick_peer E) (map snd (activePeers s)) s"
  have "gw_inv s1" unfolding s1_def using i gw_inv_tick_peer by (intro gw_inv_fold)
  then have "gw_inv (fst (fold (tick_section E) xs (s1, [], [])))" for xs
    by (intro fold_inv [where P = "\<lambda>st. gw_inv (fst st)"]) (simp_all add: gw_inv_tick_section)
  then show ?thesis
    by (auto simp: tick_def Let_def s1_def [symmetric] split: prod.split
        intro!: gw_inv_fold gw_inv_closePaymentChannel gw_inv_drop_section) (metis fst_conv)
qed

lemma gw_inv_pending: "gw_inv (s\<lparr>pending := ts\<rparr>) = gw_inv s"
  by (simp add: gw_inv_def sec_valid_def table_wf_def peer_valid_def peer_ids_def)

lemma gw_inv_run_task: "gw_inv s \<Longrightarrow> gw_inv (run_task E t s)"
  by (cases t) (simp_all add: gw_inv_nets gw_inv_closePaymentChannel)

lemma gw_inv_step:
  assumes "tunnel_ok (proc E)" "gw_step C T proc E ev s s'" "gw_inv s"
  shows "gw_inv s'"
  using assms(2,3)
  by cases (simp_all add: gw_inv_messageHandler assms(1) gw_inv_nets gw_inv_tick gw_inv_Listen gw_inv_run_task gw_inv_pending)

lemma gw_inv_run: "gw_run C T proc evs s s' \<Longrightarrow> \<forall>E. tunnel_ok (proc E) \<Longrightarrow> gw_inv s \<Longrightarrow> gw_inv s'"
  by (induction rule: gw_run.induct) (auto intro: gw_inv_step)

section \<open>What instructions leave alone\<close>

text \<open>
  The replay window and the keys of the section they run in; and a section leaves the table
  only by being destroyed.
\<close>

definition fixed_part :: "tun_section \<Rightarrow> seqno_window \<times> bytes \<times> u64 \<times> bytes" where
  "fixed_part sc = (sec_seqno sc, cipherKey sc, cipherKeyCrc sc, secKey sc)"

definition fixed :: "ptr \<Rightarrow> 'a gateway_scheme \<Rightarrow> 'a gateway_scheme \<Rightarrow> bool" where
  "fixed sp s s' \<longleftrightarrow> fixed_part (sec s' sp) = fixed_part (sec s sp) \<and>
     (\<forall>k q. map_of (inboundSections s') k = Some q \<longrightarrow> map_of (inboundSections s) k = Some q)"

lemma fixed_refl [simp]: "fixed sp s s"
  by (simp add: fixed_def)

lemma fixed_trans [trans]: "fixed sp s t \<Longrightarrow> fixed sp t u \<Longrightarrow> fixed sp s u"
  by (simp add: fixed_def)

lemma fixed_same: "sections s' = sections s \<Longrightarrow> inboundSections s' = inboundSections s \<Longrightarrow> fixed sp s s'"
  by (simp add: fixed_def)

lemma fixed_net: "net_step s s' \<Longrightarrow> fixed sp s s'"
  by (rule fixed_same) (simp_all add: net_step_fields)

lemma fixed_upd_sec: "fixed_part (f (sec s q)) = fixed_part (sec s q) \<Longrightarrow> fixed sp s (upd_sec q f s)"
  by (simp add: fixed_def)

lemma fixed_part_upd [simp]:
  "fixed_part (upd_route rid f sc) = fixed_part sc" "fixed_part (upd_out g sc) = fixed_part sc"
  by (simp_all add: fixed_part_def upd_route_def upd_out_def split: option.split)

lemma fixed_fold: "(\<And>x t. fixed sp t (f x t)) \<Longrightarrow> fixed sp s (fold f xs s)"
  by (induction xs arbitrary: s) (auto intro: fixed_trans)

lemma fixed_drop_section: "fixed sp s (drop_section E q s)"
proof -
  have c: "fixed sp t (closePaymentChannel v t)" "fixed sp t (Route_Close r t)" for v r and t :: "'a gateway_scheme"
    by (rule fixed_same; simp add: closePaymentChannel_def Route_Close_def Let_def)+
  have oc: "fixed sp t (Out_Close q ot t)" for ot and t :: "'a gateway_scheme"
  proof -
    let ?u = "upd_sec q (upd_out (\<lambda>x. x\<lparr>outClosed := True\<rparr>)) t"
    have "fixed sp t ?u" by (rule fixed_upd_sec) simp
    also have "fixed sp ?u (Out_Close q ot t)" by (rule fixed_same) (simp_all add: Out_Close_def)
    finally show ?thesis .
  qed
  have "fixed sp t (close_section q t)" for t :: "'a gateway_scheme"
  proof -
    let ?t1 = "fold closePaymentChannel (map snd (sec_payments (sec t q))) t"
    let ?t2 = "fold Route_Close (map snd (routes (sec t q))) ?t1"
    have "fixed sp t ?t1" by (rule fixed_fold [OF c(1)])
    also have "fixed sp ?t1 ?t2" by (rule fixed_fold [OF c(2)])
    also have "fixed sp ?t2 (close_section q t)"
    proof (cases "sec_out (sec t q)")
      case None
      then show ?thesis by (intro fixed_same) (simp_all add: close_section_def Let_def)
    next
      case (Some ot)
      have "fixed sp ?t2 (Out_Close q ot ?t2)" by (rule oc)
      also have "fixed sp (Out_Close q ot ?t2) (close_section q t)"
        by (rule fixed_same) (simp_all add: close_section_def Some Let_def)
      finally show ?thesis .
    qed
    finally show ?thesis .
  qed
  moreover have "fixed sp t (t\<lparr>inboundSections := mdel k (inboundSections t)\<rparr>)" for k and t :: "'a gateway_scheme"
    by (simp add: fixed_def)
  moreover have "fixed sp s (emit c s)" for c by (rule fixed_net) simp
  ultimately have "fixed sp s (emit c s)"
      "fixed sp s (close_section q (emit c s)\<lparr>inboundSections := mdel k (inboundSections (close_section q (emit c s)))\<rparr>)" for c k
    by (blast intro: fixed_trans)+
  then show ?thesis by (simp add: drop_section_def closeIfNotLocked_def Let_def)
qed

lemma fixed_Send: "SendCustomMessage E p m s = (t, e) \<Longrightarrow> fixed sp s t"
  using fixed_net [OF net_step_Send [of s E p m]] by simp

lemma fixed_addPeer: "addPeer E adnl c s = (p, t) \<Longrightarrow> fixed sp s t"
  using fixed_net [OF net_step_addPeer [of s E adnl c]] by simp

lemma fixed_Route: "fixed sp s (fst (Route_Route E q rid pl c ins n s))"
proof (cases "map_of (routes (sec s q)) rid")
  case (Some r)
  obtain s1 paid e where c: "(if 0 < tgtPrice (rTarget r) then charge_route E q rid r s else (s, False, None)) = (s1, paid, e)"
    by (metis prod_cases3)
  have u: "fixed sp t (upd_sec q (upd_route rid f) t)" for f and t :: "'a gateway_scheme"
    by (rule fixed_upd_sec) simp
  have "fixed sp s s1"
    using c u [of s] fixed_trans [OF u [of s] fixed_net [OF net_step_emit]] fixed_net [OF net_step_emit [of s]]
    by (auto simp: charge_route_def Let_def split: if_splits)
  also obtain s2 e2 where s2: "SendCustomMessage E (tgtPeer (rTarget r)) (route_message (rTarget r) pl c ins n) s1 = (s2, e2)"
    by fastforce
  then have "fixed sp s1 s2" by (rule fixed_Send)
  finally have f2: "fixed sp s s2" .
  have "fixed sp s2 (upd_sec q (upd_route rid f) (s2\<lparr>statsRouted := k\<rparr>))" for f k
    by (rule fixed_trans [OF fixed_same u]) simp_all
  with f2 \<open>fixed sp s s1\<close> u [of s2] show ?thesis
    by (auto simp: Route_Route_def Some c s2 split: option.split intro: fixed_trans)
qed (simp add: Route_Route_def)

lemma fixed_BuildRoute: "fixed sp s (fst (BuildRoute_Execute E q adnl key rid price s))"
proof -
  obtain p t where a: "addPeer E adnl None s = (p, t)" by fastforce
  note f = fixed_addPeer [OF a]
  have "fixed sp t (retarget q rid r target t)" for r target
    by (auto simp: fixed_def retarget_def move_gauge_def Let_def)
  moreover have "fixed sp t (gauge_routes b d (upd_sec q (\<lambda>sc. sc\<lparr>routes := mput rid x (routes sc)\<rparr>) (AddReference p t)))" for b d x
    by (simp add: fixed_def fixed_part_def)
  ultimately have "fixed sp s (retarget q rid r target t)"
      "fixed sp s (gauge_routes b d (upd_sec q (\<lambda>sc. sc\<lparr>routes := mput rid x (routes sc)\<rparr>) (AddReference p t)))"
    for r target b d x
    using f by (blast intro: fixed_trans)+
  with f show ?thesis by (simp add: BuildRoute_Execute_def a Let_def split: option.split)
qed

lemma fixed_Cache: "fixed sp s (fst (Cache_Execute q ver l s))"
  by (auto simp: Cache_Execute_def fixed_part_def split: sum.split intro!: fixed_upd_sec)

lemma fixed_Payment: "fixed sp s (fst (Payment_Execute E q key state purpose final s))"
proof -
  have m: "fixed sp t (fst (apply_mutation q amt m t))" for amt m and t :: "'a gateway_scheme"
    by (auto simp: apply_mutation_def Let_def split: mutation.split option.split intro!: fixed_upd_sec)
  have ld: "fixed sp s (fst (load_channel E q key purpose s))"
    by (auto simp: load_channel_def Let_def fixed_def fixed_part_def split: option.split)
  have pr: "fixed sp t u" if "process_payment E q key st purpose final v fresh t = (u, e)"
    for st v fresh e and t u :: "'a gateway_scheme"
    using that
  proof (cases rule: process_payment_cases)
    case idle
    show ?thesis
    proof (rule fixed_same)
      show "inboundSections u = inboundSections t"
        using that by (auto simp: process_payment_def apply_mutation_def Let_def
            split: if_splits sum.splits option.splits prod.splits mutation.splits)
    qed (simp add: idle)
  next
    case (accepted m w)
    have "fixed sp t (emit (CallAddResolve key st) t)" by (rule fixed_net) simp
    also have "fixed sp (emit (CallAddResolve key st) t) w" using m accepted(5) by (metis fst_conv)
    also have "fixed sp w u" using accepted(6) by (intro fixed_same) (simp_all add: Let_def)
    finally show ?thesis .
  qed
  obtain s1 res where l: "load_channel E q key purpose s = (s1, res)" by fastforce
  have "fixed sp s1 (fst (process_payment E q key st purpose final v fresh s1))" for st v fresh
    using pr [of st v fresh s1] by (metis prod.collapse)
  with ld l show ?thesis
    by (cases res) (auto simp: Payment_Execute_def split: option.split intro: fixed_trans)
qed

lemma fixed_sendBack: "fixed sp s (fst (sendBack C T E q obj b s))"
proof -
  have "fixed sp s (upd_sec q (upd_out f) s)" for f by (rule fixed_upd_sec) simp
  then have "fixed sp s (fst (SendCustomMessage E p m (upd_sec q (upd_out f) s)))" for p m f
    by (rule fixed_trans [OF _ fixed_net [OF net_step_Send]])
  moreover have "fixed sp s (fst (SendCustomMessage E p m s))" for p m by (rule fixed_net) simp
  ultimately show ?thesis by (simp add: sendBack_def Let_def split: option.split sum.split)
qed

lemma fixed_count_in: "fixed sp s (count_in q s)"
  unfolding count_in_def by (rule fixed_upd_sec) simp

lemma fixed_bind_done: "fixed sp s (bind_done C T E q s)"
  by (auto simp: bind_done_def Let_def split: option.split
      intro: fixed_count_in fixed_trans [OF fixed_count_in fixed_sendBack])

lemma fixed_BindOut: "fixed sp s (fst (BindOut_Execute C T E q adnl key ins rc price s))"
proof -
  obtain p t where a: "addPeer E adnl None (emit CallListenPacket s) = (p, t)" by fastforce
  have l: "fixed sp s (emit CallListenPacket s)" by (rule fixed_net) simp
  have n: "fixed sp t (AddReference p (gauge_outs b d (upd_sec q (\<lambda>sc. sc\<lparr>sec_out := x\<rparr>) t)))" for b d x
    by (simp add: fixed_def fixed_part_def)
  have r: "fixed sp s (rebind_out E q ot adnl sk key ins pr s)" for ot sk pr
  proof -
    obtain p2 t2 where a2: "addPeer E adnl None (Dereference (inboundPeer ot) s) = (p2, t2)" by fastforce
    have "fixed sp s t2"
      by (rule fixed_trans [OF fixed_net fixed_addPeer [OF a2]]) simp
    then have "fixed sp s (upd_sec q (upd_out f) (AddReference p2 t2))" for f
      by (rule fixed_trans) (simp add: fixed_def)
    moreover have "fixed sp s (upd_sec q (upd_out f) s)" for f by (rule fixed_upd_sec) simp
    ultimately show ?thesis by (simp add: rebind_out_def Let_def a2)
  qed
  have "fixed sp s (bind_done C T E q (AddReference p (gauge_outs b d (upd_sec q (\<lambda>sc. sc\<lparr>sec_out := x\<rparr>) t))))" for b d x
    by (rule fixed_trans [OF l fixed_trans [OF fixed_addPeer [OF a] fixed_trans [OF n fixed_bind_done]]])
  with l fixed_trans [OF r fixed_bind_done] show ?thesis
    by (simp add: BindOut_Execute_def Let_def a split: option.split)
qed

lemma fixed_Out_Send: "fixed sp (fst st) (fst (fst (Out_Send C T E q st)))"
  by (cases st) (simp add: Out_Send_def Let_def fixed_def split: option.split prod.split sum.split payload.split)

lemma fixed_deliver: "tunnel_ok proc \<Longrightarrow> fixed sp (fst st) (fst (fst (deliver proc t meta st)))"
proof -
  assume ok: "tunnel_ok proc"
  obtain s' buf e where p: "proc t (snd st) meta (fst st) = (s', buf, e)" by (metis prod_cases3)
  then have "sections s' = sections (fst st)" "inboundSections s' = inboundSections (fst st)"
    using ok unfolding tunnel_ok_def Let_def by (metis fst_conv)+
  then show ?thesis by (simp add: deliver_def p fixed_same)
qed

lemma fst_on_gateway: "fst (fst (on_gateway f st)) = fst (f (fst st))"
  by (simp add: on_gateway_def split: prod.split)

lemma fixed_Execute: "tunnel_ok proc \<Longrightarrow> fixed sp (fst st) (fst (fst (Execute C T E proc q rest ins st)))"
  by (cases ins) (simp_all add: fst_on_gateway Destroy_Execute_def fixed_drop_section fixed_Cache fixed_BuildRoute
      fixed_Payment fixed_BindOut RouteInstruction_Execute_def fixed_Route SendOut_Execute_def fixed_Out_Send
      fixed_deliver split: option.split)

lemma fixed_run:
  assumes "tunnel_ok proc"
  shows "fixed sp (fst st) (fst (fst (run_until_err (Execute C T E proc q rest) xs st)))"
proof (induction xs arbitrary: st)
  case (Cons x xs)
  obtain st' e where "Execute C T E proc q rest x st = (st', e)" by fastforce
  with fixed_Execute [OF assms, of sp st C T E q rest x] Cons [of st'] show ?case
    by (auto split: option.split intro: fixed_trans)
qed simp

end
