(* ===== verification/Gateway_Safety.thy ===== *)
theory Gateway_Safety
  imports Gateway
begin

text \<open>
  Properties of the running gateway: the invariant in every reachable state, replay safety of
  the message handler, and the behaviours in which the code
  fails (a panic that any peer can cause, double release, the race of the asynchronous kill).
\<close>

unbundle bit_operations_syntax

section \<open>The window at the handler\<close>

lemma check_window_rejects: "check_window n w = (w', False) \<Longrightarrow> w' = w"
  by (auto simp: check_window_def Let_def split: if_splits)

lemma check_window_again:
  assumes "check_window n w = (w', True)"
  shows "check_window n w' = (w', False)"
proof (cases "overflowed n w \<or> latest w < n")
  case True
  then have "latest w' = n" using assms by (auto simp: check_window_def Let_def split: if_splits)
  then show ?thesis by (simp add: check_window_def overflowed_def)
next
  case False
  let ?d = "unat (latest w - n)"
  let ?i = "?d div 64" let ?b = "63 - ?d mod 64"
  from False assms have n: "n \<noteq> latest w" "?d < totalBits w"
    and w': "w' = w\<lparr>window := (window w)[?i := window w ! ?i OR push_bit ?b 1]\<rparr>"
    by (auto simp: check_window_def Let_def split: if_splits)
  have i: "?i < length (window w)" using n(2) by (simp add: totalBits_def less_mult_imp_div_less)
  have "bit (window w ! ?i OR push_bit ?b 1) ?b" by (simp add: bit_or_iff bit_single del: push_bit_of_1)
  then have "drop_bit ?b (window w' ! ?i) AND 1 \<noteq> 0"
    unfolding wbit_test using i by (simp add: w' del: push_bit_of_1)
  moreover have "\<not> overflowed n w'" "\<not> latest w' < n" "latest w' = latest w" "totalBits w' = totalBits w"
    using False by (simp_all add: w' overflowed_def totalBits_def)
  ultimately show ?thesis using n by (simp add: check_window_def Let_def)
qed

lemma checkSeqno_uncached:
  assumes "sec_valid s sp" "check_window n (sec_seqno (sec s sp)) = (w, ok)"
  shows "checkSeqno sp n False s = (upd_sec sp (\<lambda>sc. sc\<lparr>sec_seqno := w\<rparr>) s, ok)"
  by (simp add: checkSeqno_def assms(2))

lemma upd_sec_same: "sec_seqno (sec s sp) = w \<Longrightarrow> upd_sec sp (\<lambda>sc. sc\<lparr>sec_seqno := w\<rparr>) s = s"
  by (rule upd_sec_id) simp

text \<open>A message whose number the section knows changes nothing.\<close>

lemma repeated_ignored:
  assumes "sec_valid s sp" "map_of (inboundSections s) (msgSectionPubKey m) = Some sp"
    and "decryptMessage C T (cipherKeyCrc (sec s sp)) (cipherKey (sec s sp)) (msgInstructions m) = Inr (cont, rest)"
    and "check_window (Seqno cont) (sec_seqno (sec s sp)) = (w, False)"
  shows "handle_encrypted C T E proc p m s = (s, Some ErrRepeat)"
proof -
  have "w = sec_seqno (sec s sp)" using check_window_rejects [OF assms(4)] .
  then have "checkSeqno sp (Seqno cont) False s = (s, False)"
    using checkSeqno_uncached [OF assms(1,4)] upd_sec_same [of s sp w] by simp
  then show ?thesis using assms(2,3) by (simp add: handle_encrypted_def get_section_def)
qed

section \<open>One message\<close>

lemma handle_encrypted_ok:
  assumes "tunnel_ok proc" "gw_inv s" "handle_encrypted C T E proc p m s = (s', None)"
    and "map_of (inboundSections s') (msgSectionPubKey m) = Some sp"
  shows "sec_valid s' sp \<and> (\<exists>cont rest. length (List cont) \<le> 5 \<and>
    decryptMessage C T (cipherKeyCrc (sec s' sp)) (cipherKey (sec s' sp)) (msgInstructions m) = Inr (cont, rest) \<and>
    check_window (Seqno cont) (sec_seqno (sec s' sp)) = (sec_seqno (sec s' sp), False))"
proof -
  obtain s1 q where g: "get_section C E p (msgSectionPubKey m) s = (s1, Inr q)"
    using assms(3) by (fastforce simp: handle_encrypted_def split: prod.splits sum.splits)
  have v: "sec_valid s1 q" and q: "map_of (inboundSections s1) (msgSectionPubKey m) = Some q"
    using gw_inv_get_section(2) [OF assms(2) g] g by (auto simp: get_section_def split: option.splits if_splits)
  obtain cont rest where d: "decryptMessage C T (cipherKeyCrc (sec s1 q)) (cipherKey (sec s1 q)) (msgInstructions m) = Inr (cont, rest)"
    using assms(3) g by (fastforce simp: handle_encrypted_def split: sum.splits)
  obtain w ok where w: "check_window (Seqno cont) (sec_seqno (sec s1 q)) = (w, ok)" by fastforce
  let ?s2 = "upd_sec q (\<lambda>sc. sc\<lparr>sec_seqno := w\<rparr>) s1"
  let ?run = "run_until_err (Execute C T E proc q rest) (List cont) (mark_packet E q ?s2, msgPayload m)"
  have ok: "ok" "length (List cont) \<le> 5" and fin: "finish E p ?run = (s', None)"
    using assms(3) g d checkSeqno_uncached [OF v w] by (auto simp: handle_encrypted_def not_less split: if_splits bool.splits)
  have "fixed q (mark_packet E q ?s2) (fst (fst ?run))"
    using fixed_run [OF assms(1), of q "(mark_packet E q ?s2, msgPayload m)"] by simp
  moreover have "sections s' = sections (fst (fst ?run))" "inboundSections s' = inboundSections (fst (fst ?run))"
    using fin by (auto simp: finish_def touch_def split: prod.splits option.splits)
  ultimately have f: "fixed_part (sec s' q) = fixed_part (sec ?s2 q)"
      "\<And>k x. map_of (inboundSections s') k = Some x \<Longrightarrow> map_of (inboundSections s1) k = Some x"
    by (auto simp: fixed_def mark_packet_def fixed_part_def)
  with assms(4) q have sp: "sp = q" by fastforce
  have "gw_inv s'" using gw_inv_handle_encrypted [OF assms(1,2), of C T E p m] assms(3) by simp
  then have "sec_valid s' q" using gw_inv_inbound assms(4) sp by blast
  moreover have "sec_seqno (sec s' q) = w" "cipherKey (sec s' q) = cipherKey (sec s1 q)"
      "cipherKeyCrc (sec s' q) = cipherKeyCrc (sec s1 q)"
    using f(1) v by (simp_all add: fixed_part_def sec_valid_def)
  ultimately show ?thesis using d ok check_window_again w by (auto simp: sp)
qed

section \<open>Properties\<close>


definition no_tunnel :: "'a tunnel_proc" where
  "no_tunnel t payload meta s = (s, payload, None)"

lemma no_tunnel_ok: "tunnel_ok no_tunnel"
  by (simp add: tunnel_ok_def no_tunnel_def)



text \<open>Messages for the section of the example gateway.\<close>

lemma demo_message:
  assumes "instrs \<noteq> []" "list_all (\<lambda>i. i \<in> {DestroyInstruction, SendOutInstruction, DeliverInstruction}) instrs" "length instrs < 10"
  obtains m :: encrypted_message where "msgSectionPubKey m = [5]"
    "decryptMessage demo_crypto demo_tl 77 [6] (msgInstructions m) = Inr (\<lparr>Seqno = 5, List = instrs\<rparr>, [])"
proof -
  let ?k = "(demo_key 6)\<lparr>SectionPubKey := [5]\<rparr>"
  let ?m0 = "\<lparr>msgSectionPubKey = [], msgInstructions = [], msgPayload = [1, 2]\<rparr>"
  have ser: "\<exists>bs. serialize_list demo_tl is = Inr bs"
    if "list_all (\<lambda>i. i \<in> {DestroyInstruction, SendOutInstruction, DeliverInstruction}) is" for "is"
    using that by (induction "is") (auto simp: demo_tl_def demo_body_def)
  obtain bs where bs: "serialize_list demo_tl instrs = Inr bs" using ser [OF assms(2)] by blast
  obtain m where m: "snd (EncryptInstructionsMessage demo_crypto demo_tl (Some 1) ?k ?m0 instrs) = Inr m"
    using assms(1)
    by (simp add: EncryptInstructionsMessage_def InstructionsContainer_Serialize_def bs encryptStream_def demo_crypto_def Let_def)
  have s: "list_all short_lists instrs" using assms(2) by (auto simp: list_all_iff)
  from decrypt_layer [OF demo_tl_laws m _ s] assms(3) that show thesis by (simp add: demo_key_def)
qed


text \<open>
  A remote panic: for any section without an out gateway, a well-formed instruction message
  that contains just \<open>SendOut\<close> reaches the nil out and panics in the message handler. Sections are
  created for whoever sends a message, so every peer can do this.
\<close>

lemma sendout_without_out_panics:
  assumes "gw_inv s" "allowOut s" "map_of (inboundSections s) (msgSectionPubKey m) = Some sp" "sec_out (sec s sp) = None"
    and "decryptMessage C T (cipherKeyCrc (sec s sp)) (cipherKey (sec s sp)) (msgInstructions m)
           = Inr (\<lparr>Seqno = n, List = [SendOutInstruction]\<rparr>, rest)"
    and "snd (check_window n (sec_seqno (sec s sp)))"
  shows "snd (messageHandler C T E proc p (MsgEncrypted m) s) = Some PanicNil"
proof -
  obtain w where w: "check_window n (sec_seqno (sec s sp)) = (w, True)" using assms(6) by (metis prod.collapse)
  have v: "sec_valid s sp" by (rule gw_inv_inbound [OF assms(1,3)])
  have "sec_out (sec (mark_packet E sp (upd_sec sp (\<lambda>sc. sc\<lparr>sec_seqno := w\<rparr>) s)) sp) = None"
    using assms(4) v by (simp add: mark_packet_def sec_valid_def)
  moreover have "allowOut (mark_packet E sp (upd_sec sp (\<lambda>sc. sc\<lparr>sec_seqno := w\<rparr>) s))"
    using assms(2) by (simp add: mark_packet_def)
  ultimately show ?thesis using assms(3,5)
    by (simp add: messageHandler_def handle_encrypted_def get_section_def checkSeqno_uncached [OF v w]
        SendOut_Execute_def Out_Send_def finish_def)
qed

definition no_out_gw :: gateway where
  "no_out_gw = demo_gw\<lparr>sections := [demo_section\<lparr>sec_out := None\<rparr>]\<rparr>"

lemma sendout_without_out_panics_witness:
  "\<exists>m. snd (messageHandler demo_crypto demo_tl demo_env no_tunnel 0 (MsgEncrypted m) no_out_gw) = Some PanicNil"
proof -
  obtain m :: encrypted_message where m: "msgSectionPubKey m = [5]"
    "decryptMessage demo_crypto demo_tl 77 [6] (msgInstructions m) = Inr (\<lparr>Seqno = 5, List = [SendOutInstruction]\<rparr>, [])"
    by (rule demo_message [of "[SendOutInstruction]"]) auto
  have i: "gw_inv no_out_gw"
    using demo_section_ok
    by (auto simp: no_out_gw_def gw_inv_def table_wf_def map_wf_def sec_valid_def peer_valid_def demo_section_def
        section_ok_def peer_ids_def demo_gw_def new_peer_def NewGateway_def)
  have f: "allowOut no_out_gw" "inboundSections no_out_gw = [([5], 0)]" "sec no_out_gw 0 = demo_section\<lparr>sec_out := None\<rparr>"
    by (simp_all add: no_out_gw_def)
  have c: "cipherKey demo_section = [6]" "cipherKeyCrc demo_section = 77" "sec_seqno demo_section = empty_window"
    by (simp_all add: demo_section_def)
  have w: "snd (check_window 5 empty_window)"
    by (simp add: check_window_def overflowed_def empty_window_def Let_def)
  have "snd (messageHandler demo_crypto demo_tl demo_env no_tunnel 0 (MsgEncrypted m) no_out_gw) = Some PanicNil"
    by (rule sendout_without_out_panics [OF i f(1), where sp = 0 and n = 5 and rest = "[]"]) (simp_all add: f m c w)
  then show ?thesis by blast
qed

text \<open>Two sections whose routes share one peer, which therefore has two references.\<close>

definition shared_gw :: gateway where
  "shared_gw = demo_gw\<lparr>
     sections := [demo_section\<lparr>sec_out := None\<rparr>, demo_section\<lparr>sec_out := None, secKey := [55]\<rparr>],
     inboundSections := [([5], 0), ([55], 1)], ActiveInboundSections := 2, ActiveRoutes := (\<lambda>b. if b then 2 else 0)\<rparr>"

lemma shared_gw_inv: "gw_inv shared_gw"
  using demo_section_ok
  by (auto simp: shared_gw_def gw_inv_def table_wf_def map_wf_def sec_valid_def peer_valid_def demo_section_def
      section_ok_def peer_ids_def demo_gw_def new_peer_def NewGateway_def less_Suc_eq nth_Cons')

lemma shared_gw_fields [simp]:
  "sections shared_gw = [demo_section\<lparr>sec_out := None\<rparr>, demo_section\<lparr>sec_out := None, secKey := [55]\<rparr>]"
  "inboundSections shared_gw = [([5], 0), ([55], 1)]" "outputs shared_gw = []" "channels shared_gw = []"
  "refs shared_gw 0 = 2" "peer_valid shared_gw 0" "activePeers shared_gw = [([1], 0)]"
  "peer_id (peers shared_gw ! 0) = [1]" "ActiveInboundSections shared_gw = 2"
  by (simp_all add: shared_gw_def refs_def demo_gw_def new_peer_def NewGateway_def peer_valid_def)

text \<open>
  Closing a section releases its peers and lowers the gauge every time it is done: nothing marks
  the section as closed.
\<close>

lemma refs_frame [simp]:
  "refs (gauge_routes b d s) = refs s" "refs (gauge_outs b d s) = refs s" "refs (upd_sec sp f s) = refs s"
  "refs (upd_chan v g s) = refs s" "refs (ActiveInboundSections_update h s) = refs s"
  "refs (inboundSections_update k s) = refs s" "refs (statsRouted_update j s) = refs s"
  "peer_valid (gauge_routes b d s) = peer_valid s" "peer_valid (gauge_outs b d s) = peer_valid s"
  "peer_valid (upd_sec sp f s) = peer_valid s" "peer_valid (upd_chan v g s) = peer_valid s"
  "peer_valid (ActiveInboundSections_update h s) = peer_valid s" "peer_valid (inboundSections_update k s) = peer_valid s"
  "peer_valid (emit c s) = peer_valid s" "refs (emit c s) = refs s" "peer_valid (Dereference p s) = peer_valid s"
  by (simp_all add: refs_def peer_valid_def fun_eq_iff peer_simps)

lemma demo_section_parts [simp]:
  "routes demo_section = [(7, demo_route)]" "sec_payments demo_section = []" "secKey demo_section = [5]"
  by (simp_all add: demo_section_def)

lemma drop_shared:
  assumes "sections s = sections shared_gw"
  shows "drop_section demo_env 0 s = (let t = gauge_routes True (- 1) (Dereference 0 (emit (CallTryLock 0) s))
     in t\<lparr>ActiveInboundSections := ActiveInboundSections t - 1, inboundSections := mdel [5] (inboundSections t)\<rparr>)"
  by (simp add: drop_section_def closeIfNotLocked_def close_section_def assms Route_Close_def Let_def demo_route_def
      demo_env_def)

text \<open>
  Destroying a section twice in one message releases its peers twice: the second release
  takes the reference of another section, whose route is left with a peer that was closed and
  removed from the table, and the gauge of active sections counts one section too few.
\<close>

lemma double_destroy_breaks_other_section:
  "let s' = fst (fst (run_until_err (Execute demo_crypto demo_tl demo_env no_tunnel 0 [])
       [DestroyInstruction, DestroyInstruction] (shared_gw, [])))
   in map_of (inboundSections s') [55] = Some 1 \<and> tgtPeer (rTarget (the (map_of (routes (sec s' 1)) 7))) = 0 \<and>
      refs s' 0 = 0 \<and> map_of (activePeers s') [1] = None \<and> ActiveInboundSections s' = 0"
proof -
  let ?s1 = "drop_section demo_env 0 shared_gw"
  let ?e1 = "emit (CallTryLock 0) shared_gw" let ?e2 = "emit (CallTryLock 0) ?s1"
  have s1: "sections ?s1 = sections shared_gw" "refs ?s1 0 = 1" "peer_valid ?s1 0" "inboundSections ?s1 = [([55], 1)]"
      "activePeers ?s1 = [([1], 0)]" "ActiveInboundSections ?s1 = 1" "peer_id (peers ?s1 ! 0) = [1]"
    using peer_refs.count_release [of ?e1 0 0] activePeers_Dereference [of ?e1 0]
    by (simp_all add: drop_shared Let_def i64_def peer_simps)
  note r = drop_shared [OF s1(1)]
  have "refs (drop_section demo_env 0 ?s1) 0 = 0" "map_of (activePeers (drop_section demo_env 0 ?s1)) [1] = None"
      "sections (drop_section demo_env 0 ?s1) = sections shared_gw"
      "inboundSections (drop_section demo_env 0 ?s1) = [([55], 1)]" "ActiveInboundSections (drop_section demo_env 0 ?s1) = 0"
    using peer_refs.count_release [of ?e2 0 0] activePeers_Dereference [of ?e2 0] s1
    by (simp_all add: r Let_def i64_def peer_simps)
  then show ?thesis by (simp add: Let_def on_gateway_def Destroy_Execute_def demo_route_def)
qed

text \<open>A connected peer that nothing refers to yet, seen by the keep-alive loop after 100 seconds.\<close>

definition idle_gw :: gateway where
  "idle_gw = demo_gw\<lparr>
     peers := [(new_peer demo_env [1])\<lparr>peer_conn := Some \<lparr>conn_addr = ''a'', conn_handle = 3\<rparr>, CreatedAt := 900\<rparr>],
     sections := [demo_section\<lparr>sec_out := None, routes := [], cachedActions := []\<rparr>]\<rparr>"

text \<open>
  The asynchronous kill of an unreferenced peer is not checked again when it runs: a route
  built between the keep-alive check and the kill holds a peer (one reference) that is then
  disconnected and removed from the table. Packets of the route fail, and the keep-alive loop,
  which walks the table, never reconnects the peer.
\<close>

lemma kill_race:
  "let s1 = tick_peer demo_env 0 idle_gw;
       s2 = fst (BuildRoute_Execute demo_env 0 [1] [42] 7 0 s1);
       s3 = run_task demo_env (TaskKill 0) s2
   in TaskKill 0 \<in> set (pending s2) \<and> refs s3 0 = 1 \<and>
      map_option (tgtPeer \<circ> rTarget) (map_of (routes (sec s3 0)) 7) = Some 0 \<and>
      map_of (activePeers s3) [1] = None \<and>
      snd (Route_Route demo_env 0 7 [8] False [] 0 s3) = Some ErrNotConnected"
proof -
  have idle: "peers idle_gw = [(new_peer demo_env [1])\<lparr>peer_conn := Some \<lparr>conn_addr = ''a'', conn_handle = 3\<rparr>, CreatedAt := 900\<rparr>]"
    "sections idle_gw = [demo_section\<lparr>sec_out := None, routes := [], cachedActions := []\<rparr>]"
    "activePeers idle_gw = [([1], 0)]" "allowRouting idle_gw" "MinPricePerPacketRoute idle_gw = 0" "pending idle_gw = []"
    by (simp_all add: idle_gw_def)
  have t: "tick_peer demo_env 0 idle_gw = spawn (TaskKill 0) idle_gw"
    by (simp add: tick_peer_def idle new_peer_def demo_env_def)
  let ?r = "new_route 7 \<lparr>tgtPeer = 0, tgtADNL = [1], tgtSectionKey = [42], tgtPrice = 0\<rparr>"
  let ?s2 = "gauge_routes False 1 (upd_sec 0 (\<lambda>sc. sc\<lparr>routes := mput 7 ?r (routes sc)\<rparr>)
      (AddReference 0 (spawn (TaskDiscover 0) (spawn (TaskKill 0) idle_gw))))"
  have s2: "BuildRoute_Execute demo_env 0 [1] [42] 7 0 (spawn (TaskKill 0) idle_gw) = (?s2, None)"
    by (simp add: BuildRoute_Execute_def addPeer_def lookup_or_new_def idle peer_simps MaxActiveRoutesPerSection_def)
  have p2: "peers ?s2 = [(new_peer demo_env [1])\<lparr>peer_conn := Some \<lparr>conn_addr = ''a'', conn_handle = 3\<rparr>, CreatedAt := 900, references := 1\<rparr>]"
    by (simp add: AddReference_def peer_simps idle hupd_def new_peer_def i64_def)
  have "refs (kill 0 ?s2) 0 = 1" "getConn 0 (kill 0 ?s2) = None" "map_of (activePeers (kill 0 ?s2)) [1] = None"
    by (simp_all add: kill_def remove_peer_def closeConn_def getConn_def refs_def peer_simps p2 hupd_def
        AddReference_def new_peer_def idle i64_def)
  moreover have "map_of (routes (sec (kill 0 ?s2) 0)) 7 = Some ?r" by (simp add: idle hupd_def)
  moreover have "TaskKill 0 \<in> set (pending ?s2)" by (simp add: AddReference_def peer_simps)
  ultimately show ?thesis
    by (simp add: Let_def t s2 Route_Route_def new_route_def SendCustomMessage_def)
qed

end
