(* ===== verification/Section_Frames.thy ===== *)
theory Section_Frames
  imports Gateway_Safety
begin

text \<open>
  What the gateway does to a view of its sections. Several properties watch one part of a section
  (the peers it holds, the prices of its routes) and a quantity that must agree with it (reference
  counters, gauges). The locale \<open>section_frame\<close> states what a relation "nothing watched has changed"
  must allow, and proves it for every operation that builds, changes and closes nothing watched. The
  locale \<open>section_account\<close> adds an invariant that such steps keep, with its laws for the operations
  that do change it, and lifts it to the handler of messages, to the keep-alive loop and to the steps
  of the gateway.
\<close>

section \<open>Live sections\<close>

definition live :: "'a gateway_scheme \<Rightarrow> ptr \<Rightarrow> bool" where
  "live s sp \<longleftrightarrow> sp \<in> set (map snd (inboundSections s))"

lemma inbound_entry:
  assumes "gw_inv s" "(k, sp) \<in> set (inboundSections s)"
  shows "sec_valid s sp" "secKey (sec s sp) = k"
proof -
  have "distinct (map fst (inboundSections s))" using assms(1) by (simp add: gw_inv_def map_wf_def)
  then have "map_of (inboundSections s) k = Some sp" using assms(2) by simp
  with assms(1) show "sec_valid s sp" "secKey (sec s sp) = k" by (simp_all add: gw_inv_def)
qed

lemma inbound_distinct:
  assumes "gw_inv s"
  shows "distinct (map snd (inboundSections s))"
proof -
  have w: "distinct (map fst (inboundSections s))" using assms by (simp add: gw_inv_def map_wf_def)
  have k: "secKey (sec s (snd e)) = fst e" if "e \<in> set (inboundSections s)" for e
    using inbound_entry [OF assms] that by (metis prod.collapse)
  have "inj_on snd (set (inboundSections s))"
  proof (rule inj_onI)
    fix a b
    assume "a \<in> set (inboundSections s)" "b \<in> set (inboundSections s)" "snd a = snd b"
    with k [of a] k [of b] show "a = b" by (simp add: prod_eq_iff)
  qed
  with w show ?thesis by (simp add: distinct_map)
qed

lemma live_valid: "gw_inv s \<Longrightarrow> live s sp \<Longrightarrow> sec_valid s sp"
  unfolding live_def using inbound_entry(1) by fastforce

lemma live_key:
  assumes "gw_inv s" "live s sp"
  shows "map_of (inboundSections s) (secKey (sec s sp)) = Some sp" "distinct (map fst (inboundSections s))"
proof -
  show w: "distinct (map fst (inboundSections s))" using assms(1) by (simp add: gw_inv_def map_wf_def)
  obtain k where "(k, sp) \<in> set (inboundSections s)" using assms(2) by (auto simp: live_def)
  with inbound_entry(2) [OF assms(1)] w show "map_of (inboundSections s) (secKey (sec s sp)) = Some sp" by fastforce
qed

lemma live_net: "net_step s s' \<Longrightarrow> live s' sp = live s sp"
  by (simp add: live_def net_step_fields)

lemma mput_new: "map_of m k = None \<Longrightarrow> mput k v m = m @ [(k, v)]"
  by (induction m) (auto split: if_splits)

lemma sum_list_other:
  "sp \<notin> set xs \<Longrightarrow> (\<And>q. q \<noteq> sp \<Longrightarrow> g q = f q) \<Longrightarrow> sum_list (map g xs) = (sum_list (map f xs) :: int)"
  by (induction xs) auto

lemma sum_list_point:
  "distinct xs \<Longrightarrow> sp \<in> set xs \<Longrightarrow> (\<And>q. q \<noteq> sp \<Longrightarrow> g q = f q) \<Longrightarrow>
     sum_list (map g xs) = sum_list (map f xs) - f sp + (g sp :: int)"
proof (induction xs)
  case (Cons x xs)
  then show ?case using sum_list_other [of sp xs g f] by (cases "x = sp") auto
qed simp

lemma sum_list_mdel:
  "distinct (map fst m) \<Longrightarrow> map_of m k = Some v \<Longrightarrow>
     sum_list (map f (map snd (mdel k m))) = sum_list (map f (map snd m)) - (f v :: int)"
proof (induction m)
  case (Cons e m)
  obtain k' v' where e: "e = (k', v')" by fastforce
  have "mdel k' m = m" if "k' \<notin> fst ` set m"
    using that by (simp add: AList.delete_id)
  with Cons e show ?case by (auto split: if_splits)
qed simp

lemma sections_close_routes [simp]: "sections (fold Route_Close rs s) = sections s"
  "inboundSections (fold Route_Close rs s) = inboundSections s"
  by (induction rs arbitrary: s) (simp_all add: Route_Close_def)

lemma sections_close_payments [simp]: "sections (fold closePaymentChannel vs s) = sections s"
  "inboundSections (fold closePaymentChannel vs s) = inboundSections s"
  by (induction vs arbitrary: s) (simp_all add: closePaymentChannel_def Let_def)

lemma inbound_close_section [simp]: "inboundSections (close_section sp s) = inboundSections s"
  by (simp add: close_section_def Let_def Out_Close_def split: option.split)

lemma live_BuildRoute: "inboundSections (fst (BuildRoute_Execute E sp adnl key rid price s)) = inboundSections s"
proof -
  obtain p t where a: "addPeer E adnl None s = (p, t)" by fastforce
  then have "inboundSections t = inboundSections s" using net_step_fields(12) [OF net_step_addPeer [of s E adnl None]] by simp
  then show ?thesis by (simp add: BuildRoute_Execute_def a Let_def retarget_def move_gauge_def split: option.split)
qed

lemma live_BindOut: "inboundSections (fst (BindOut_Execute C T E sp adnl key ins rc price s)) = inboundSections s"
proof -
  obtain p t where a: "addPeer E adnl None (emit CallListenPacket s) = (p, t)" by fastforce
  have t: "inboundSections t = inboundSections s"
    using net_step_fields(12) [OF net_step_addPeer [of "emit CallListenPacket s" E adnl None]] a by simp
  have b: "inboundSections (bind_done C T E sp u) = inboundSections u" for u :: "'a gateway_scheme"
    by (simp add: bind_done_def Let_def count_in_def sendBack_def net_step_fields [OF net_step_Send] split: option.split sum.split)
  have r: "inboundSections (rebind_out E sp ot adnl sk key ins pr s) = inboundSections s" for ot sk pr
  proof -
    obtain p2 t2 where a2: "addPeer E adnl None (Dereference (inboundPeer ot) s) = (p2, t2)" by fastforce
    have "inboundSections t2 = inboundSections s"
      using net_step_fields(12) [OF net_step_addPeer [of "Dereference (inboundPeer ot) s" E adnl None]] a2 by simp
    then show ?thesis by (simp add: rebind_out_def Let_def a2)
  qed
  show ?thesis by (simp add: BindOut_Execute_def a Let_def b r t split: option.split)
qed

text \<open>The sections picked for closing are sections of the table, each picked once.\<close>

lemma tick_sections_picked:
  "\<exists>ys. set ys \<subseteq> set xs \<and> (distinct xs \<longrightarrow> distinct ys) \<and> fst (snd (fold (tick_section E) xs st)) = fst (snd st) @ ys"
proof (induction xs arbitrary: st)
  case (Cons x xs)
  have "fst (snd (tick_section E x st)) = fst (snd st) \<or> fst (snd (tick_section E x st)) = fst (snd st) @ [x]"
    by (cases st) (simp add: tick_section_def Let_def)
  then obtain zs where z: "fst (snd (tick_section E x st)) = fst (snd st) @ zs" "zs = [] \<or> zs = [x]"
    by (metis append_Nil2)
  from Cons [of "tick_section E x st"] obtain ys where "set ys \<subseteq> set xs" "distinct xs \<longrightarrow> distinct ys"
      "fst (snd (fold (tick_section E) xs (tick_section E x st))) = fst (snd (tick_section E x st)) @ ys" by blast
  with z show ?case by (intro exI [of _ "zs @ ys"]) auto
qed simp

lemma live_drop_other:
  assumes "gw_inv s" "live s q" "live s sp" "q \<noteq> sp"
  shows "live (drop_section E sp s) q"
proof -
  have m: "(secKey (sec s x), x) \<in> set (inboundSections s)" if "live s x" for x
    using that inbound_entry(2) [OF assms(1)] by (fastforce simp: live_def)
  have "distinct (map fst (inboundSections s))" using assms(1) by (simp add: gw_inv_def map_wf_def)
  then have "secKey (sec s q) \<noteq> secKey (sec s sp)"
    using m [OF assms(2)] m [OF assms(3)] assms(4) by (metis eq_key_imp_eq_value)
  moreover have "inboundSections (drop_section E sp s) = inboundSections s
      \<or> inboundSections (drop_section E sp s) = mdel (secKey (sec s sp)) (inboundSections s)"
    by (simp add: drop_section_def closeIfNotLocked_def Let_def)
  ultimately have "(secKey (sec s q), q) \<in> set (inboundSections (drop_section E sp s))"
    using m [OF assms(2)] by (auto simp: AList.delete_eq)
  then show ?thesis unfolding live_def by force
qed

text \<open>A message destroys its section at most as its last instruction.\<close>

definition destroys_last :: "instruction list \<Rightarrow> bool" where
  "destroys_last l \<longleftrightarrow> DestroyInstruction \<notin> set (butlast l)"

text \<open>The instructions of a message, when it can be opened.\<close>

definition opened ::
  "crypto \<Rightarrow> tlcodec \<Rightarrow> env \<Rightarrow> ptr \<Rightarrow> encrypted_message \<Rightarrow> 'a gateway_scheme \<Rightarrow> instruction list" where
  "opened C T E p m s =
     (case get_section C E p (msgSectionPubKey m) s of
        (s1, Inr sp) \<Rightarrow>
          (case decryptMessage C T (cipherKeyCrc (sec s1 sp)) (cipherKey (sec s1 sp)) (msgInstructions m) of
             Inr (cont, rest) \<Rightarrow> List cont | Inl _ \<Rightarrow> [])
      | _ \<Rightarrow> [])"

section \<open>Sums over the live sections\<close>

definition live_sum :: "(tun_section \<Rightarrow> int) \<Rightarrow> 'a gateway_scheme \<Rightarrow> int" where
  "live_sum f s = sum_list (map (\<lambda>sp. f (sec s sp)) (map snd (inboundSections s)))"

lemma live_sum_same:
  "inboundSections s' = inboundSections s \<Longrightarrow> (\<And>q. f (sec s' q) = f (sec s q)) \<Longrightarrow> live_sum f s' = live_sum f s"
  by (simp add: live_sum_def)

lemma live_sum_upd:
  assumes "gw_inv s" "live s sp"
  shows "live_sum f (upd_sec sp h s) = live_sum f s - f (sec s sp) + f (h (sec s sp))"
proof -
  have "sec_valid s sp" by (rule live_valid [OF assms])
  then show ?thesis
    using sum_list_point [OF inbound_distinct [OF assms(1)], of sp "\<lambda>q. f (sec (upd_sec sp h s) q)" "\<lambda>q. f (sec s q)"] assms(2)
    by (simp add: live_sum_def live_def sec_valid_def)
qed

lemma live_sum_new:
  assumes "gw_inv s" "map_of (inboundSections s) key = None" "sections s' = sections s @ [sc]"
    and "inboundSections s' = mput key (length (sections s)) (inboundSections s)"
  shows "live_sum f s' = live_sum f s + f sc"
proof -
  have "sec s' q = sec s q" if "q \<in> set (map snd (inboundSections s))" for q
    using that live_valid [OF assms(1)] by (simp add: live_def sec_valid_def nth_append assms(3))
  then have "map (\<lambda>q. f (sec s' q)) (map snd (inboundSections s)) = map (\<lambda>q. f (sec s q)) (map snd (inboundSections s))"
    by (intro map_cong) simp_all
  moreover have "map snd (inboundSections s') = map snd (inboundSections s) @ [length (sections s)]"
      "sec s' (length (sections s)) = sc"
    by (simp_all add: assms(3,4) mput_new [OF assms(2)])
  ultimately show ?thesis
    unfolding live_sum_def by (simp only: map_append sum_list_append list.map sum_list.Cons sum_list.Nil)
qed

lemma live_sum_drop:
  assumes "gw_inv s" "live s sp" "inboundSections s' = mdel (secKey (sec s sp)) (inboundSections s)"
    and "\<And>q. f (sec s' q) = f (sec s q)"
  shows "live_sum f s' = live_sum f s - f (sec s sp)"
  using sum_list_mdel [OF live_key(2,1) [OF assms(1,2)], of "\<lambda>q. f (sec s q)"] by (simp add: live_sum_def assms(3,4))

lemma live_sum_ge:
  assumes "live s sp" "\<And>sc. 0 \<le> f sc"
  shows "f (sec s sp) \<le> live_sum f s"
proof -
  have "g x \<le> sum_list (map g xs)" if "x \<in> set xs" "\<And>y. 0 \<le> g y" for g :: "ptr \<Rightarrow> int" and x xs
    using that
  proof (induction xs)
    case (Cons y ys)
    have "0 \<le> sum_list (map g ys)" by (rule sum_list_nonneg) (use Cons.prems(2) in auto)
    with Cons show ?case by (cases "x = y") (auto simp: add_increasing)
  qed simp
  from this [of sp "map snd (inboundSections s)" "\<lambda>q. f (sec s q)"] assms show ?thesis
    by (simp add: live_sum_def live_def)
qed

text \<open>Counting a property of the routes: what replacing one route changes.\<close>

lemma count_mput:
  "map_of m k = Some r \<Longrightarrow> int (count_list (map (g \<circ> snd) (mput k r' m)) p)
     = int (count_list (map (g \<circ> snd) m) p) - (if g r = p then 1 else 0) + (if g r' = p then 1 else 0)"
  by (induction m) auto

section \<open>Operations that change nothing watched\<close>

locale section_frame =
  fixes view :: "tun_section \<Rightarrow> 'v" and R :: "'a gateway_scheme \<Rightarrow> 'a gateway_scheme \<Rightarrow> bool"
  assumes refl [simp]: "R s s"
    and trans [trans]: "R s t \<Longrightarrow> R t u \<Longrightarrow> R s u"
    and nets: "R s (emit c s)" "R s (spawn k s)" "R s (closeConn p cmp s)" "R s (fst (SendCustomMessage E p m s))"
      "R s (snd (addPeer E adnl conn s))" "R s (discover_start p s)" "R s (fst (discover_finish E p s))"
    and upd_peer: "(\<And>q. peer_id (f q) = peer_id q) \<Longrightarrow> (\<And>q. references (f q) = references q) \<Longrightarrow> R s (upd_peer p f s)"
    and upd_sec: "view (h (sec s sp)) = view (sec s sp) \<Longrightarrow> R s (upd_sec sp h s)"
    and frame: "peers s' = peers s \<Longrightarrow> activePeers s' = activePeers s \<Longrightarrow> sections s' = sections s \<Longrightarrow>
      inboundSections s' = inboundSections s \<Longrightarrow> ActiveInboundSections s' = ActiveInboundSections s \<Longrightarrow>
      ActiveRoutes s' = ActiveRoutes s \<Longrightarrow> R s s'"
    and keeps_live: "R s s' \<Longrightarrow> inboundSections s' = inboundSections s" "R s s' \<Longrightarrow> length (sections s') = length (sections s)"
    and view_same: "view (sc\<lparr>lastPacketAt := n\<rparr>) = view sc" "view (sc\<lparr>sec_seqno := w\<rparr>) = view sc"
      "view (sc\<lparr>seqnoCached := w\<rparr>) = view sc" "view (sc\<lparr>sec_payments := x\<rparr>) = view sc"
      "view (sc\<lparr>cachedActions := y\<rparr>) = view sc" "view (sc\<lparr>cachedActionsVer := z\<rparr>) = view sc"
    and view_route: "(\<And>r. rTarget (g r) = rTarget r) \<Longrightarrow> view (upd_route rid g sc) = view sc"
    and view_out: "(\<And>ot. inboundPeer (k' ot) = inboundPeer ot) \<Longrightarrow> view (upd_out k' sc) = view sc"
begin

lemma live_same: "R s s' \<Longrightarrow> live s' sp = live s sp"
  by (simp add: live_def keeps_live)

lemma on_route: "(\<And>r. rTarget (g r) = rTarget r) \<Longrightarrow> R s (upd_sec sp (upd_route rid g) s)"
  by (rule upd_sec) (rule view_route)

lemma on_out: "(\<And>ot. inboundPeer (g ot) = inboundPeer ot) \<Longrightarrow> R s (upd_sec sp (upd_out g) s)"
  by (rule upd_sec) (rule view_out)

lemma folded: "(\<And>x t. R t (f x t)) \<Longrightarrow> R s (fold f xs s)"
  by (induction xs arbitrary: s) (auto intro: trans)

lemma sent: "SendCustomMessage E p m s = (t, e) \<Longrightarrow> R s t"
  using nets(4) [of s E p m] by simp

lemma closing_payment: "R s (closePaymentChannel v s)"
  by (rule frame) (simp_all add: closePaymentChannel_def Let_def peer_simps net_step_fields [OF net_step_emit])

lemma checking_seqno: "R s (fst (checkSeqno sp n b s))"
  by (auto simp: checkSeqno_def view_same split: prod.split intro!: upd_sec)

lemma marking: "R s (mark_packet E sp s)"
  unfolding mark_packet_def by (rule upd_sec) (simp add: view_same)

lemma touching: "R s (touch E p s)"
  unfolding touch_def by (rule upd_peer) simp_all

lemma routing: "R s (fst (Route_Route E q rid pl c ins n s))"
proof (cases "map_of (routes (sec s q)) rid")
  case (Some r)
  obtain s1 paid e where c: "(if 0 < tgtPrice (rTarget r) then charge_route E q rid r s else (s, False, None)) = (s1, paid, e)"
    by (metis prod_cases3)
  have u: "R t (upd_sec q (upd_route rid (\<lambda>x. x\<lparr>PrepaidPackets := g x\<rparr>)) t)"
      "R t (upd_sec q (upd_route rid (\<lambda>x. x\<lparr>PacketsRouted := h x\<rparr>)) t)" for g h t
    by (rule on_route, simp)+
  have "R s s1"
    using c u(1) trans [OF u(1) nets(1)] nets(1) [of s] by (auto simp: charge_route_def Let_def split: if_splits)
  also obtain s2 e2 where s2: "SendCustomMessage E (tgtPeer (rTarget r)) (route_message (rTarget r) pl c ins n) s1 = (s2, e2)"
    by fastforce
  then have "R s1 s2" by (rule sent)
  finally have f2: "R s s2" .
  have "R s2 (s2\<lparr>statsRouted := k\<rparr>)" for k by (rule frame) simp_all
  with f2 u have "R s (upd_sec q (upd_route rid (\<lambda>x. x\<lparr>PrepaidPackets := g x\<rparr>)) s2)"
      "R s (upd_sec q (upd_route rid (\<lambda>x. x\<lparr>PacketsRouted := h x\<rparr>)) (s2\<lparr>statsRouted := k\<rparr>))" for g h k
    by (blast intro: trans)+
  with f2 \<open>R s s1\<close> show ?thesis by (simp add: Route_Route_def Some c s2 split: option.split)
qed (simp add: Route_Route_def)

lemma caching: "R s (fst (Cache_Execute q ver l s))"
  by (auto simp: Cache_Execute_def view_same split: sum.split intro!: upd_sec)

lemma loading_channel: "R s (fst (load_channel E q key purpose s))"
proof -
  have "R s (upd_sec q (\<lambda>sc. sc\<lparr>sec_payments := mput key v (sec_payments sc)\<rparr>) (emit c s\<lparr>channels := cs\<rparr>))" for v c cs
    by (rule trans [OF frame upd_sec]) (simp_all add: view_same peer_simps)
  with nets(1) show ?thesis by (auto simp: load_channel_def Let_def split: option.split)
qed

lemma processing_payment:
  assumes "process_payment E q key st purpose final v fresh s = (s', e)"
  shows "R s s'"
  using assms
proof (cases rule: process_payment_cases)
  case idle
  have "peers s' = peers s \<and> activePeers s' = activePeers s \<and> inboundSections s' = inboundSections s \<and>
      ActiveInboundSections s' = ActiveInboundSections s \<and> ActiveRoutes s' = ActiveRoutes s"
    using assms by (auto simp: process_payment_def apply_mutation_def Let_def peer_simps
        split: if_splits sum.splits option.splits prod.splits mutation.splits)
  with idle show ?thesis by (intro frame) simp_all
next
  case (accepted m w)
  have m: "R t (fst (apply_mutation q amt m t))" for amt t
    by (auto simp: apply_mutation_def Let_def split: mutation.split option.split intro!: on_out on_route)
  have "R s (emit (CallAddResolve key st) s)" by (rule nets)
  also have "R (emit (CallAddResolve key st) s) w" using m accepted(5) by (metis fst_conv)
  also have "R w s'" using accepted(6) by (intro frame) (simp_all add: Let_def peer_simps)
  finally show ?thesis .
qed

lemma paying: "R s (fst (Payment_Execute E q key state purpose final s))"
proof -
  obtain s1 res where l: "load_channel E q key purpose s = (s1, res)" by fastforce
  with loading_channel [of s E q key purpose] have q: "R s s1" by simp
  have "R s1 (fst (process_payment E q key st purpose final v fresh s1))" for st v fresh
    using processing_payment [of E q key st purpose final v fresh s1] by (metis prod.collapse)
  with q l show ?thesis
    by (cases res) (auto simp: Payment_Execute_def split: option.split intro: trans)
qed

lemma sending_back: "R s (fst (sendBack C T E q obj b s))"
proof -
  have "R s (upd_sec q (upd_out (\<lambda>x. x\<lparr>backSeqno := n\<rparr>)) s)" for n by (rule on_out) simp
  then have "R s (fst (SendCustomMessage E p m (upd_sec q (upd_out (\<lambda>x. x\<lparr>backSeqno := n\<rparr>)) s)))" for p m n
    by (rule trans [OF _ nets(4)])
  then show ?thesis by (simp add: sendBack_def Let_def nets split: option.split sum.split)
qed

lemma counting_in: "R s (count_in q s)"
  unfolding count_in_def by (rule on_out) simp

lemma binding_done: "R s (bind_done C T E q s)"
  by (auto simp: bind_done_def Let_def split: option.split
      intro: counting_in trans [OF counting_in sending_back])

lemma sending_out: "R (fst st) (fst (fst (Out_Send C T E q st)))"
proof -
  obtain s buf0 where st: "st = (s, buf0)" by fastforce
  have d: "R t (upd_sec q (upd_out (\<lambda>x. x\<lparr>PrepaidPacketsOut := g x\<rparr>)) t)"
      "R t (upd_sec q (upd_out (\<lambda>x. x\<lparr>PacketsSentOut := h x\<rparr>)) t)" for g h t
    by (rule on_out, simp)+
  let ?dec = "upd_sec q (upd_out (\<lambda>x. x\<lparr>PrepaidPacketsOut := i64 (PrepaidPacketsOut x - 1)\<rparr>)) s"
  have e: "R s (emit c ?dec)" "R s (emit c s)" for c by (rule trans [OF d(1) nets(1)], rule nets)
  have st1: "R t (t\<lparr>statsSent := k\<rparr>)" for k t by (rule frame) simp_all
  have "R s (upd_sec q (upd_out (\<lambda>x. x\<lparr>PacketsSentOut := PacketsSentOut x + 1\<rparr>)) (t\<lparr>statsSent := k\<rparr>))"
    if "R s t" for k t
    by (rule trans [OF that trans [OF st1 d(2)]])
  from this [OF e(1)] this [OF e(2)] e show ?thesis
    by (simp add: st Out_Send_def Let_def split: option.split prod.split sum.split payload.split)
qed

lemma listening: "R s (Listen_packet C T E q ip port data s)"
proof -
  define s1 where "s1 b = (if b then upd_sec q (upd_out (\<lambda>x. x\<lparr>PrepaidPacketsIn := i64 (PrepaidPacketsIn x - 1)\<rparr>)) s else s)" for b :: bool
  have "R s (upd_sec q (upd_out (\<lambda>x. x\<lparr>PrepaidPacketsIn := g x\<rparr>)) s)" for g by (rule on_out) simp
  then have q1: "R s (s1 b)" for b by (simp add: s1_def)
  have "R (s1 b) (s1 b\<lparr>statsReceived := k\<rparr>)" for b k by (rule frame) simp_all
  then have answer: "R s (fst (sendBack C T E q obj True (count_in q (s1 b\<lparr>statsReceived := k\<rparr>))))" for obj b k
    by (rule trans [OF q1 trans [OF _ trans [OF counting_in sending_back]]])
  show ?thesis
  proof (cases "sec_out (sec s q)")
    case (Some ot)
    show ?thesis using answer [where b = "0 < outPrice ot"]
      unfolding Listen_packet_def Some option.case Let_def s1_def by (simp split del: if_split split: if_split)
  qed (simp add: Listen_packet_def)
qed

lemma ticking_peer: "R s (tick_peer E p s)"
proof -
  let ?ping = "\<lambda>t :: 'a gateway_scheme. upd_peer p (\<lambda>q. q\<lparr>LastPingSentAt := now E, pingSeqno := pingSeqno q + 1\<rparr>) t"
  have p: "R t (fst (SendCustomMessage E p m (?ping t)))" for m t
    by (rule trans [OF upd_peer nets(4)]) simp_all
  let ?c = "closeConn p None s"
  have "R s ?c" by (rule nets)
  from trans [OF this p] trans [OF this nets(2)] p [of s] this show ?thesis
    by (simp add: tick_peer_def Let_def nets)
qed

lemma ticking_section: "R (fst st) (fst (tick_section E sp st))"
proof -
  obtain s secs chans where st: "st = (s, secs, chans)" by (metis prod_cases3)
  have e: "R s (emit (CallTryLock sp) s)" by (rule nets)
  have "R s (upd_sec sp (\<lambda>q. q\<lparr>sec_payments := g q\<rparr>) (emit (CallTryLock sp) s))" for g
    by (rule trans [OF e upd_sec]) (simp add: view_same)
  with e show ?thesis by (simp add: tick_section_def st Let_def)
qed

lemma ticking_sections: "R (fst st) (fst (fold (tick_section E) xs st))"
proof (induction xs arbitrary: st)
  case (Cons x xs)
  then show ?case using trans [OF ticking_section [of st E x] Cons] by simp
qed simp

end

section \<open>An invariant over the operations of the gateway\<close>

text \<open>
  \<open>room\<close> bounds the number of sections, \<open>good\<close> is what is asked of a registered tunnel, \<open>killable\<close>
  says when a peer may be killed.
\<close>

locale section_account = section_frame view R
  for view :: "tun_section \<Rightarrow> 'v" and R :: "'a gateway_scheme \<Rightarrow> 'a gateway_scheme \<Rightarrow> bool" +
  fixes Inv :: "'a gateway_scheme \<Rightarrow> bool" and room :: "nat \<Rightarrow> bool" and good :: "'a tunnel_proc \<Rightarrow> bool"
    and killable :: "'a gateway_scheme \<Rightarrow> ptr \<Rightarrow> bool"
  assumes wf: "Inv s \<Longrightarrow> gw_inv s"
    and kept: "Inv s \<Longrightarrow> gw_inv s' \<Longrightarrow> R s s' \<Longrightarrow> Inv s'"
    and room_less: "room (Suc n) \<Longrightarrow> room n"
    and good_ok: "good proc \<Longrightarrow> tunnel_ok proc"
    and delivering: "good proc \<Longrightarrow> R (fst st) (fst (fst (deliver proc t meta st)))"
    and building: "Inv s \<Longrightarrow> room (length (sections s)) \<Longrightarrow> live s sp \<Longrightarrow> Inv (fst (BuildRoute_Execute E sp adnl key rid price s))"
    and binding: "Inv s \<Longrightarrow> room (length (sections s)) \<Longrightarrow> live s sp \<Longrightarrow> Inv (fst (BindOut_Execute C T E sp adnl key ins rc price s))"
    and dropping: "Inv s \<Longrightarrow> room (length (sections s)) \<Longrightarrow> live s sp \<Longrightarrow> Inv (drop_section E sp s)"
    and creating: "Inv s \<Longrightarrow> map_of (inboundSections s) key = None \<Longrightarrow>
      s' = s\<lparr>sections := sections s @ [new_section E key shKey],
        inboundSections := mput key (length (sections s)) (inboundSections s), ActiveInboundSections := ActiveInboundSections s + 1\<rparr> \<Longrightarrow>
      gw_inv s' \<Longrightarrow> Inv s'"
    and killing: "Inv s \<Longrightarrow> killable s p \<Longrightarrow> Inv (kill p s)"
    and killable_pending: "killable (s\<lparr>pending := ks\<rparr>) p = killable s p"
begin

definition ready :: "ptr \<Rightarrow> 'a gateway_scheme \<times> bytes \<Rightarrow> bool" where
  "ready sp st \<longleftrightarrow> Inv (fst st) \<and> room (length (sections (fst st))) \<and> live (fst st) sp"

lemma ready_kept: "ready sp st \<Longrightarrow> R (fst st) (fst st') \<Longrightarrow> gw_inv (fst st') \<Longrightarrow> ready sp st'"
  unfolding ready_def using kept live_same keeps_live(2) by metis

lemma ready_sec_inv: "ready sp st \<Longrightarrow> sec_inv sp st"
  by (auto simp: ready_def sec_inv_def live_valid dest: wf)

lemma ready_Execute:
  assumes "good proc" "ready sp st" "ins \<noteq> DestroyInstruction"
  shows "ready sp (fst (Execute C T E proc sp rest ins st))"
proof -
  have i: "sec_inv sp (fst (Execute C T E proc sp rest ins st))"
    by (rule Execute_inv [OF good_ok [OF assms(1)] ready_sec_inv [OF assms(2)]])
  have a: "Inv (fst st)" "room (length (sections (fst st)))" "live (fst st) sp" using assms(2) by (simp_all add: ready_def)
  have q: "ready sp (fst (Execute C T E proc sp rest ins st))"
    if "R (fst st) (fst (fst (Execute C T E proc sp rest ins st)))"
    by (rule ready_kept [OF assms(2) that sec_invD(1) [OF i]])
  show ?thesis
  proof (cases ins)
    case (BuildRouteInstruction adnl key rid price)
    then show ?thesis using building [OF a, of E adnl key rid price] a
      by (simp add: ready_def fst_on_gateway live_def live_BuildRoute)
  next
    case (BindOutInstruction adnl key instrs rc price)
    then show ?thesis using binding [OF a, of C T E adnl key instrs rc price] a
      by (simp add: ready_def fst_on_gateway live_def live_BindOut)
  next
    case DestroyInstruction
    with assms(3) show ?thesis by simp
  qed (rule q; simp add: fst_on_gateway caching routing paying RouteInstruction_Execute_def
      SendOut_Execute_def sending_out delivering assms(1) split: option.split)+
qed

lemma ready_Destroy:
  assumes "ready sp st"
  shows "Inv (fst (fst (Execute C T E proc sp rest DestroyInstruction st)))"
  using assms dropping [of "fst st" sp E] by (simp add: ready_def fst_on_gateway Destroy_Execute_def)

lemma ready_cached:
  assumes "good proc" "ready sp st"
  shows "ready sp (fst (Execute_cached C T E proc sp seqno a st))"
proof -
  have "sec_inv sp (fst (Execute_cached C T E proc sp seqno a st))"
    by (rule Execute_cached_inv [OF good_ok [OF assms(1)] ready_sec_inv [OF assms(2)]])
  moreover have "R (fst st) (fst (fst (Execute_cached C T E proc sp seqno a st)))"
    by (cases a) (simp_all add: fst_on_gateway routing RouteCachedAction_Execute_def SendOut_Execute_def sending_out
        delivering assms(1))
  ultimately show ?thesis using ready_kept [OF assms(2)] sec_invD(1) by blast
qed

lemma ready_loop: "fallible_loop (Execute C T E proc sp rest) (\<lambda>ins. good proc \<and> ins \<noteq> DestroyInstruction) (ready sp)"
  by unfold_locales (auto intro: ready_Execute)

lemma ready_cached_loop: "fallible_loop (Execute_cached C T E proc sp seqno) (\<lambda>_. good proc) (ready sp)"
  by unfold_locales (rule ready_cached)

lemma running:
  assumes "good proc" "ready sp st" "destroys_last l"
  shows "Inv (fst (fst (run_until_err (Execute C T E proc sp rest) l st)))"
proof (cases l rule: rev_cases)
  case Nil
  then show ?thesis using assms(2) by (simp add: ready_def)
next
  case (snoc xs x)
  let ?step = "Execute C T E proc sp rest"
  obtain st1 e where r: "run_until_err ?step xs st = (st1, e)" by fastforce
  have "list_all (\<lambda>ins. good proc \<and> ins \<noteq> DestroyInstruction) xs"
    using assms(1,3) snoc by (auto simp: destroys_last_def list_all_iff)
  from fallible_loop.run_inv [OF ready_loop this assms(2), of C T E rest] have i: "ready sp st1" by (simp add: r)
  have "Inv (fst (fst (?step x st1)))"
    using ready_Execute [OF assms(1) i, of x C T E rest] ready_Destroy [OF i] by (cases "x = DestroyInstruction") (auto simp: ready_def)
  with i r snoc show ?thesis
    by (auto simp: run_until_err_append ready_def split: option.split prod.split)
qed

lemma getting_section:
  assumes "Inv s" "get_section C E p key s = (s1, res)"
  shows "Inv s1" "room (Suc (length (sections s))) \<Longrightarrow> room (length (sections s1))" "res = Inr sp \<Longrightarrow> live s1 sp"
proof -
  have g: "gw_inv s1" by (rule gw_inv_get_section(1) [OF wf [OF assms(1)] assms(2)])
  consider "s1 = s" "res = Inr sp \<Longrightarrow> live s1 sp"
    | shKey where "map_of (inboundSections s) key = None" "res = Inr (length (sections s))"
        "s1 = s\<lparr>sections := sections s @ [new_section E key shKey],
           inboundSections := mput key (length (sections s)) (inboundSections s), ActiveInboundSections := ActiveInboundSections s + 1\<rparr>"
  proof (cases "map_of (inboundSections s) key")
    case None
    note n = None
    show thesis
    proof (cases "SharedKey C (gwKey s) key = None \<or> getConn p s = None")
      case True
      then have "s1 = s" "\<And>q. res \<noteq> Inr q"
        using assms(2) n by (auto simp: get_section_def split: option.splits if_splits)
      with that(1) show thesis by blast
    next
      case False
      then obtain sh where "SharedKey C (gwKey s) key = Some sh" by auto
      with False n assms(2) show thesis by (intro that(2) [of sh]) (auto simp: get_section_def)
    qed
  next
    case (Some q)
    then have "s1 = s" "res = Inr q" using assms(2) by (simp_all add: get_section_def)
    moreover have "q \<in> snd ` set (inboundSections s)" using map_of_SomeD [OF Some] by force
    ultimately show thesis using that(1) by (auto simp: live_def)
  qed
  then have "Inv s1 \<and> (room (Suc (length (sections s))) \<longrightarrow> room (length (sections s1))) \<and> (res = Inr sp \<longrightarrow> live s1 sp)"
  proof cases
    case 1
    then show ?thesis using assms(1) room_less by blast
  next
    case 2
    then show ?thesis using creating [OF assms(1) 2(1,3) g] by (simp add: live_def mput_new)
  qed
  then show "Inv s1" "room (Suc (length (sections s))) \<Longrightarrow> room (length (sections s1))" "res = Inr sp \<Longrightarrow> live s1 sp" by blast+
qed

lemma finishing: "Inv (fst (fst r)) \<Longrightarrow> Inv (fst (finish E p r))"
proof -
  assume a: "Inv (fst (fst r))"
  then have "Inv (touch E p (fst (fst r)))" by (intro kept [OF a _ touching] gw_inv_touch wf)
  with a show ?thesis by (auto simp: finish_def split: prod.split option.split)
qed

text \<open>The state in which the instructions of a message start.\<close>

lemma ready_start:
  assumes "Inv s" "room (length (sections s))" "live s sp" "checkSeqno sp n b s = (s1, ok)"
  shows "Inv s1" "ready sp (mark_packet E sp s1, pl)"
proof -
  have q: "R s s1" using checking_seqno [of s sp n b] assms(4) by simp
  have g: "gw_inv s1" by (rule checkSeqno_fields(1) [OF assms(4) wf [OF assms(1)]])
  have "ready sp (s, pl)" using assms by (simp add: ready_def)
  from ready_kept [OF this, of "(s1, pl)"] q g have r: "ready sp (s1, pl)" by simp
  then show "Inv s1" by (simp add: ready_def)
  from ready_kept [OF r] show "ready sp (mark_packet E sp s1, pl)" by (simp add: marking gw_inv_mark g)
qed

lemma handling_cached:
  assumes "good proc" "Inv s" "room (length (sections s))"
  shows "Inv (fst (handle_cached C T E proc p m s))"
proof (cases "map_of (inboundSections s) (cSectionPubKey m)")
  case (Some sp)
  then have l: "live s sp" by (auto simp: live_def dest!: map_of_SomeD) force
  obtain s1 ok where c: "checkSeqno sp (cSeqno m) True s = (s1, ok)" by fastforce
  note i = ready_start [OF assms(2,3) l c]
  have "ready sp (fst (run_until_err (Execute_cached C T E proc sp (cSeqno m)) as (mark_packet E sp s1, cPayload m)))" for as
    using assms(1) i(2) by (intro fallible_loop.run_inv [OF ready_cached_loop]) (simp_all add: list_all_iff)
  then have "Inv (fst (fst (run_until_err (Execute_cached C T E proc sp (cSeqno m)) as (mark_packet E sp s1, cPayload m))))" for as
    by (simp add: ready_def)
  from finishing [OF this] i(1) show ?thesis
    by (simp add: handle_cached_def Some c split: bool.split)
qed (simp add: handle_cached_def assms)

lemma handling_encrypted:
  assumes "good proc" "Inv s" "room (Suc (length (sections s)))" "destroys_last (opened C T E p m s)"
  shows "Inv (fst (handle_encrypted C T E proc p m s))"
proof -
  obtain s1 res where g: "get_section C E p (msgSectionPubKey m) s = (s1, res)" by fastforce
  note a1 = getting_section(1) [OF assms(2) g] getting_section(2) [OF assms(2) g assms(3)]
  show ?thesis
  proof (cases res)
    case (Inl e)
    then show ?thesis using a1 by (simp add: handle_encrypted_def g)
  next
    case (Inr sp)
    note l = getting_section(3) [OF assms(2) g Inr]
    show ?thesis
    proof (cases "decryptMessage C T (cipherKeyCrc (sec s1 sp)) (cipherKey (sec s1 sp)) (msgInstructions m)")
      case (Inl e)
      then show ?thesis using a1(1) by (simp add: handle_encrypted_def g Inr)
    next
      case dec: (Inr cr)
      obtain cont rest where cr: "cr = (cont, rest)" by fastforce
      have d: "destroys_last (List cont)" using assms(4) by (simp add: opened_def g Inr dec cr)
      obtain s2 ok where c: "checkSeqno sp (Seqno cont) False s1 = (s2, ok)" by fastforce
      note i = ready_start [OF a1 l c]
      show ?thesis
        using finishing [OF running [OF assms(1) i(2) d]] i(1)
        by (simp add: handle_encrypted_def g Inr dec cr c split: bool.split)
    qed
  qed
qed

lemma handling_message:
  assumes "good proc" "Inv s" "room (Suc (length (sections s)))"
    and "\<And>m. msg = MsgEncrypted m \<Longrightarrow> destroys_last (opened C T E p m s)"
  shows "Inv (fst (messageHandler C T E proc p msg s))"
proof -
  have q: "Inv (fst (messageHandler C T E proc p msg s))" if "R s (fst (messageHandler C T E proc p msg s))"
    by (rule kept [OF assms(2) gw_inv_messageHandler [OF good_ok [OF assms(1)] wf [OF assms(2)]] that])
  show ?thesis
  proof (cases msg)
    case (MsgPing n)
    obtain s1 e where s1: "SendCustomMessage E p (MsgPong n) s = (s1, e)" by fastforce
    show ?thesis
      by (rule q) (use sent [OF s1] trans [OF sent [OF s1] touching] in
          \<open>simp add: messageHandler_def MsgPing s1 split: option.split\<close>)
  next
    case (MsgPong n)
    have "R s (touch E p (upd_peer p (\<lambda>q. q\<lparr>pongSeqno := n\<rparr>) s))"
      by (rule trans [OF upd_peer touching]) simp_all
    then show ?thesis by (intro q) (simp add: messageHandler_def MsgPong)
  next
    case (MsgCached m)
    then show ?thesis using handling_cached [OF assms(1,2) room_less [OF assms(3)]] by (simp add: messageHandler_def)
  next
    case (MsgEncrypted m)
    then show ?thesis using handling_encrypted [OF assms(1-3) assms(4) [OF MsgEncrypted]] by (simp add: messageHandler_def)
  next
    case MsgOther
    then show ?thesis using assms(2) by (simp add: messageHandler_def)
  qed
qed

lemma dropping_sections:
  assumes "Inv s" "room (length (sections s))" "distinct xs" "\<And>x. x \<in> set xs \<Longrightarrow> live s x"
  shows "Inv (fold (drop_section E) xs s)"
  using assms
proof (induction xs arbitrary: s)
  case (Cons x xs)
  have "live (drop_section E x s) y" if "y \<in> set xs" for y
    using that Cons.prems(3,4) by (intro live_drop_other [OF wf [OF Cons.prems(1)]]) auto
  moreover have "Inv (drop_section E x s)" using Cons.prems by (intro dropping) simp_all
  ultimately show ?case using Cons.IH [of "drop_section E x s"] Cons.prems(2,3) by simp
qed simp

lemma ticking:
  assumes "Inv s" "room (length (sections s))"
  shows "Inv (tick E s)"
proof -
  define s1 where "s1 = fold (tick_peer E) (map snd (activePeers s)) s"
  obtain s2 secs chans where f: "fold (tick_section E) (map snd (inboundSections s1)) (s1, [], []) = (s2, secs, chans)"
    by (metis prod_cases3)
  have q1: "R s s1" unfolding s1_def by (rule folded [OF ticking_peer])
  have q2: "R s1 s2" using ticking_sections [of "(s1, [], [])" E "map snd (inboundSections s1)"] f by simp
  have g1: "gw_inv s1" unfolding s1_def using wf [OF assms(1)] gw_inv_tick_peer by (intro gw_inv_fold) simp_all
  have "gw_inv (fst (fold (tick_section E) (map snd (inboundSections s1)) (s1, [], [])))"
    using g1 by (intro fold_inv [where P = "\<lambda>st. gw_inv (fst st)"]) (simp_all add: gw_inv_tick_section)
  then have g2: "gw_inv s2" by (simp add: f)
  have a2: "Inv s2" by (rule kept [OF assms(1) g2 trans [OF q1 q2]])
  have r2: "room (length (sections s2))" using keeps_live(2) [OF trans [OF q1 q2]] assms(2) by simp
  have "set secs \<subseteq> set (map snd (inboundSections s1))" "distinct secs"
    using tick_sections_picked [of "map snd (inboundSections s1)" E "(s1, [], [])"] f inbound_distinct [OF g1] by auto
  then have "live s2 x" if "x \<in> set secs" for x
    using that live_same [OF q2] by (auto simp: live_def)
  with dropping_sections [OF a2 r2 \<open>distinct secs\<close>] have a3: "Inv (fold (drop_section E) secs s2)" by blast
  have "Inv (fold closePaymentChannel chans (fold (drop_section E) secs s2))"
    by (rule kept [OF a3 _ folded [OF closing_payment]])
      (use wf [OF a3] in \<open>auto intro!: gw_inv_fold gw_inv_closePaymentChannel\<close>)
  then show ?thesis by (simp add: tick_def s1_def [symmetric] f)
qed

lemma running_task:
  assumes "Inv s" "\<And>p. t = TaskKill p \<Longrightarrow> killable s p"
  shows "Inv (run_task E t s)"
proof -
  have q: "Inv (run_task E t s)" if "R s (run_task E t s)"
    by (rule kept [OF assms(1) gw_inv_run_task [OF wf [OF assms(1)]] that])
  show ?thesis
  proof (cases t)
    case (TaskKill p)
    then show ?thesis using killing [OF assms(1) assms(2) [OF TaskKill]] by simp
  qed (rule q, simp add: nets closing_payment)+
qed

text \<open>
  A step that keeps the invariant: a message destroys its section at most as its last instruction, a
  peer that is killed may be killed, and there is room for one more section.
\<close>

definition careful :: "crypto \<Rightarrow> tlcodec \<Rightarrow> env \<Rightarrow> gw_event \<Rightarrow> 'a gateway_scheme \<Rightarrow> bool" where
  "careful C T E ev s \<longleftrightarrow> room (Suc (length (sections s))) \<and>
     (\<forall>p m. ev = EvMessage p (MsgEncrypted m) \<longrightarrow> destroys_last (opened C T E p m s)) \<and>
     (\<forall>p. ev = EvTask (TaskKill p) \<longrightarrow> killable s p)"

lemma stepping:
  assumes "good (proc E)" "gw_step C T proc E ev s s'" "careful C T E ev s" "Inv s"
  shows "Inv s'"
proof -
  have rm: "room (Suc (length (sections s)))" using assms(3) by (simp add: careful_def)
  have g: "gw_inv s'" by (rule gw_inv_step [OF good_ok [OF assms(1)] assms(2) wf [OF assms(4)]])
  note q = kept [OF assms(4) g]
  from assms(2) show ?thesis
  proof cases
    case (message p m)
    have "destroys_last (opened C T E p m' s)" if "m = MsgEncrypted m'" for m'
      using assms(3) message(1) that by (simp add: careful_def)
    with handling_message [OF assms(1,4) rm] show ?thesis unfolding message(2) by blast
  next
    case (async t)
    let ?u = "s\<lparr>pending := remove1 t (pending s)\<rparr>"
    have "Inv ?u" by (rule kept [OF assms(4)]) (simp_all add: gw_inv_pending wf [OF assms(4)] frame)
    then show ?thesis using assms(3) unfolding async(1,2)
      by (intro running_task) (simp_all add: careful_def killable_pending)
  next
    case timer
    then show ?thesis using ticking [OF assms(4) room_less [OF rm]] by simp
  qed (rule q, simp add: nets listening)+
qed

end

end
