(* ===== verification/Reference_Accounting.thy ===== *)
theory Reference_Accounting
  imports Section_Frames
begin

text \<open>
  Reference counting across the gateway: the count of a peer is exactly the number of routes and
  outs of live sections that point to it (plus the references held outside the sections), and a
  peer that is held is in the table under its ADNL id. This is the contract between \<open>peer.go\<close>
  and the instructions that build, change and destroy routes and outs.
\<close>

section \<open>The ledger of peers\<close>

text \<open>The peer table agrees with a function that says how many holders each peer has.\<close>

definition ledger :: "(ptr \<Rightarrow> int) \<Rightarrow> 'a net_scheme \<Rightarrow> bool" where
  "ledger H s \<longleftrightarrow> table_wf s \<and> (\<forall>p. peer_valid s p \<longrightarrow> refs s p = H p) \<and> (\<forall>p. 0 \<le> H p) \<and>
     (\<forall>p. 0 < H p \<longrightarrow> peer_valid s p \<and> map_of (activePeers s) (peer_id (peers s ! p)) = Some p)"

lemma ledger_cong:
  assumes "ledger H s" "table_wf s'" "peer_ids s' = peer_ids s" "activePeers s' = activePeers s"
    and "\<And>p. peer_valid s p \<Longrightarrow> refs s' p = refs s p"
  shows "ledger H s'"
proof -
  have l: "length (peers s') = length (peers s)" using assms(3) by (metis length_map peer_ids_def)
  have i: "peer_id (peers s' ! p) = peer_id (peers s ! p)" if "peer_valid s p" for p
    using assms(3) that l by (metis nth_map peer_ids_def peer_valid_def)
  show ?thesis using assms l i by (auto simp: ledger_def peer_valid_def)
qed

lemma ledger_frame:
  assumes "peers s' = peers s" "activePeers s' = activePeers s"
  shows "ledger H s' = ledger H s"
  using assms by (simp add: ledger_def table_wf_def peer_valid_def refs_def)

lemma ledger_upd_peer:
  assumes "ledger H s" "\<And>q. peer_id (f q) = peer_id q" "\<And>q. references (f q) = references q"
  shows "ledger H (upd_peer p f s)"
proof -
  have "table_wf (upd_peer p f s)" using assms by (intro table_wf_upd) (auto simp: ledger_def)
  then show ?thesis
    using assms peer_ids_upd [of f p s] refs_basic(3) [of f p s] by (intro ledger_cong [OF assms(1)]) (simp_all add: peer_simps)
qed

lemma ledger_basic [simp]: "ledger H (emit c s) = ledger H s" "ledger H (spawn t s) = ledger H s"
  by (rule ledger_frame; simp add: peer_simps)+

lemma ledger_closeConn: "ledger H s \<Longrightarrow> ledger H (closeConn p c s)"
  by (auto simp: closeConn_def split: option.split intro!: ledger_upd_peer)

lemma ledger_Send: "ledger H s \<Longrightarrow> ledger H (fst (SendCustomMessage E p m s))"
  by (auto simp: SendCustomMessage_def Let_def split: option.split intro!: ledger_upd_peer)

lemma ledger_set_conn: "ledger H s \<Longrightarrow> ledger H (set_conn E p c s)"
  by (auto simp: set_conn_def intro!: ledger_upd_peer)

lemma ledger_lookup: "ledger H s \<Longrightarrow> ledger H (snd (lookup_or_new E adnl s))"
proof (cases "map_of (activePeers s) adnl")
  case None
  assume l: "ledger H s"
  then have t: "table_wf (snd (lookup_or_new E adnl s))" by (intro table_wf_lookup) (simp add: ledger_def)
  have h: "H (length (peers s)) = 0"
    using l unfolding ledger_def peer_valid_def by (metis less_irrefl order_le_less)
  show ?thesis
    using l t h None
    by (auto simp: ledger_def lookup_or_new_def refs_def peer_valid_def nth_append new_peer_def less_Suc_eq)
qed (simp add: lookup_or_new_def)

lemma ledger_addPeer: "ledger H s \<Longrightarrow> ledger H (snd (addPeer E adnl c s))"
  using ledger_lookup [of H s E adnl] ledger_set_conn
  by (auto simp: addPeer_def split: prod.split option.split)

lemma ledger_discover_start: "ledger H s \<Longrightarrow> ledger H (discover_start p s)"
  by (auto simp: discover_start_def intro!: ledger_upd_peer)

lemma ledger_discover_finish: "ledger H s \<Longrightarrow> ledger H (fst (discover_finish E p s))"
  by (auto simp: discover_finish_def Let_def split: option.split list.split intro!: ledger_upd_peer ledger_set_conn)

lemma ledger_AddReference:
  assumes "ledger H s" "peer_valid s p" "map_of (activePeers s) (peer_id (peers s ! p)) = Some p" "H p + 1 < 2 ^ 63"
  shows "ledger (H(p := H p + 1)) (AddReference p s)"
proof -
  have r: "refs s p = H p" "0 \<le> H p" using assms(1,2) by (auto simp: ledger_def)
  then have i: "i64 (refs s p + 1) = H p + 1" using assms(4) by (intro i64_id [THEN trans]) (auto simp: is_i64_def)
  have v: "peer_valid (AddReference p s) = peer_valid s" by (auto simp: peer_valid_def peer_simps fun_eq_iff)
  have t: "table_wf (AddReference p s)" using assms(1) by (intro table_wf_AddReference) (simp add: ledger_def)
  show ?thesis
    using assms(1-3) t v r i peer_refs.count_acquire [OF assms(2)] by (auto simp: ledger_def peer_simps)
qed

lemma ledger_remove:
  assumes "ledger H s" "\<And>q. map_of (activePeers s) (peer_id (peers s ! p)) = Some q \<Longrightarrow> H q = 0"
  shows "ledger H (remove_peer p s)"
proof -
  have t: "table_wf (remove_peer p s)" using assms(1) by (intro table_wf_remove) (simp add: ledger_def)
  have i: "peer_id (peers (remove_peer p s) ! q) = peer_id (peers s ! q)" for q
    by (simp add: remove_peer_def peer_simps)
  have v: "peer_valid (remove_peer p s) = peer_valid s" by (auto simp: peer_valid_def peer_simps fun_eq_iff)
  have "peer_id (peers s ! q) \<noteq> peer_id (peers s ! p)" if "0 < H q" for q
    using assms that by (force simp: ledger_def)
  then show ?thesis using assms(1) t v i by (auto simp: ledger_def peer_simps)
qed

lemma ledger_kill:
  assumes "ledger H s" "\<And>q. map_of (activePeers s) (peer_id (peers s ! p)) = Some q \<Longrightarrow> H q = 0"
  shows "ledger H (kill p s)"
  unfolding kill_def using assms by (intro ledger_remove ledger_closeConn) (simp_all add: peer_simps)

lemma ledger_Dereference:
  assumes "ledger H s" "0 < H p" "H p < 2 ^ 63"
  shows "ledger (H(p := H p - 1)) (Dereference p s)"
proof -
  have v: "peer_valid s p" and a: "map_of (activePeers s) (peer_id (peers s ! p)) = Some p" and r: "refs s p = H p"
    using assms(1,2) by (auto simp: ledger_def)
  define t where "t = upd_peer p (\<lambda>q. q\<lparr>references := i64 (references q - 1)\<rparr>) s"
  have i: "i64 (H p - 1) = H p - 1" using assms(2,3) by (intro i64_id) (simp add: is_i64_def)
  have rt: "refs t q = (if q = p then H p - 1 else refs s q)" if "peer_valid s q" for q
    using that v r i by (auto simp: t_def refs_def peer_simps peer_valid_def)
  have pid: "peer_id (peers t ! q) = peer_id (peers s ! q)" and vt: "peer_valid t q = peer_valid s q"
    and at: "activePeers t = activePeers s" for q
    by (simp_all add: t_def peer_simps peer_valid_def)
  have "table_wf t" using assms(1) by (auto simp: t_def ledger_def intro!: table_wf_upd)
  then have t: "ledger (H(p := H p - 1)) t" using assms(1,2) rt pid vt at v a by (auto simp: ledger_def)
  have "ledger (H(p := H p - 1)) (remove_peer p (closeConn p None t))" if "H p = 1"
    using t that a at pid by (intro ledger_remove ledger_closeConn) (auto simp: peer_simps)
  moreover have "references (peers t ! p) = H p - 1" using rt [OF v] by (simp add: refs_def)
  ultimately show ?thesis using t assms(2)
    by (cases "H p = 1") (auto simp: Dereference_def t_def [symmetric] Let_def)
qed

section \<open>Holders\<close>

definition peers_of :: "tun_section \<Rightarrow> ptr list" where
  "peers_of sc = map (tgtPeer \<circ> rTarget \<circ> snd) (routes sc)
     @ (case sec_out sc of None \<Rightarrow> [] | Some ot \<Rightarrow> [inboundPeer ot])"

definition holders :: "'a gateway_scheme \<Rightarrow> ptr \<Rightarrow> int" where
  "holders s p = live_sum (\<lambda>sc. int (count_list (peers_of sc) p)) s"

lemma holders_upd:
  "gw_inv s \<Longrightarrow> live s sp \<Longrightarrow> holders (upd_sec sp f s) p
     = holders s p - int (count_list (peers_of (sec s sp)) p) + int (count_list (peers_of (f (sec s sp))) p)"
  unfolding holders_def by (rule live_sum_upd)

lemma holders_same:
  assumes "inboundSections s' = inboundSections s" "\<And>q. peers_of (sec s' q) = peers_of (sec s q)"
  shows "holders s' = holders s"
  unfolding holders_def fun_eq_iff by (intro allI live_sum_same [OF assms(1)]) (simp add: assms(2))

lemma count_peers_of_route:
  "map_of (routes sc) rid = Some r \<Longrightarrow> int (count_list (peers_of (upd_route rid f sc)) p)
     = int (count_list (peers_of sc) p) - (if tgtPeer (rTarget r) = p then 1 else 0)
       + (if tgtPeer (rTarget (f r)) = p then 1 else 0)"
  using count_mput [of "routes sc" rid r "tgtPeer \<circ> rTarget" "f r" p]
  by (simp add: peers_of_def upd_route_def comp_assoc)

lemma peers_of_same:
  "peers_of (sc\<lparr>lastPacketAt := t\<rparr>) = peers_of sc" "peers_of (sc\<lparr>sec_seqno := w\<rparr>) = peers_of sc"
  "peers_of (sc\<lparr>seqnoCached := w\<rparr>) = peers_of sc" "peers_of (sc\<lparr>sec_payments := m\<rparr>) = peers_of sc"
  "peers_of (sc\<lparr>cachedActions := a\<rparr>) = peers_of sc" "peers_of (sc\<lparr>cachedActionsVer := v\<rparr>) = peers_of sc"
  by (simp_all add: peers_of_def)

lemma peers_of_upd_route:
  assumes "\<And>r. tgtPeer (rTarget (f r)) = tgtPeer (rTarget r)"
  shows "peers_of (upd_route rid f sc) = peers_of sc"
proof (cases "map_of (routes sc) rid")
  case (Some r)
  have "map_of m rid = Some r \<Longrightarrow> map (tgtPeer \<circ> rTarget \<circ> snd) (mput rid (f r) m) = map (tgtPeer \<circ> rTarget \<circ> snd) m"
    for m :: "(u32, route) gomap"
    using assms by (induction m) auto
  with Some show ?thesis by (simp add: peers_of_def upd_route_def)
qed (simp add: upd_route_def)

lemma peers_of_upd_out:
  "(\<And>ot. inboundPeer (f ot) = inboundPeer ot) \<Longrightarrow> peers_of (upd_out f sc) = peers_of sc"
  by (simp add: peers_of_def upd_out_def split: option.split)

section \<open>The account of a gateway\<close>

definition account :: "(ptr \<Rightarrow> int) \<Rightarrow> 'a gateway_scheme \<Rightarrow> bool" where
  "account ext s \<longleftrightarrow> gw_inv s \<and> ledger (\<lambda>p. ext p + holders s p) s"

text \<open>There is room for the count of every peer in 64 bits.\<close>

definition roomy :: "(ptr \<Rightarrow> int) \<Rightarrow> 'a gateway_scheme \<Rightarrow> bool" where
  "roomy ext s \<longleftrightarrow> (\<forall>p. 0 \<le> ext p \<and> ext p + 4 * int (length (sections s)) + 8 < 2 ^ 63)"

lemma count_peers_of_le: "section_ok ids nc sc \<Longrightarrow> count_list (peers_of sc) p \<le> 4"
proof -
  assume "section_ok ids nc sc"
  then have "length (peers_of sc) \<le> 4" by (simp add: section_ok_def peers_of_def split: option.split)
  with count_le_length [of "peers_of sc" p] show ?thesis by linarith
qed

lemma holders_le:
  assumes "gw_inv s"
  shows "0 \<le> holders s p" "holders s p \<le> 4 * int (length (sections s))"
proof -
  let ?xs = "map snd (inboundSections s)"
  have v: "sec_valid s q" if "q \<in> set ?xs" for q using that live_valid [OF assms] by (simp add: live_def)
  then have c: "count_list (peers_of (sec s q)) p \<le> 4" if "q \<in> set ?xs" for q
    using that count_peers_of_le [OF gw_inv_section [OF assms]] by blast
  have "sum_list (map (\<lambda>q. int (count_list (peers_of (sec s q)) p)) ys) \<le> 4 * int (length ys)"
    if "set ys \<subseteq> set ?xs" for ys
    using that c by (induction ys) (auto simp: algebra_simps, fastforce)
  then have "holders s p \<le> 4 * int (length ?xs)" unfolding holders_def live_sum_def by blast
  moreover have "length ?xs \<le> length (sections s)"
  proof -
    have "set ?xs \<subseteq> {..<length (sections s)}" using v by (auto simp: sec_valid_def)
    then have "card (set ?xs) \<le> card {..<length (sections s)}" by (intro card_mono) auto
    then show ?thesis using distinct_card [OF inbound_distinct [OF assms]] by simp
  qed
  ultimately show "holders s p \<le> 4 * int (length (sections s))" by simp
  show "0 \<le> holders s p" unfolding holders_def live_sum_def by (rule sum_list_nonneg) auto
qed

section \<open>Operations that move no reference\<close>

definition quiet :: "'a gateway_scheme \<Rightarrow> 'a gateway_scheme \<Rightarrow> bool" where
  "quiet s s' \<longleftrightarrow> inboundSections s' = inboundSections s \<and> length (sections s') = length (sections s) \<and>
     (\<forall>q. peers_of (sec s' q) = peers_of (sec s q)) \<and> (\<forall>H. ledger H s \<longrightarrow> ledger H s')"

lemma quiet_refl [simp]: "quiet s s"
  by (simp add: quiet_def)

lemma quiet_trans [trans]: "quiet s t \<Longrightarrow> quiet t u \<Longrightarrow> quiet s u"
  by (simp add: quiet_def)

lemma quiet_account: "account ext s \<Longrightarrow> gw_inv s' \<Longrightarrow> quiet s s' \<Longrightarrow> account ext s'"
  using holders_same [of s' s] by (simp add: account_def quiet_def)

lemma quiet_roomy: "quiet s s' \<Longrightarrow> roomy ext s' = roomy ext s"
  by (simp add: quiet_def roomy_def)

lemma quiet_net: "net_step s s' \<Longrightarrow> (\<And>H. ledger H s \<Longrightarrow> ledger H s') \<Longrightarrow> quiet s s'"
  by (simp add: quiet_def net_step_fields)

lemma quiet_nets:
  "quiet s (emit c s)" "quiet s (spawn t s)" "quiet s (closeConn p cmp s)" "quiet s (fst (SendCustomMessage E p m s))"
  "quiet s (snd (addPeer E adnl conn s))" "quiet s (discover_start p s)" "quiet s (fst (discover_finish E p s))"
  by (rule quiet_net; simp add: ledger_closeConn ledger_Send ledger_addPeer ledger_discover_start ledger_discover_finish)+

lemma quiet_upd_peer:
  "(\<And>q. peer_id (f q) = peer_id q) \<Longrightarrow> (\<And>q. references (f q) = references q) \<Longrightarrow> quiet s (upd_peer p f s)"
  by (rule quiet_net) (simp_all add: ledger_upd_peer)

lemma quiet_upd_sec: "peers_of (f (sec s sp)) = peers_of (sec s sp) \<Longrightarrow> quiet s (upd_sec sp f s)"
  using ledger_frame [of "upd_sec sp f s" s] by (simp add: quiet_def)

lemma quiet_frame:
  "peers s' = peers s \<Longrightarrow> activePeers s' = activePeers s \<Longrightarrow> sections s' = sections s \<Longrightarrow>
     inboundSections s' = inboundSections s \<Longrightarrow> quiet s s'"
  using ledger_frame [of s' s] by (simp add: quiet_def)

interpretation quiet: section_frame peers_of quiet
proof unfold_locales
  show "quiet s s'" if "peers s' = peers s" "activePeers s' = activePeers s" "sections s' = sections s"
      "inboundSections s' = inboundSections s" for s s' :: "'a gateway_scheme"
    using that by (rule quiet_frame)
  show "inboundSections s' = inboundSections s" "length (sections s') = length (sections s)" if "quiet s s'" for s s' :: "'a gateway_scheme"
    using that by (simp_all add: quiet_def)
qed (fact quiet_refl quiet_trans quiet_nets quiet_upd_peer quiet_upd_sec peers_of_same peers_of_upd_out
    | simp add: peers_of_upd_route)+

section \<open>Operations that move references\<close>

lemma account_bound:
  assumes "account ext s" "roomy ext s"
  shows "ext p + holders s p + 1 < 2 ^ 63" "0 \<le> ext p + holders s p"
proof -
  have "gw_inv s" using assms(1) by (simp add: account_def)
  note h = holders_le [OF this, of p]
  from assms(2) have "0 \<le> ext p" "ext p + 4 * int (length (sections s)) + 8 < 2 ^ 63" by (auto simp: roomy_def)
  with h show "ext p + holders s p + 1 < 2 ^ 63" "0 \<le> ext p + holders s p" by linarith+
qed

lemma account_ledger: "account ext s \<Longrightarrow> ledger (\<lambda>p. ext p + holders s p) s"
  by (simp add: account_def)

lemma holders_ge: "live s sp \<Longrightarrow> int (count_list (peers_of (sec s sp)) p) \<le> holders s p"
  unfolding holders_def by (rule live_sum_ge) simp_all

lemma held_pos:
  assumes "account ext s" "roomy ext s" "live s sp" "p \<in> set (peers_of (sec s sp))"
  shows "0 < ext p + holders s p"
proof -
  have "0 < count_list (peers_of (sec s sp)) p" using assms(4) by (metis count_list_0_iff gr0I)
  moreover have "0 \<le> ext p" using assms(2) by (simp add: roomy_def)
  ultimately show ?thesis using holders_ge [OF assms(3), of p] by linarith
qed

lemma account_held:
  assumes "account ext s" "roomy ext s" "live s sp" "p \<in> set (peers_of (sec s sp))"
  shows "map_of (activePeers s) (peer_id (peers s ! p)) = Some p" "peer_valid s p"
  using held_pos [OF assms] account_ledger [OF assms(1)] by (auto simp: ledger_def)

lemma peer_in_table:
  assumes "table_wf s" "addPeer E adnl c s = (p, t)"
  shows "peer_valid t p" "peer_id (peers t ! p) = adnl" "map_of (activePeers t) (peer_id (peers t ! p)) = Some p"
proof -
  have t: "table_wf t" using table_wf_addPeer [OF assms(1), of E adnl c] assms(2) by simp
  have a: "map_of (activePeers t) adnl = Some p" "peer_valid t p"
    using addPeer_in_table [OF assms(1), of E adnl c] assms(2) by simp_all
  with t show "peer_valid t p" "peer_id (peers t ! p) = adnl" "map_of (activePeers t) (peer_id (peers t ! p)) = Some p"
    by (auto simp: table_wf_def)
qed

lemma points_to_peer: "points_to (peer_ids s) p adnl \<Longrightarrow> peer_valid s p \<and> peer_id (peers s ! p) = adnl"
  by (auto simp: points_to_def peer_ids_def peer_valid_def)

lemma account_transfer:
  assumes "gw_inv s'" "ledger H s'" "\<And>p. H p = ext p + holders s' p"
  shows "account ext s'"
proof -
  have "H = (\<lambda>p. ext p + holders s' p)" using assms(3) by (rule ext)
  with assms(1,2) show ?thesis by (simp add: account_def)
qed

lemma ledger_upd_sec [simp]:
  "ledger H (upd_sec sp f s) = ledger H s" "ledger H (gauge_routes b d s) = ledger H s" "ledger H (gauge_outs b d s) = ledger H s"
  "ledger H (move_gauge x y s) = ledger H s"
  by (rule ledger_frame; simp add: move_gauge_def)+

lemma route_in_peers_of: "map_of (routes sc) rid = Some r \<Longrightarrow> tgtPeer (rTarget r) \<in> set (peers_of sc)"
  by (force simp: peers_of_def dest: map_of_SomeD)

lemma out_in_peers_of: "sec_out sc = Some ot \<Longrightarrow> inboundPeer ot \<in> set (peers_of sc)"
  by (simp add: peers_of_def)

lemma holders_net: "net_step s s' \<Longrightarrow> holders s' = holders s"
  by (rule holders_same) (simp_all add: net_step_fields)

lemma account_addPeer:
  assumes "account ext s" "addPeer E adnl c s = (p, t)"
  shows "account ext t" "holders t = holders s" "live t sp = live s sp" "roomy ext t = roomy ext s" "sections t = sections s"
    and "inboundSections t = inboundSections s" "gw_inv t" "peer_valid t p" "peer_id (peers t ! p) = adnl"
    "map_of (activePeers t) (peer_id (peers t ! p)) = Some p"
proof -
  have n: "net_step s t" and q: "quiet s t" and g: "gw_inv t"
    using net_step_addPeer [of s E adnl c] quiet_nets(5) [of s E adnl c] gw_inv_nets(7) [of s E adnl c] assms
    by (simp_all add: account_def)
  show "account ext t" by (rule quiet_account [OF assms(1) g q])
  show "holders t = holders s" "live t sp = live s sp" "roomy ext t = roomy ext s" "sections t = sections s"
      "inboundSections t = inboundSections s" "gw_inv t"
    using n q g by (simp_all add: holders_net live_net quiet_roomy net_step_fields)
  have "table_wf s" using assms(1) by (simp add: account_def)
  from peer_in_table [OF this assms(2)] show "peer_valid t p" "peer_id (peers t ! p) = adnl"
    "map_of (activePeers t) (peer_id (peers t ! p)) = Some p" by blast+
qed

lemma retarget_branches:
  "retarget sp rid r target s = s \<or> tgtADNL (rTarget r) \<noteq> tgtADNL target \<or>
   (tgtADNL (rTarget r) = tgtADNL target \<and> retarget sp rid r target s
      = upd_sec sp (upd_route rid (\<lambda>r. r\<lparr>rTarget := target\<rparr>)) (move_gauge (tgtPrice (rTarget r)) (tgtPrice target) s))"
  by (simp add: retarget_def Let_def)

lemma holders_retargeted:
  assumes "live s sp" "map_of (routes (sec s sp)) rid = Some r"
    and "gw_inv u" "sections u = sections s" "inboundSections u = inboundSections s"
  shows "holders (upd_sec sp (upd_route rid (\<lambda>r. r\<lparr>rTarget := target\<rparr>)) u) p
    = holders s p - (if tgtPeer (rTarget r) = p then 1 else 0) + (if tgtPeer target = p then 1 else 0)"
  using holders_upd [of u sp "upd_route rid (\<lambda>r. r\<lparr>rTarget := target\<rparr>)" p] assms
    count_peers_of_route [OF assms(2), of "\<lambda>r. r\<lparr>rTarget := target\<rparr>" p] holders_same [of u s]
  by (simp add: live_def)

text \<open>A reference is taken on the new peer before that on the old one is given back.\<close>

lemma ledger_exchange:
  fixes ext s
  defines "H \<equiv> \<lambda>p. ext p + holders s p"
  assumes a: "account ext s" "roomy ext s" and old: "0 < H old" "old \<noteq> new"
    and new: "peer_valid s new" "map_of (activePeers s) (peer_id (peers s ! new)) = Some new"
  shows "ledger ((H(new := H new + 1))(old := H old - 1)) (Dereference old (AddReference new s))"
proof -
  have "ledger (H(new := H new + 1)) (AddReference new s)"
    using a(1) new account_bound(1) [OF a, of new] unfolding H_def by (intro ledger_AddReference) (simp_all add: account_def)
  then show ?thesis
    using ledger_Dereference [of "H(new := H new + 1)" "AddReference new s" old] old account_bound(1) [OF a, of old] by (simp add: H_def)
qed

lemma account_retarget:
  assumes a: "account ext s" "roomy ext s" "live s sp" and r: "map_of (routes (sec s sp)) rid = Some r"
    and t: "peer_valid s (tgtPeer target)" "peer_id (peers s ! tgtPeer target) = tgtADNL target"
      "map_of (activePeers s) (tgtADNL target) = Some (tgtPeer target)"
  shows "account ext (retarget sp rid r target s)"
proof -
  have g: "gw_inv s" and lg: "ledger (\<lambda>p. ext p + holders s p) s" using a(1) by (simp_all add: account_def)
  have inv: "gw_inv (retarget sp rid r target s)"
    using g t by (intro gw_inv_retarget) (simp_all add: points_to_def peer_ids_def peer_valid_def)
  let ?old = "tgtPeer (rTarget r)" let ?new = "tgtPeer target" let ?H = "\<lambda>p. ext p + holders s p"
  have ok: "peer_id (peers s ! ?old) = tgtADNL (rTarget r)"
    using points_to_peer section_ok_route [OF gw_inv_section [OF g live_valid [OF g a(3)]] r] by (auto simp: route_ok_def)
  note held = held_pos [OF a route_in_peers_of [OF r]] account_held [OF a route_in_peers_of [OF r]]
  note h = holders_retargeted [OF a(3) r, where target = target]
  consider (same) "retarget sp rid r target s = s"
    | (moved) "tgtADNL (rTarget r) \<noteq> tgtADNL target"
    | (kept) "tgtADNL (rTarget r) = tgtADNL target" "retarget sp rid r target s
        = upd_sec sp (upd_route rid (\<lambda>r. r\<lparr>rTarget := target\<rparr>)) (move_gauge (tgtPrice (rTarget r)) (tgtPrice target) s)"
    using retarget_branches [of sp rid r target s] by blast
  then show ?thesis
  proof cases
    case same
    then show ?thesis using a(1) by simp
  next
    case moved
    then have ne: "?old \<noteq> ?new" using ok t by auto
    let ?u = "move_gauge (tgtPrice (rTarget r)) (tgtPrice target) (Dereference ?old (AddReference ?new s))"
    have "retarget sp rid r target s = upd_sec sp (upd_route rid (\<lambda>r. r\<lparr>rTarget := target\<rparr>)) ?u"
      using moved by (simp add: retarget_def Let_def)
    moreover have "gw_inv ?u" "sections ?u = sections s" "inboundSections ?u = inboundSections s"
      using g by (simp_all add: move_gauge_def gw_inv_nets)
    ultimately show ?thesis using inv h [of ?u] ne ledger_exchange [OF a(1,2) held(1) ne] t
      by (intro account_transfer [where H = "(?H(?new := ?H ?new + 1))(?old := ?H ?old - 1)"]) simp_all
  next
    case kept
    let ?u = "move_gauge (tgtPrice (rTarget r)) (tgtPrice target) s"
    have "?old = ?new" using held(2) ok kept(1) t(3) by simp
    moreover have "gw_inv ?u" "sections ?u = sections s" "inboundSections ?u = inboundSections s"
      using g by (simp_all add: move_gauge_def)
    ultimately show ?thesis using inv h [of ?u] lg kept(2)
      by (intro account_transfer [where H = ?H]) simp_all
  qed
qed

lemma account_add_holder:
  assumes a: "account ext s" "roomy ext s" "live s sp" and p: "peer_valid s p" "map_of (activePeers s) (peer_id (peers s ! p)) = Some p"
    and inv: "gw_inv s'" and s': "ledger (\<lambda>q. if q = p then ext q + holders s q + 1 else ext q + holders s q) s'
        = ledger (\<lambda>q. if q = p then ext q + holders s q + 1 else ext q + holders s q) (AddReference p s)"
    and h: "\<And>q. holders s' q = holders s q + (if q = p then 1 else 0)"
  shows "account ext s'"
proof -
  let ?H = "\<lambda>q. ext q + holders s q"
  have e: "?H(p := ?H p + 1) = (\<lambda>q. if q = p then ext q + holders s q + 1 else ext q + holders s q)" by auto
  have "ledger (?H(p := ?H p + 1)) (AddReference p s)"
    using account_ledger [OF a(1)] p account_bound(1) [OF a(1,2), of p] by (intro ledger_AddReference) simp_all
  then have "ledger (\<lambda>q. if q = p then ext q + holders s q + 1 else ext q + holders s q) s'" using s' e by simp
  from account_transfer [OF inv this] h show ?thesis by simp
qed

lemma account_BuildRoute:
  assumes a: "account ext s" "roomy ext s" "live s sp"
  shows "account ext (fst (BuildRoute_Execute E sp adnl key rid price s))"
proof -
  obtain p t where ad: "addPeer E adnl None s = (p, t)" by fastforce
  note t = account_addPeer [OF a(1) ad]
  define target where "target = \<lparr>tgtPeer = p, tgtADNL = adnl, tgtSectionKey = key, tgtPrice = price\<rparr>"
  have at: "account ext t" "roomy ext t" "live t sp" using t a by simp_all
  have inv: "gw_inv (fst (BuildRoute_Execute E sp adnl key rid price s))"
    using a(1) by (intro gw_inv_BuildRoute) (simp add: account_def)
  show ?thesis
  proof (cases "map_of (routes (sec t sp)) rid")
    case (Some r)
    have "account ext (retarget sp rid r target t)"
      using t(8-10) by (intro account_retarget [OF at Some]) (simp_all add: target_def)
    with a(1) show ?thesis by (simp add: BuildRoute_Execute_def ad Some Let_def target_def)
  next
    case None
    let ?f = "\<lambda>sc. sc\<lparr>routes := mput rid (new_route rid target) (routes sc)\<rparr>"
    let ?u = "gauge_routes (0 < price) 1 (upd_sec sp ?f (AddReference p t))"
    show ?thesis
    proof (cases "fst (BuildRoute_Execute E sp adnl key rid price s) = ?u")
      case True
      have "holders ?u q = holders t q + (if q = p then 1 else 0)" for q
      proof -
        have i: "gw_inv (AddReference p t)" using t(7) by (rule gw_inv_nets)
        have "holders ?u q = holders (upd_sec sp ?f (AddReference p t)) q" by (rule fun_cong [OF holders_same]) simp_all
        also have "\<dots> = holders (AddReference p t) q - int (count_list (peers_of (sec t sp)) q)
            + int (count_list (peers_of (?f (sec t sp))) q)"
          using holders_upd [OF i, of sp ?f q] at(3) by (simp add: live_def)
        also have "int (count_list (peers_of (?f (sec t sp))) q) = int (count_list (peers_of (sec t sp)) q) + (if q = p then 1 else 0)"
          using None by (simp add: peers_of_def mput_new new_route_def target_def)
        finally show ?thesis using holders_net [OF net_step_AddReference [of t p]] by simp
      qed
      then have "account ext ?u" using inv t(8,10) unfolding True by (intro account_add_holder [OF at]) simp_all
      with True show ?thesis by simp
    next
      case False
      then have "fst (BuildRoute_Execute E sp adnl key rid price s) \<in> {s, t}"
        by (auto simp: BuildRoute_Execute_def ad None Let_def target_def split: if_splits)
      then show ?thesis using a(1) at(1) by auto
    qed
  qed
qed

lemma count_peers_of_out:
  "sec_out sc = Some ot \<Longrightarrow> int (count_list (peers_of (upd_out f sc)) p)
     = int (count_list (peers_of sc) p) - (if inboundPeer ot = p then 1 else 0) + (if inboundPeer (f ot) = p then 1 else 0)"
  by (simp add: peers_of_def upd_out_def)

lemma account_rebind:
  assumes a: "account ext s" "roomy ext s" "live s sp" and ot: "sec_out (sec s sp) = Some ot"
  shows "account ext (rebind_out E sp ot adnl sharedKey key ins price s)"
proof -
  have g: "gw_inv s" and lg: "ledger (\<lambda>p. ext p + holders s p) s" using a(1) by (simp_all add: account_def)
  have inv: "gw_inv (rebind_out E sp ot adnl sharedKey key ins price s)"
    by (rule gw_inv_rebind [OF g live_valid [OF g a(3)] ot])
  let ?old = "inboundPeer ot" let ?H = "\<lambda>p. ext p + holders s p"
  let ?set = "\<lambda>p q. q\<lparr>inboundPeer := p, InboundADNL := adnl, PayloadCipherKey := sharedKey,
      PayloadCipherKeyCRC := crc64 sharedKey, InboundSectionKey := key, outInstructions := ins, outPrice := uint price\<rparr>"
  have h: "holders (upd_sec sp (upd_out (?set n)) u) p = holders s p - (if ?old = p then 1 else 0) + (if n = p then 1 else 0)"
    if "gw_inv u" "sections u = sections s" "inboundSections u = inboundSections s" for n p u
    using holders_upd [of u sp "upd_out (?set n)" p] that a(3) count_peers_of_out [OF ot, of "?set n" p] holders_same [of u s]
    by (simp add: live_def)
  note held = held_pos [OF a out_in_peers_of [OF ot]]
  show ?thesis
  proof (cases "InboundADNL ot = adnl")
    case True
    have "rebind_out E sp ot adnl sharedKey key ins price s \<in> {s, upd_sec sp (upd_out (?set ?old)) s}"
      using True by (auto simp: rebind_out_def Let_def)
    moreover have "account ext (upd_sec sp (upd_out (?set ?old)) s)"
      if "rebind_out E sp ot adnl sharedKey key ins price s = upd_sec sp (upd_out (?set ?old)) s"
      using inv that h [OF g] lg by (intro account_transfer [where H = ?H]) simp_all
    ultimately show ?thesis using a(1) by auto
  next
    case False
    let ?d = "Dereference ?old s"
    let ?H1 = "?H(?old := ?H ?old - 1)"
    have l1: "ledger ?H1 ?d" using ledger_Dereference [OF lg] held account_bound(1) [OF a(1,2), of ?old] by simp
    obtain p t where ad: "addPeer E adnl None ?d = (p, t)" by fastforce
    have l2: "ledger ?H1 t" using ledger_addPeer [OF l1, of E adnl None] ad by simp
    have d: "gw_inv ?d" using g by (rule gw_inv_nets)
    have p: "peer_valid t p" "peer_id (peers t ! p) = adnl" "map_of (activePeers t) (peer_id (peers t ! p)) = Some p"
      using peer_in_table [OF _ ad] d by simp_all
    have n: "net_step ?d t" using net_step_addPeer [of ?d E adnl None] ad by simp
    have "H1 + 1 < 2 ^ 63" if "H1 = ?H1 p" for H1
      using that account_bound(1) [OF a(1,2), of p] account_bound(1) [OF a(1,2), of ?old] by (auto split: if_splits)
    then have l3: "ledger (?H1(p := ?H1 p + 1)) (AddReference p t)"
      using l2 p by (intro ledger_AddReference) simp_all
    let ?u = "AddReference p t"
    have u: "gw_inv ?u" "sections ?u = sections s" "inboundSections ?u = inboundSections s"
      using gw_inv_nets(7) [OF d, of E adnl None] ad net_step_fields [OF n] by (simp_all add: gw_inv_nets)
    have "rebind_out E sp ot adnl sharedKey key ins price s = upd_sec sp (upd_out (?set p)) ?u"
      using False by (simp add: rebind_out_def Let_def ad)
    with inv h [OF u] l3 show ?thesis
      by (intro account_transfer [where H = "?H1(p := ?H1 p + 1)"]) auto
  qed
qed

lemma account_BindOut:
  assumes a: "account ext s" "roomy ext s" "live s sp"
  shows "account ext (fst (BindOut_Execute C T E sp adnl key ins rc price s))"
proof -
  have g: "gw_inv s" using a(1) by (simp add: account_def)
  have inv: "gw_inv (fst (BindOut_Execute C T E sp adnl key ins rc price s))"
    by (rule gw_inv_BindOut [OF g live_valid [OF g a(3)]])
  let ?l = "emit CallListenPacket s"
  have l: "account ext ?l" by (rule quiet_account [OF a(1) _ quiet_nets(1)]) (simp add: gw_inv_nets g)
  have al: "roomy ext ?l" "live ?l sp" using a quiet_roomy [OF quiet_nets(1)] quiet.live_same [OF quiet_nets(1)] by blast+
  show ?thesis
  proof (cases "sec_out (sec s sp)")
    case (Some ot)
    have "account ext (rebind_out E sp ot adnl sk key ins pr s)" for sk pr by (rule account_rebind [OF a Some])
    then have "account ext (bind_done C T E sp (rebind_out E sp ot adnl sk key ins pr s))" for sk pr
      using quiet_account quiet.binding_done gw_inv_bind_done account_def by blast
    with a(1) show ?thesis by (simp add: BindOut_Execute_def Some Let_def split: option.split)
  next
    case None
    obtain p t where ad: "addPeer E adnl None ?l = (p, t)" by fastforce
    note t = account_addPeer [OF l ad]
    have at: "account ext t" "roomy ext t" "live t sp" using t al by simp_all
    have "account ext (AddReference p (gauge_outs b 1 (upd_sec sp (\<lambda>sc. sc\<lparr>sec_out := Some (new_out p port adnl sk key ins pr)\<rparr>) t)))"
      (is "account ext ?u") for b port sk pr
    proof (rule account_add_holder [OF at t(8,10)])
      let ?f = "\<lambda>sc. sc\<lparr>sec_out := Some (new_out p port adnl sk key ins pr)\<rparr>"
      have "points_to (peer_ids t) p adnl" using t(8,9) by (simp add: points_to_def peer_ids_def peer_valid_def)
      then have "gw_inv (upd_sec sp ?f t)"
        using t(7) by (intro gw_inv_upd_sec section_ok_set_out) (auto simp: out_ok_def new_out_def MaxInt64_def)
      then show "gw_inv ?u" by (simp add: gw_inv_nets)
      have e: "peers ?u = peers (AddReference p t)" "activePeers ?u = activePeers (AddReference p t)"
        by (simp_all add: AddReference_def peer_simps)
      show "ledger (\<lambda>q. if q = p then ext q + holders t q + 1 else ext q + holders t q) ?u =
            ledger (\<lambda>q. if q = p then ext q + holders t q + 1 else ext q + holders t q) (AddReference p t)"
        by (rule ledger_frame [OF e])
      fix q
      have "holders ?u q = holders (upd_sec sp ?f t) q" by (rule fun_cong [OF holders_same]) simp_all
      also have "\<dots> = holders t q - int (count_list (peers_of (sec t sp)) q) + int (count_list (peers_of (?f (sec t sp))) q)"
        by (rule holders_upd [OF t(7) at(3)])
      also have "int (count_list (peers_of (?f (sec t sp))) q) = int (count_list (peers_of (sec t sp)) q) + (if q = p then 1 else 0)"
        using None t(5) by (simp add: peers_of_def new_out_def)
      finally show "holders ?u q = holders t q + (if q = p then 1 else 0)" by simp
    qed
    then have "account ext (bind_done C T E sp (AddReference p (gauge_outs b 1
        (upd_sec sp (\<lambda>sc. sc\<lparr>sec_out := Some (new_out p port adnl sk key ins pr)\<rparr>) t))))" for b port sk pr
      using quiet_account quiet.binding_done gw_inv_bind_done account_def by blast
    with a(1) l show ?thesis by (simp add: BindOut_Execute_def None Let_def ad split: option.split)
  qed
qed

end
