(* ===== verification/Reference_Safety.thy ===== *)
theory Reference_Safety
  imports Reference_Accounting
begin

text \<open>
  Reference counts in the running gateway: closing a section releases exactly what it holds, and
  every step keeps the account, except for the two behaviours shown to break it (a section
  destroyed before the end of a message, and a kill that runs on a peer in use).
\<close>

section \<open>Closing a section\<close>

lemma ledger_Route_Close:
  "ledger H s \<Longrightarrow> 0 < H (tgtPeer (rTarget r)) \<Longrightarrow> H (tgtPeer (rTarget r)) < 2 ^ 63 \<Longrightarrow>
     ledger (H(tgtPeer (rTarget r) := H (tgtPeer (rTarget r)) - 1)) (Route_Close r s)"
  by (simp add: Route_Close_def ledger_Dereference)

lemma ledger_close_routes:
  assumes "ledger H s" "\<And>p. int (count_list (map (\<lambda>x. tgtPeer (rTarget x)) rs) p) \<le> H p" "\<And>p. H p < 2 ^ 63"
  shows "ledger (\<lambda>p. H p - int (count_list (map (\<lambda>x. tgtPeer (rTarget x)) rs) p)) (fold Route_Close rs s)"
  using assms
proof (induction rs arbitrary: H s)
  case (Cons r rs)
  let ?p = "tgtPeer (rTarget r)" let ?H = "H(?p := H ?p - 1)"
  have c: "int (count_list (map (\<lambda>x. tgtPeer (rTarget x)) rs) q) \<le> ?H q" for q
    using Cons.prems(2) [of q] by auto
  have "0 < H ?p" using Cons.prems(2) [of ?p] by simp
  then have "ledger ?H (Route_Close r s)" using Cons.prems by (intro ledger_Route_Close) auto
  moreover have "?H q < 2 ^ 63" for q using Cons.prems(3) [of q] by auto
  ultimately have "ledger (\<lambda>q. ?H q - int (count_list (map (\<lambda>x. tgtPeer (rTarget x)) rs) q)) (fold Route_Close rs (Route_Close r s))"
    using Cons.IH c by blast
  moreover have "(\<lambda>q. ?H q - int (count_list (map (\<lambda>x. tgtPeer (rTarget x)) rs) q))
      = (\<lambda>q. H q - int (count_list (map (\<lambda>x. tgtPeer (rTarget x)) (r # rs)) q))" by auto
  ultimately show ?case by simp
qed simp

lemma ledger_closePayments: "ledger H s \<Longrightarrow> ledger H (fold closePaymentChannel vs s)"
  using quiet.folded [of closePaymentChannel s vs, OF quiet.closing_payment] by (simp add: quiet_def)

lemma close_section_sections: "peers_of (sec (close_section sp s) q) = peers_of (sec s q)"
  by (simp add: close_section_def Let_def Out_Close_def peers_of_upd_out split: option.split)

lemma ledger_close_section:
  assumes "ledger H s" "\<And>p. int (count_list (peers_of (sec s sp)) p) \<le> H p" "\<And>p. H p < 2 ^ 63"
  shows "ledger (\<lambda>p. H p - int (count_list (peers_of (sec s sp)) p)) (close_section sp s)"
proof -
  define rs where "rs = map snd (routes (sec s sp))"
  let ?s1 = "fold closePaymentChannel (map snd (sec_payments (sec s sp))) s"
  let ?s2 = "fold Route_Close rs ?s1"
  let ?H2 = "\<lambda>p. H p - int (count_list (map (\<lambda>x. tgtPeer (rTarget x)) rs) p)"
  have pe: "peers_of (sec s sp) = map (\<lambda>x. tgtPeer (rTarget x)) rs @ (case sec_out (sec s sp) of None \<Rightarrow> [] | Some ot \<Rightarrow> [inboundPeer ot])"
    by (simp add: peers_of_def rs_def)
  have c: "int (count_list (map (\<lambda>x. tgtPeer (rTarget x)) rs) p) \<le> H p" for p
    using assms(2) [of p] by (simp add: pe)
  have l2: "ledger ?H2 ?s2" by (rule ledger_close_routes [OF ledger_closePayments [OF assms(1)] c assms(3)])
  have fr: "ledger K (t\<lparr>ActiveInboundSections := n\<rparr>) = ledger K t" for K n and t :: "'a gateway_scheme"
    by (rule ledger_frame) simp_all
  show ?thesis
  proof (cases "sec_out (sec s sp)")
    case None
    then show ?thesis using l2 by (simp add: close_section_def Let_def rs_def [symmetric] fr pe)
  next
    case (Some ot)
    let ?p = "inboundPeer ot"
    have "0 < ?H2 ?p" using assms(2) [of ?p] by (simp add: pe Some)
    moreover have "?H2 ?p < 2 ^ 63" using assms(3) [of ?p] by linarith
    ultimately have "ledger (?H2(?p := ?H2 ?p - 1)) (Out_Close sp ot ?s2)"
      using l2 ledger_Dereference [of ?H2 "emit (CallUdpClose (outPort ot)) (upd_sec sp (upd_out (\<lambda>q. q\<lparr>outClosed := True\<rparr>)) ?s2)" ?p]
      by (simp add: Out_Close_def)
    moreover have "?H2(?p := ?H2 ?p - 1) = (\<lambda>p. H p - int (count_list (peers_of (sec s sp)) p))"
      by (auto simp: pe Some)
    ultimately show ?thesis using Some by (simp add: close_section_def Let_def rs_def [symmetric] fr)
  qed
qed

lemma account_drop_section:
  assumes a: "account ext s" "roomy ext s" "live s sp"
  shows "account ext (drop_section E sp s)"
proof -
  let ?e = "emit (CallTryLock sp) s"
  have g: "gw_inv s" using a(1) by (simp add: account_def)
  have ae: "account ext ?e" by (rule quiet_account [OF a(1) _ quiet_nets(1)]) (simp add: gw_inv_nets g)
  show ?thesis
  proof (cases "try_lock E (outputs ?e) sp")
    case False
    then show ?thesis using ae by (simp add: drop_section_def closeIfNotLocked_def Let_def)
  next
    case True
    let ?c = "close_section sp ?e" let ?k = "secKey (sec s sp)"
    let ?d = "?c\<lparr>inboundSections := mdel ?k (inboundSections ?c)\<rparr>"
    have d: "drop_section E sp s = ?d" using True by (simp add: drop_section_def closeIfNotLocked_def Let_def)
    have inv: "gw_inv ?d" using gw_inv_drop_section [OF g, of E sp] d by simp
    have h: "holders ?e = holders s" by (rule holders_net) simp
    have "ledger (\<lambda>p. (ext p + holders s p) - int (count_list (peers_of (sec ?e sp)) p)) ?c"
    proof (rule ledger_close_section)
      show "ledger (\<lambda>p. ext p + holders s p) ?e" using account_ledger [OF ae] h by simp
      fix p
      show "int (count_list (peers_of (sec ?e sp)) p) \<le> ext p + holders s p"
        using holders_ge [OF a(3), of p] a(2) by (simp add: roomy_def add_increasing)
      show "ext p + holders s p < 2 ^ 63" using account_bound(1) [OF a(1,2), of p] by linarith
    qed
    then have l: "ledger (\<lambda>p. (ext p + holders s p) - int (count_list (peers_of (sec s sp)) p)) ?d"
      using ledger_frame [of ?d ?c] by simp
    have "holders ?d p = holders s p - int (count_list (peers_of (sec s sp)) p)" for p
      unfolding holders_def by (rule live_sum_drop [OF g a(3)]) (simp_all add: close_section_sections)
    then show ?thesis unfolding d using inv l by (intro account_transfer [OF inv l]) simp
  qed
qed

section \<open>Every step\<close>

lemma quiet_deliver:
  assumes "tunnel_ok proc"
  shows "quiet (fst st) (fst (fst (deliver proc t meta st)))"
proof -
  obtain s' buf e where p: "proc t (snd st) meta (fst st) = (s', buf, e)" by (metis prod_cases3)
  then have k: "gw_inv (fst st) \<longrightarrow> gw_inv s'" "sections s' = sections (fst st)" "inboundSections s' = inboundSections (fst st)"
      "activePeers s' = activePeers (fst st)" "peer_ids s' = peer_ids (fst st)" "refs s' = refs (fst st)"
    using assms unfolding tunnel_ok_def Let_def by (metis fst_conv)+
  have "ledger H s'" if "ledger H (fst st)" for H
  proof (rule ledger_cong [OF that _ k(5,4)])
    have "length (peers s') = length (peers (fst st))" using k(5) by (metis length_map peer_ids_def)
    moreover have "peer_id (peers s' ! p) = peer_id (peers (fst st) ! p)" if "p < length (peers (fst st))" for p
      using k(5) that \<open>length (peers s') = length (peers (fst st))\<close> by (metis nth_map peer_ids_def)
    ultimately show "table_wf s'" using that k(4) by (auto simp: ledger_def table_wf_def peer_valid_def)
  qed (simp add: k(6))
  with k show ?thesis by (simp add: deliver_def p quiet_def)
qed

lemma account_new_section:
  assumes "account ext s" "map_of (inboundSections s) key = None"
    and s': "s' = s\<lparr>sections := sections s @ [new_section E key shKey],
      inboundSections := mput key (length (sections s)) (inboundSections s), ActiveInboundSections := n\<rparr>"
    and "gw_inv s'"
  shows "account ext s'"
proof (rule account_transfer [OF assms(4)])
  show "ledger (\<lambda>p. ext p + holders s p) s'"
    using account_ledger [OF assms(1)] ledger_frame [of s' s] s' by simp
  have g: "gw_inv s" using assms(1) by (simp add: account_def)
  have "holders s' p = holders s p + int (count_list (peers_of (new_section E key shKey)) p)" for p
    unfolding holders_def by (rule live_sum_new [OF g assms(2)]) (simp_all add: s')
  then show "ext p + holders s p = ext p + holders s' p" for p by (simp add: peers_of_def new_section_def)
qed

text \<open>A peer may be killed when the one registered under its id is not in use.\<close>

definition unused :: "'a gateway_scheme \<Rightarrow> ptr \<Rightarrow> bool" where
  "unused s p \<longleftrightarrow> (\<forall>q. map_of (activePeers s) (peer_id (peers s ! p)) = Some q \<longrightarrow> refs s q = 0)"

lemma account_kill:
  assumes "account ext s" "unused s p"
  shows "account ext (kill p s)"
proof -
  have g: "gw_inv s" and l: "ledger (\<lambda>q. ext q + holders s q) s" using assms(1) by (simp_all add: account_def)
  have "ext q + holders s q = 0" if "map_of (activePeers s) (peer_id (peers s ! p)) = Some q" for q
    using assms(2) l that by (auto simp: unused_def ledger_def table_wf_def)
  then have "ledger (\<lambda>q. ext q + holders s q) (kill p s)" by (intro ledger_kill [OF l])
  moreover have "holders (kill p s) = holders s" by (rule holders_net) simp
  ultimately show ?thesis using gw_inv_nets(8) [OF g] by (simp add: account_def)
qed

definition has_room :: "(ptr \<Rightarrow> int) \<Rightarrow> nat \<Rightarrow> bool" where
  "has_room ext n \<longleftrightarrow> (\<forall>p. 0 \<le> ext p \<and> ext p + 4 * int n + 8 < 2 ^ 63)"

lemma has_room_roomy: "has_room ext (length (sections s)) = roomy ext s"
  by (simp add: has_room_def roomy_def)

lemma has_room_less: "has_room ext (Suc n) \<Longrightarrow> has_room ext n"
  unfolding has_room_def by (smt (verit) of_nat_Suc)

interpretation refs_account: section_account peers_of quiet "account ext" "has_room ext" tunnel_ok unused
  for ext
proof unfold_locales
  show "gw_inv s" if "account ext s" for s :: "'a gateway_scheme" using that by (simp add: account_def)
  show "unused (s\<lparr>pending := ks\<rparr>) p = unused s p" for s :: "'a gateway_scheme" and ks p
    by (simp add: unused_def refs_def)
qed (fact quiet_account quiet_deliver account_new_section account_kill has_room_less
    | simp add: has_room_roomy account_BuildRoute account_BindOut account_drop_section)+

section \<open>Runs\<close>

text \<open>
  The three behaviours excluded: a message that destroys its section before its last instruction,
  a kill that runs when the peer registered under the id is in use again, and 2^60 sections.
\<close>

definition polite :: "crypto \<Rightarrow> tlcodec \<Rightarrow> env \<Rightarrow> gw_event \<Rightarrow> 'a gateway_scheme \<Rightarrow> bool" where
  "polite C T E ev s \<longleftrightarrow> length (sections s) < 2 ^ 60 \<and>
     (case ev of
        EvMessage p (MsgEncrypted m) \<Rightarrow> destroys_last (opened C T E p m s)
      | EvTask (TaskKill p) \<Rightarrow> unused s p
      | _ \<Rightarrow> True)"

inductive polite_run ::
  "crypto \<Rightarrow> tlcodec \<Rightarrow> (env \<Rightarrow> 'a tunnel_proc) \<Rightarrow> 'a gateway_scheme \<Rightarrow> 'a gateway_scheme \<Rightarrow> bool"
  for C T proc where
  polite_start: "polite_run C T proc s s"
| polite_more: "polite_run C T proc s t \<Longrightarrow> gw_step C T proc E ev t u \<Longrightarrow> polite C T E ev t \<Longrightarrow> polite_run C T proc s u"

abbreviation exact :: "'a gateway_scheme \<Rightarrow> bool" where "exact \<equiv> account (\<lambda>_. 0)"

lemma polite_careful: "polite C T E ev s \<Longrightarrow> refs_account.careful (\<lambda>_. 0) C T E ev s"
  by (auto simp: polite_def refs_account.careful_def has_room_def)

lemma exact_step:
  "tunnel_ok (proc E) \<Longrightarrow> gw_step C T proc E ev s s' \<Longrightarrow> polite C T E ev s \<Longrightarrow> exact s \<Longrightarrow> exact s'"
  by (rule refs_account.stepping [OF _ _ polite_careful])

lemma exact_NewGateway: "exact (NewGateway key service minRoute minInOut)"
  using gw_inv_NewGateway [of key service minRoute minInOut]
  by (simp add: account_def ledger_def gw_inv_def holders_def live_sum_def) (simp add: NewGateway_def peer_valid_def)

lemma exact_run: "polite_run C T proc s s' \<Longrightarrow> \<forall>E. tunnel_ok (proc E) \<Longrightarrow> exact s \<Longrightarrow> exact s'"
  by (induction rule: polite_run.induct) (auto intro: exact_step)

text \<open>
  C14. Reference counting is exact: in every state reached from the start by steps in which no
  message destroys its section before its last instruction and no kill runs on a peer that is
  in use again, the counter of every peer is the number of routes and outs of live sections that
  point to it, and every peer some live section points to is the one the table holds under its
  ADNL id. So no peer in use is ever removed and no reference leaks.
\<close>

theorem references_exact:
  assumes "polite_run C T proc (NewGateway key service minRoute minInOut) s" "\<forall>E. tunnel_ok (proc E)" "peer_valid s p"
  shows "refs s p = holders s p \<and> (0 < refs s p \<longrightarrow> map_of (activePeers s) (peer_id (peers s ! p)) = Some p)"
  using exact_run [OF assms(1,2) exact_NewGateway] assms(3) by (auto simp: account_def ledger_def)

theorem references_exact_witness:
  "\<exists>s. polite_run demo_crypto demo_tl (\<lambda>_. no_tunnel) (NewGateway [9] True 0 0) s \<and> refs s 0 = holders s 0 \<and> peer_valid s 0"
proof -
  let ?c = "\<lparr>conn_addr = ''a'', conn_handle = 3\<rparr>" let ?s0 = "NewGateway [9] True 0 0"
  let ?s1 = "snd (addPeer demo_env [1] (Some ?c) ?s0)"
  have "gw_step demo_crypto demo_tl (\<lambda>_. no_tunnel) demo_env (EvConnect [1] ?c) ?s0 ?s1" by (rule connect)
  moreover have "polite demo_crypto demo_tl demo_env (EvConnect [1] ?c) ?s0" by (simp add: polite_def NewGateway_def)
  ultimately have r: "polite_run demo_crypto demo_tl (\<lambda>_. no_tunnel) ?s0 ?s1" by (rule polite_more [OF polite_start])
  have v: "peer_valid ?s1 0"
    by (simp add: peer_valid_def addPeer_def lookup_or_new_def NewGateway_def set_conn_def upd_peer_def emit_def)
  from references_exact [OF r _ v] no_tunnel_ok r v show ?thesis by blast
qed

end
