(* ===== verification/Gauge_Accounting.thy ===== *)
theory Gauge_Accounting
  imports Section_Frames
begin

text \<open>
  The gauges a gateway publishes (\<open>metrics.ActiveInboundSections\<close>, \<open>metrics.ActiveRoutes\<close> and
  \<open>metrics.ActiveOutGateways\<close>), which the instructions and the closing of sections move up and down by
  one. The first two agree with the tables of the gateway in every state; the third does not, because
  changing the price of a bound out gateway does not move it.
\<close>

section \<open>What the gauges should show\<close>

text \<open>For every route of a section, whether it is paid.\<close>

definition paid_routes :: "tun_section \<Rightarrow> bool list" where
  "paid_routes sc = map (\<lambda>e. 0 < tgtPrice (rTarget (snd e))) (routes sc)"

definition active_routes :: "bool \<Rightarrow> 'a gateway_scheme \<Rightarrow> int" where
  "active_routes b s = live_sum (\<lambda>sc. int (count_list (paid_routes sc) b)) s"

definition gauges_exact :: "'a gateway_scheme \<Rightarrow> bool" where
  "gauges_exact s \<longleftrightarrow> gw_inv s \<and> ActiveInboundSections s = int (length (inboundSections s)) \<and>
     (\<forall>b. ActiveRoutes s b = active_routes b s)"

text \<open>Steps that move no gauge and change no price of a route.\<close>

definition unmoved :: "'a gateway_scheme \<Rightarrow> 'a gateway_scheme \<Rightarrow> bool" where
  "unmoved s s' \<longleftrightarrow> inboundSections s' = inboundSections s \<and> length (sections s') = length (sections s) \<and>
     (\<forall>q. paid_routes (sec s' q) = paid_routes (sec s q)) \<and>
     ActiveInboundSections s' = ActiveInboundSections s \<and> ActiveRoutes s' = ActiveRoutes s"

lemma paid_routes_same:
  "paid_routes (sc\<lparr>lastPacketAt := t\<rparr>) = paid_routes sc" "paid_routes (sc\<lparr>sec_seqno := w\<rparr>) = paid_routes sc"
  "paid_routes (sc\<lparr>seqnoCached := w\<rparr>) = paid_routes sc" "paid_routes (sc\<lparr>sec_payments := m\<rparr>) = paid_routes sc"
  "paid_routes (sc\<lparr>cachedActions := a\<rparr>) = paid_routes sc" "paid_routes (sc\<lparr>cachedActionsVer := v\<rparr>) = paid_routes sc"
  "paid_routes (sc\<lparr>sec_out := x\<rparr>) = paid_routes sc" "paid_routes (upd_out f sc) = paid_routes sc"
  by (simp_all add: paid_routes_def upd_out_def)

lemma paid_routes_upd_route:
  assumes "\<And>r. rTarget (f r) = rTarget r"
  shows "paid_routes (upd_route rid f sc) = paid_routes sc"
proof (cases "map_of (routes sc) rid")
  case (Some r)
  have "map_of m rid = Some r \<Longrightarrow> map (\<lambda>e. 0 < tgtPrice (rTarget (snd e))) (mput rid (f r) m) = map (\<lambda>e. 0 < tgtPrice (rTarget (snd e))) m"
    for m :: "(u32, route) gomap"
    using assms by (induction m) auto
  with Some show ?thesis by (simp add: paid_routes_def upd_route_def)
qed (simp add: upd_route_def)

lemma unmoved_net: "net_step s s' \<Longrightarrow> unmoved s s'"
  by (simp add: unmoved_def net_step_fields)

lemma unmoved_trans [trans]: "unmoved s t \<Longrightarrow> unmoved t u \<Longrightarrow> unmoved s u"
  by (simp add: unmoved_def)

lemma unmoved_upd_sec: "paid_routes (h (sec s sp)) = paid_routes (sec s sp) \<Longrightarrow> unmoved s (upd_sec sp h s)"
  by (simp add: unmoved_def)

interpretation unmoved: section_frame paid_routes unmoved
proof unfold_locales
  show "unmoved s (closeConn p cmp s)" "unmoved s (fst (SendCustomMessage E p m s))" "unmoved s (snd (addPeer E adnl conn s))"
      "unmoved s (discover_start p s)" "unmoved s (fst (discover_finish E p s))"
    for s :: "'a gateway_scheme" and p cmp E m adnl conn by (rule unmoved_net, simp)+
qed (fact unmoved_upd_sec paid_routes_same | rule unmoved_net; simp | simp add: unmoved_def paid_routes_upd_route paid_routes_same)+

lemma gauges_kept:
  assumes "gauges_exact s" "gw_inv s'" "unmoved s s'"
  shows "gauges_exact s'"
proof -
  have "active_routes b s' = active_routes b s" for b
    unfolding active_routes_def using assms(3) by (intro live_sum_same) (simp_all add: unmoved_def)
  with assms show ?thesis by (simp add: gauges_exact_def unmoved_def)
qed

section \<open>Building and changing routes\<close>

lemma move_gauge_routes:
  "ActiveRoutes (move_gauge old new s) b = ActiveRoutes s b - (if (0 < old) = b then 1 else 0) + (if (0 < new) = b then 1 else 0)"
  by (auto simp: move_gauge_def)

lemma move_gauge_fields [simp]:
  "sections (move_gauge old new s) = sections s" "inboundSections (move_gauge old new s) = inboundSections s"
  "ActiveInboundSections (move_gauge old new s) = ActiveInboundSections s" "gw_inv (move_gauge old new s) = gw_inv s"
  by (simp_all add: move_gauge_def)

lemma gauges_retarget:
  assumes "gauges_exact s" "live s sp" "map_of (routes (sec s sp)) rid = Some r" "gw_inv (retarget sp rid r target s)"
  shows "gauges_exact (retarget sp rid r target s)"
proof (cases "retarget sp rid r target s = s")
  case False
  let ?f = "\<lambda>x. x\<lparr>rTarget := target\<rparr>"
  let ?old = "0 < tgtPrice (rTarget r)" let ?new = "0 < tgtPrice target"
  define t where "t = (if tgtADNL (rTarget r) \<noteq> tgtADNL target then Dereference (tgtPeer (rTarget r)) (AddReference (tgtPeer target) s) else s)"
  define u where "u = move_gauge (tgtPrice (rTarget r)) (tgtPrice target) t"
  have e: "retarget sp rid r target s = upd_sec sp (upd_route rid ?f) u"
    using False unfolding retarget_def Let_def t_def u_def by (auto split: if_splits)
  have g: "gw_inv s" using assms(1) by (simp add: gauges_exact_def)
  have t: "gw_inv t" "sections t = sections s" "inboundSections t = inboundSections s"
      "ActiveInboundSections t = ActiveInboundSections s" "ActiveRoutes t = ActiveRoutes s"
    using g by (simp_all add: t_def gw_inv_nets)
  have u: "gw_inv u" "sections u = sections s" "inboundSections u = inboundSections s"
      "ActiveInboundSections u = ActiveInboundSections s"
      "ActiveRoutes u b = ActiveRoutes s b - (if ?old = b then 1 else 0) + (if ?new = b then 1 else 0)" for b
    using t by (simp_all add: u_def move_gauge_routes)
  have "active_routes b (upd_sec sp (upd_route rid ?f) u)
      = active_routes b s - (if ?old = b then 1 else 0) + (if ?new = b then 1 else 0)" for b
  proof -
    have "live u sp" using assms(2) u(3) by (simp add: live_def)
    then have "active_routes b (upd_sec sp (upd_route rid ?f) u) = active_routes b u
        - int (count_list (paid_routes (sec u sp)) b) + int (count_list (paid_routes (upd_route rid ?f (sec u sp))) b)"
      unfolding active_routes_def by (intro live_sum_upd [OF u(1)])
    moreover have "active_routes b u = active_routes b s" unfolding active_routes_def by (rule live_sum_same) (simp_all add: u(2,3))
    ultimately show ?thesis
      using count_mput [OF assms(3), of "\<lambda>x. 0 < tgtPrice (rTarget x)" "?f r" b]
      by (simp add: paid_routes_def upd_route_def assms(3) comp_def u(2) del: if_split)
  qed
  then show ?thesis using assms(1,4) unfolding e by (simp add: gauges_exact_def u(3-5) del: if_split)
qed (use assms(1) in simp)

lemma gauges_BuildRoute:
  assumes "gauges_exact s" "live s sp"
  shows "gauges_exact (fst (BuildRoute_Execute E sp adnl key rid price s))"
proof -
  obtain p t where ad: "addPeer E adnl None s = (p, t)" by fastforce
  have inv: "gw_inv (fst (BuildRoute_Execute E sp adnl key rid price s))"
    using assms(1) by (intro gw_inv_BuildRoute) (simp add: gauges_exact_def)
  have n: "net_step s t" and gt: "gw_inv t"
    using net_step_addPeer [of s E adnl None] gw_inv_nets(7) [of s E adnl None] assms(1) ad by (simp_all add: gauges_exact_def)
  have t: "gauges_exact t" "live t sp" using gauges_kept [OF assms(1) gt unmoved_net [OF n]] live_net [OF n] assms(2) by simp_all
  let ?target = "\<lparr>tgtPeer = p, tgtADNL = adnl, tgtSectionKey = key, tgtPrice = price\<rparr>"
  let ?f = "\<lambda>sc. sc\<lparr>routes := mput rid (new_route rid ?target) (routes sc)\<rparr>"
  let ?a = "AddReference p t" let ?u = "gauge_routes (0 < price) 1 (upd_sec sp ?f ?a)"
  have eq: "fst (BuildRoute_Execute E sp adnl key rid price s) =
      (if \<not> allowRouting s \<or> price < MinPricePerPacketRoute s then s
       else case map_of (routes (sec t sp)) rid of
         None \<Rightarrow> if MaxActiveRoutesPerSection \<le> length (routes (sec t sp)) then t else ?u
       | Some r \<Rightarrow> retarget sp rid r ?target t)"
    by (simp add: BuildRoute_Execute_def ad Let_def split: option.split)
  have new: "gauges_exact ?u" if "map_of (routes (sec t sp)) rid = None" "gw_inv ?u"
  proof -
    have a: "gw_inv ?a" "live ?a sp" "sections ?a = sections t" "inboundSections ?a = inboundSections t"
      using gt t(2) by (simp_all add: gw_inv_nets live_def)
    have "active_routes b ?u = active_routes b t + (if b = (0 < price) then 1 else 0)" for b
    proof -
      have "active_routes b ?u = active_routes b (upd_sec sp ?f ?a)" unfolding active_routes_def by (rule live_sum_same) simp_all
      also have "\<dots> = active_routes b ?a - int (count_list (paid_routes (sec ?a sp)) b) + int (count_list (paid_routes (?f (sec ?a sp))) b)"
        unfolding active_routes_def by (rule live_sum_upd [OF a(1,2)])
      also have "active_routes b ?a = active_routes b t" unfolding active_routes_def by (rule live_sum_same) (simp_all add: a(3,4))
      finally show ?thesis using that(1) by (auto simp: paid_routes_def mput_new new_route_def a(3))
    qed
    then show ?thesis using t(1) that(2) by (simp add: gauges_exact_def)
  qed
  show ?thesis using inv assms(1) t(1) new gauges_retarget [OF t, of rid _ ?target] unfolding eq
    by (auto split: if_splits option.splits)
qed

section \<open>Binding an out\<close>

lemma unmoved_rebind: "unmoved s (rebind_out E sp ot adnl sk key ins price s)"
proof -
  obtain p t where a: "addPeer E adnl None (Dereference (inboundPeer ot) s) = (p, t)" by fastforce
  have "unmoved s (Dereference (inboundPeer ot) s)" by (rule unmoved_net) simp
  also have "unmoved (Dereference (inboundPeer ot) s) t"
    using net_step_addPeer [of "Dereference (inboundPeer ot) s" E adnl None] a by (intro unmoved_net) simp
  also have "unmoved t (AddReference p t)" by (rule unmoved_net) simp
  finally have "unmoved s (AddReference p t)" .
  then have "unmoved s (upd_sec sp (upd_out g) (AddReference p t))" for g
    by (rule unmoved_trans [OF _ unmoved_upd_sec]) (simp add: paid_routes_same)
  moreover have "unmoved s (upd_sec sp (upd_out g) s)" for g by (rule unmoved_upd_sec) (simp add: paid_routes_same)
  ultimately show ?thesis by (simp add: rebind_out_def Let_def a)
qed

lemma unmoved_BindOut: "unmoved s (fst (BindOut_Execute C T E sp adnl key ins rc price s))"
proof -
  let ?l = "emit CallListenPacket s"
  obtain p t where a: "addPeer E adnl None ?l = (p, t)" by fastforce
  have l: "unmoved s ?l" by (rule unmoved.nets)
  then have t: "unmoved s t" using unmoved_trans [OF l unmoved.nets(5) [of ?l E adnl None]] a by simp
  have "unmoved s (AddReference p (gauge_outs b 1 (upd_sec sp (\<lambda>sc. sc\<lparr>sec_out := x\<rparr>) t)))" for b x
  proof -
    have "unmoved t (upd_sec sp (\<lambda>sc. sc\<lparr>sec_out := x\<rparr>) t)" by (rule unmoved_upd_sec) (simp add: paid_routes_same)
    then have "unmoved s (gauge_outs b 1 (upd_sec sp (\<lambda>sc. sc\<lparr>sec_out := x\<rparr>) t))" using t by (simp add: unmoved_def)
    then show ?thesis by (rule unmoved_trans [OF _ unmoved_net]) simp
  qed
  then have "unmoved s (bind_done C T E sp (AddReference p (gauge_outs b 1 (upd_sec sp (\<lambda>sc. sc\<lparr>sec_out := x\<rparr>) t))))" for b x
    by (rule unmoved_trans [OF _ unmoved.binding_done])
  moreover have "unmoved s (bind_done C T E sp (rebind_out E sp ot adnl sk key ins pr s))" for ot sk pr
    by (rule unmoved_trans [OF unmoved_rebind unmoved.binding_done])
  ultimately show ?thesis using l by (simp add: BindOut_Execute_def a Let_def split: option.split)
qed

section \<open>Closing and creating sections\<close>

lemma close_routes_gauge:
  "ActiveRoutes (fold Route_Close rs s) b = ActiveRoutes s b - int (count_list (map (\<lambda>r. 0 < tgtPrice (rTarget r)) rs) b)"
  "ActiveInboundSections (fold Route_Close rs s) = ActiveInboundSections s"
  by (induction rs arbitrary: s) (simp_all add: Route_Close_def)

lemma close_payments_gauge [simp]:
  "ActiveRoutes (fold closePaymentChannel vs s) = ActiveRoutes s"
  "ActiveInboundSections (fold closePaymentChannel vs s) = ActiveInboundSections s"
  by (induction vs arbitrary: s) (simp_all add: closePaymentChannel_def Let_def)

lemma close_section_gauge:
  "ActiveRoutes (close_section sp s) b = ActiveRoutes s b - int (count_list (paid_routes (sec s sp)) b)"
  "ActiveInboundSections (close_section sp s) = ActiveInboundSections s - 1"
  "paid_routes (sec (close_section sp s) q) = paid_routes (sec s q)"
  by (simp_all add: close_section_def Let_def Out_Close_def close_routes_gauge paid_routes_same split: option.split)
    (simp_all add: paid_routes_def comp_def)

lemma length_mdel: "distinct (map fst m) \<Longrightarrow> map_of m k = Some v \<Longrightarrow> int (length (mdel k m)) = int (length m) - 1"
  using sum_list_mdel [of m k v "\<lambda>_. 1"] by (simp add: comp_def sum_list_triv)

lemma gauges_drop_section:
  assumes "gauges_exact s" "live s sp"
  shows "gauges_exact (drop_section E sp s)"
proof -
  let ?e = "emit (CallTryLock sp) s"
  have g: "gw_inv s" using assms(1) by (simp add: gauges_exact_def)
  have e: "gauges_exact ?e" by (rule gauges_kept [OF assms(1) _ unmoved.nets(1)]) (simp add: gw_inv_nets g)
  show ?thesis
  proof (cases "try_lock E (outputs ?e) sp")
    case True
    let ?c = "close_section sp ?e"
    let ?d = "?c\<lparr>inboundSections := mdel (secKey (sec s sp)) (inboundSections ?c)\<rparr>"
    have d: "drop_section E sp s = ?d" using True by (simp add: drop_section_def closeIfNotLocked_def Let_def)
    have inv: "gw_inv ?d" using gw_inv_drop_section [OF g, of E sp] d by simp
    have "active_routes b ?d = active_routes b s - int (count_list (paid_routes (sec s sp)) b)" for b
      unfolding active_routes_def by (rule live_sum_drop [OF g assms(2)]) (simp_all add: close_section_gauge)
    then show ?thesis using assms(1) inv length_mdel [OF live_key(2,1) [OF g assms(2)]] unfolding d
      by (simp add: gauges_exact_def close_section_gauge)
  qed (use e in \<open>simp add: drop_section_def closeIfNotLocked_def Let_def\<close>)
qed

lemma gauges_new_section:
  assumes "gauges_exact s" "map_of (inboundSections s) key = None"
    and s': "s' = s\<lparr>sections := sections s @ [new_section E key shKey],
      inboundSections := mput key (length (sections s)) (inboundSections s), ActiveInboundSections := ActiveInboundSections s + 1\<rparr>"
    and "gw_inv s'"
  shows "gauges_exact s'"
proof -
  have g: "gw_inv s" using assms(1) by (simp add: gauges_exact_def)
  have "active_routes b s' = active_routes b s + int (count_list (paid_routes (new_section E key shKey)) b)" for b
    unfolding active_routes_def by (rule live_sum_new [OF g assms(2)]) (simp_all add: s')
  then show ?thesis using assms(1,4) by (simp add: gauges_exact_def s' mput_new [OF assms(2)] paid_routes_def new_section_def)
qed

lemma unmoved_deliver:
  assumes "tunnel_ok proc"
  shows "unmoved (fst st) (fst (fst (deliver proc t meta st)))"
proof -
  obtain s' buf e where p: "proc t (snd st) meta (fst st) = (s', buf, e)" by (metis prod_cases3)
  then have "sections s' = sections (fst st)" "inboundSections s' = inboundSections (fst st)"
      "ActiveInboundSections s' = ActiveInboundSections (fst st)" "ActiveRoutes s' = ActiveRoutes (fst st)"
    using assms unfolding tunnel_ok_def Let_def by (metis fst_conv)+
  then show ?thesis by (simp add: deliver_def p unmoved_def)
qed

interpretation gauges: section_account paid_routes unmoved gauges_exact "\<lambda>_. True" tunnel_ok "\<lambda>_ _. True"
proof unfold_locales
  show "gw_inv s" if "gauges_exact s" for s :: "'a gateway_scheme" using that by (simp add: gauges_exact_def)
  show "gauges_exact (fst (BindOut_Execute C T E sp adnl key ins rc price s))" if "gauges_exact s" "live s sp"
    for s :: "'a gateway_scheme" and C T E sp adnl key ins rc price
  proof (rule gauges_kept [OF that(1) _ unmoved_BindOut])
    have "gw_inv s" using that(1) by (simp add: gauges_exact_def)
    then show "gw_inv (fst (BindOut_Execute C T E sp adnl key ins rc price s))"
      using that(2) by (intro gw_inv_BindOut live_valid)
  qed
  show "gauges_exact (kill p s)" if "gauges_exact s" for s :: "'a gateway_scheme" and p
    using that by (intro gauges_kept [OF that] unmoved_net) (simp_all add: gauges_exact_def gw_inv_nets)
qed (fact gauges_kept unmoved_deliver gauges_BuildRoute gauges_drop_section gauges_new_section | simp)+

section \<open>Runs\<close>

text \<open>Runs in which no message destroys its section before its last instruction.\<close>

inductive orderly_run ::
  "crypto \<Rightarrow> tlcodec \<Rightarrow> (env \<Rightarrow> 'a tunnel_proc) \<Rightarrow> 'a gateway_scheme \<Rightarrow> 'a gateway_scheme \<Rightarrow> bool"
  for C T proc where
  orderly_start: "orderly_run C T proc s s"
| orderly_more: "orderly_run C T proc s t \<Longrightarrow> gw_step C T proc E ev t u \<Longrightarrow>
    (\<And>p m. ev = EvMessage p (MsgEncrypted m) \<Longrightarrow> destroys_last (opened C T E p m t)) \<Longrightarrow> orderly_run C T proc s u"

lemma gauges_orderly_run: "orderly_run C T proc s s' \<Longrightarrow> \<forall>E. tunnel_ok (proc E) \<Longrightarrow> gauges_exact s \<Longrightarrow> gauges_exact s'"
proof (induction rule: orderly_run.induct)
  case (orderly_more s t E ev u)
  then show ?case by (intro gauges.stepping [of proc E C T ev t u]) (simp_all add: gauges.careful_def)
qed

lemma gauges_NewGateway: "gauges_exact (NewGateway key service minRoute minInOut)"
  using gw_inv_NewGateway by (simp add: gauges_exact_def active_routes_def live_sum_def) (simp add: NewGateway_def)

text \<open>
  C36. The published gauges are exact: in every state a gateway reaches from its start, by any
  interleaving of messages, datagrams, connections, ticks and asynchronous tasks in which no message
  destroys its section before its last instruction, the gauge of active sections is the number of
  sections in the table, and the gauges of paid and of free routes are the numbers of routes of
  these sections with and without a price.
\<close>

theorem gauges_agree:
  assumes "orderly_run C T proc (NewGateway key service minRoute minInOut) s" "\<forall>E. tunnel_ok (proc E)"
  shows "ActiveInboundSections s = int (length (inboundSections s)) \<and>
    ActiveRoutes s b = (\<Sum>(k, sp) \<leftarrow> inboundSections s. int (length (filter (\<lambda>(rid, r). (0 < tgtPrice (rTarget r)) = b) (routes (sec s sp)))))"
proof -
  have g: "gauges_exact s" by (rule gauges_orderly_run [OF assms gauges_NewGateway])
  have "count_list (map f m) b = length (filter (\<lambda>e. f e = b) m)" for f and m :: "(u32 \<times> route) list"
    by (induction m) auto
  then have "ActiveRoutes s b
      = (\<Sum>e \<leftarrow> inboundSections s. int (length (filter (\<lambda>e. (0 < tgtPrice (rTarget (snd e))) = b) (routes (sec s (snd e))))))"
    using g by (simp add: gauges_exact_def active_routes_def live_sum_def paid_routes_def comp_def)
  then show ?thesis using g by (simp add: gauges_exact_def case_prod_beta')
qed

theorem gauges_agree_witness:
  "\<exists>s. orderly_run demo_crypto demo_tl (\<lambda>_. no_tunnel) (NewGateway [9] True 0 0) s \<and> ActiveInboundSections s = 1 \<and> length (inboundSections s) = 1"
proof -
  let ?c = "\<lparr>conn_addr = ''a'', conn_handle = 3\<rparr>" let ?s0 = "NewGateway [9] True 0 0"
  let ?s1 = "snd (addPeer demo_env [1] (Some ?c) ?s0)"
  let ?m = "\<lparr>msgSectionPubKey = [5], msgInstructions = [], msgPayload = []\<rparr>"
  let ?s2 = "fst (messageHandler demo_crypto demo_tl demo_env no_tunnel 0 (MsgEncrypted ?m) ?s1)"
  have s1: "peer_valid ?s1 0" "getConn 0 ?s1 \<noteq> None" "inboundSections ?s1 = []" "sections ?s1 = []"
    by (simp_all add: peer_valid_def addPeer_def lookup_or_new_def NewGateway_def set_conn_def upd_peer_def emit_def getConn_def hupd_def)
  have "gw_step demo_crypto demo_tl (\<lambda>_. no_tunnel) demo_env (EvConnect [1] ?c) ?s0 ?s1" by (rule connect)
  from orderly_more [OF orderly_start this] have 1: "orderly_run demo_crypto demo_tl (\<lambda>_. no_tunnel) ?s0 ?s1" by simp
  have "\<exists>e. \<forall>C crc ck. decryptMessage C demo_tl crc ck [] = Inl e" by (simp add: decryptMessage_def decryptStream_def)
  then obtain e where d: "\<And>C crc ck. decryptMessage C demo_tl crc ck [] = Inl e" by blast
  then have "destroys_last (opened demo_crypto demo_tl demo_env 0 ?m ?s1)"
    by (simp add: opened_def destroys_last_def split: prod.split sum.split)
  then have 2: "orderly_run demo_crypto demo_tl (\<lambda>_. no_tunnel) ?s0 ?s2"
    by (intro orderly_more [OF 1 message [OF s1(1), where proc = "\<lambda>_. no_tunnel"]]) auto
  have "length (inboundSections ?s2) = 1"
    using s1 by (simp add: messageHandler_def handle_encrypted_def get_section_def demo_crypto_def d split: option.split)
  with gauges_agree [OF 2] no_tunnel_ok 2 show ?thesis by auto
qed

section \<open>The gauge of out gateways drifts\<close>

text \<open>
  The third gauge: whatever the price was when the out was bound and counted, closing it counts
  down the gauge of the price it has then, and a change of the price in between moves nothing. An
  out that was bound as paid and made free leaves the gauge of paid outs one too high for ever and
  takes one from the gauge of free outs.
\<close>

lemma rebind_keeps_gauge: "ActiveOutGateways (rebind_out E sp ot adnl sk key ins price s) = ActiveOutGateways s"
proof -
  obtain p t where a: "addPeer E adnl None (Dereference (inboundPeer ot) s) = (p, t)" by fastforce
  have "ActiveOutGateways t = ActiveOutGateways s"
    using net_step_fields(16) [OF net_step_addPeer [of "Dereference (inboundPeer ot) s" E adnl None]] a by simp
  then show ?thesis by (simp add: rebind_out_def Let_def a)
qed

lemma rebind_out_price:
  assumes "sec_valid s sp" "sec_out (sec s sp) = Some ot"
  shows "\<exists>o'. sec_out (sec (rebind_out E sp ot adnl sk key ins price s) sp) = Some o' \<and> outPrice o' = uint price"
proof -
  obtain p t where a: "addPeer E adnl None (Dereference (inboundPeer ot) s) = (p, t)" by fastforce
  have "sections t = sections s"
    using net_step_fields(11) [OF net_step_addPeer [of "Dereference (inboundPeer ot) s" E adnl None]] a by simp
  with assms show ?thesis by (auto simp: rebind_out_def Let_def a sec_valid_def upd_out_def)
qed

lemma close_section_outs:
  "sec_out (sec s sp) = Some ot \<Longrightarrow>
     ActiveOutGateways (close_section sp s) b = ActiveOutGateways s b - (if b = (0 < outPrice ot) then 1 else 0)"
proof -
  have "ActiveOutGateways (fold Route_Close rs u) = ActiveOutGateways u" for rs and u :: "'a gateway_scheme"
    by (induction rs arbitrary: u) (simp_all add: Route_Close_def)
  moreover have "ActiveOutGateways (fold closePaymentChannel vs u) = ActiveOutGateways u" for vs and u :: "'a gateway_scheme"
    by (induction vs arbitrary: u) (simp_all add: closePaymentChannel_def Let_def)
  ultimately show "sec_out (sec s sp) = Some ot \<Longrightarrow> ?thesis" by (simp add: close_section_def Let_def Out_Close_def)
qed

lemma out_gauge_drift:
  assumes "sec_valid s sp" "sec_out (sec s sp) = Some ot" "0 < outPrice ot"
  shows "ActiveOutGateways (close_section sp (rebind_out E sp ot adnl sk key ins 0 s)) True = ActiveOutGateways s True"
    "ActiveOutGateways (close_section sp (rebind_out E sp ot adnl sk key ins 0 s)) False = ActiveOutGateways s False - 1"
proof -
  obtain o' where "sec_out (sec (rebind_out E sp ot adnl sk key ins 0 s) sp) = Some o'" "outPrice o' = 0"
    using rebind_out_price [OF assms(1,2), of E adnl sk key ins 0] by auto
  from close_section_outs [OF this(1)] this(2) rebind_keeps_gauge [of E sp ot adnl sk key ins 0 s]
  show "ActiveOutGateways (close_section sp (rebind_out E sp ot adnl sk key ins 0 s)) True = ActiveOutGateways s True"
    "ActiveOutGateways (close_section sp (rebind_out E sp ot adnl sk key ins 0 s)) False = ActiveOutGateways s False - 1"
    by simp_all
qed

end
