(* ===== verification/Payment_Chain.thy ===== *)
theory Payment_Chain
  imports Complex_Main Tunnel_Prelude
begin

text \<open>
  How the initiator splits a payment over the nodes of a payment tunnel:
  \<open>buildTunnelPaymentsChain\<close> of \<open>tunnel/regularOutTunnel.go\<close>. The capacity that reaches the last node
  and the fees of the nodes depend on each other, so the code iterates at most ten times. Percent
  fees are computed with \<open>math/big\<close> floating-point numbers, which are modelled with their precision
  and round-to-nearest-even; amounts are unbounded integers.
\<close>

section \<open>Arbitrary-precision floats (math/big)\<close>

text \<open>The number of binary digits of a positive number.\<close>

function BitLen :: "int \<Rightarrow> nat" where
  "BitLen n = (if n \<le> 0 then 0 else Suc (BitLen (n div 2)))"
  by auto
termination by (relation "measure nat") auto

declare BitLen.simps [simp del]

record big_float =
  prec :: nat
  val :: rat

text \<open>The exponent of the leading binary digit of a positive number.\<close>

definition exponent :: "rat \<Rightarrow> int" where
  "exponent x =
     (case quotient_of x of (a, b) \<Rightarrow>
        let f = int (BitLen a) - int (BitLen b) in if 2 powi f \<le> x then f else f - 1)"

definition nearest_even :: "rat \<Rightarrow> int" where
  "nearest_even m =
     (let q = \<lfloor>m\<rfloor>; r = m - of_int q in if r < 1 / 2 \<or> r = 1 / 2 \<and> even q then q else q + 1)"

definition round_prec :: "nat \<Rightarrow> rat \<Rightarrow> rat" where
  "round_prec p x =
     (if x = 0 then 0
      else let u = 2 powi (exponent \<bar>x\<bar> + 1 - int p) in sgn x * of_int (nearest_even (\<bar>x\<bar> / u)) * u)"

definition Float_SetInt :: "int \<Rightarrow> big_float" where
  "Float_SetInt k = \<lparr>prec = max (BitLen \<bar>k\<bar>) 64, val = of_int k\<rparr>"

definition Float_Mul :: "big_float \<Rightarrow> big_float \<Rightarrow> big_float" where
  "Float_Mul x y = (let p = max (prec x) (prec y) in \<lparr>prec = p, val = round_prec p (val x * val y)\<rparr>)"

text \<open>\<open>z.Quo(z, y)\<close> keeps the precision of \<open>z\<close>.\<close>

definition Float_Quo :: "big_float \<Rightarrow> big_float \<Rightarrow> big_float" where
  "Float_Quo z y = z\<lparr>val := round_prec (prec z) (val z / val y)\<rparr>"

definition Float_Int :: "big_float \<Rightarrow> int" where
  "Float_Int x = (if 0 \<le> val x then \<lfloor>val x\<rfloor> else \<lceil>val x\<rceil>)"

section \<open>Building the chain\<close>

record payment_tunnel_section =
  ptKey :: bytes
  MinFee :: int
  PercentFee :: big_float
  MaxCapacity :: int

record tunnel_chain_part =
  Target :: bytes
  Capacity :: int
  Fee :: int
  Deadline :: int

definition candidate_fee :: "payment_tunnel_section \<Rightarrow> int \<Rightarrow> int" where
  "candidate_fee ps R = Float_Int (Float_Quo (Float_Mul (PercentFee ps) (Float_SetInt R)) (Float_SetInt 100))"

definition hop_fee :: "payment_tunnel_section \<Rightarrow> int \<Rightarrow> int" where
  "hop_fee ps R = (if MinFee ps < candidate_fee ps R then candidate_fee ps R else MinFee ps)"

text \<open>The cumulative fees, from the last node back to the first; one entry more than nodes.\<close>

primrec cumulative_fees :: "int \<Rightarrow> payment_tunnel_section list \<Rightarrow> int list" where
  "cumulative_fees x [] = [0]"
| "cumulative_fees x (ps # pss) =
     (let cs = cumulative_fees x pss in (hop_fee ps (x + hd cs) + hd cs) # cs)"

definition next_capacity :: "payment_tunnel_section list \<Rightarrow> int \<Rightarrow> int list \<Rightarrow> int" where
  "next_capacity pss initialCapacity cum =
     foldl (\<lambda>newX (ps, c). if MaxCapacity ps - c < newX then MaxCapacity ps - c else newX)
       initialCapacity (zip pss (tl cum))"

primrec capacity_loop :: "nat \<Rightarrow> payment_tunnel_section list \<Rightarrow> int \<Rightarrow> int \<Rightarrow> int list \<Rightarrow> int \<times> int list" where
  "capacity_loop 0 pss initialCapacity x cum = (x, cum)"
| "capacity_loop (Suc k) pss initialCapacity x cum =
     (let cum' = cumulative_fees x pss; newX = next_capacity pss initialCapacity cum'
      in if newX = x then (x, cum') else capacity_loop k pss initialCapacity newX cum')"

text \<open>Times are in nanoseconds; \<open>base\<close> is the current time plus \<open>baseTTL\<close>.\<close>

definition buildTunnelPaymentsChain ::
  "int \<Rightarrow> payment_tunnel_section list \<Rightarrow> int \<Rightarrow> int \<Rightarrow> int \<Rightarrow> go_error + tunnel_chain_part list" where
  "buildTunnelPaymentsChain tm pss initialCapacity baseTTL hopTTL =
     (if pss = [] then Inl ErrEmptyPaymentTunnel
      else case capacity_loop 10 pss initialCapacity initialCapacity (replicate (length pss + 1) 0) of
        (x, cum) \<Rightarrow>
          if x < 0 then Inl ErrFeesNotCovered
          else Inr (map (\<lambda>i. \<lparr>Target = ptKey (pss ! i), Capacity = x + cum ! Suc i, Fee = cum ! i,
                               Deadline = tm + baseTTL + int (length pss - i) * hopTTL\<rparr>) [0..<length pss]))"

section \<open>Rounding\<close>

lemma BitLen_bounds:
  assumes "0 < n"
  shows "2 ^ (BitLen n - 1) \<le> n \<and> n < 2 ^ BitLen n \<and> 0 < BitLen n"
  using assms
proof (induction n rule: BitLen.induct)
  case (1 n)
  show ?case
  proof (cases "n = 1")
    case True
    have "BitLen n = 1" unfolding True by (subst BitLen.simps) (simp add: BitLen.simps [of 0])
    with True show ?thesis by simp
  next
    case False
    then have h: "0 < n div 2" using "1.prems" by auto
    let ?k = "BitLen (n div 2)"
    from "1.IH" h "1.prems" have i: "2 ^ (?k - 1) \<le> n div 2" "n div 2 < 2 ^ ?k" "0 < ?k" by auto
    have b: "BitLen n = Suc ?k" using "1.prems" by (simp add: BitLen.simps [of n])
    have "2 ^ ?k = 2 * (2 :: int) ^ (?k - 1)" using i(3) by (metis Suc_diff_1 power_Suc)
    then have "2 ^ ?k \<le> 2 * (n div 2)" "n < 2 * 2 ^ ?k" using i by linarith+
    then have "2 ^ ?k \<le> n" "n < 2 ^ Suc ?k" by simp_all
    with b show ?thesis by simp
  qed
qed

lemma BitLen_rat:
  assumes "0 < n"
  shows "(2 :: rat) powi (int (BitLen n) - 1) \<le> of_int n" "of_int n < (2 :: rat) powi int (BitLen n)"
proof -
  note b = BitLen_bounds [OF assms]
  have "(2 :: rat) powi (int (BitLen n) - 1) = of_int (2 ^ (BitLen n - 1))"
    using b by (simp add: power_int_def nat_diff_distrib)
  also have "\<dots> \<le> of_int n" using b by (simp only: of_int_le_iff)
  finally show "(2 :: rat) powi (int (BitLen n) - 1) \<le> of_int n" .
  have "of_int n < (of_int (2 ^ BitLen n) :: rat)" using b by (simp only: of_int_less_iff)
  then show "of_int n < (2 :: rat) powi int (BitLen n)" by simp
qed

lemma exponent_bounds:
  assumes "0 < x"
  shows "2 powi exponent x \<le> x" "x < 2 powi (exponent x + 1)"
proof -
  obtain a b where q: "quotient_of x = (a, b)" by fastforce
  have b: "0 < b" using quotient_of_denom_pos [OF q] .
  have x: "x = of_int a / of_int b" by (rule quotient_of_div [OF q])
  then have a: "0 < a" using assms b by (simp add: zero_less_divide_iff)
  define m n where "m = BitLen a" and "n = BitLen b"
  note ra = BitLen_rat [OF a, folded m_def] and rb = BitLen_rat [OF b, folded n_def]
  let ?f = "int m - int n"
  have pb: "(0 :: rat) < of_int b" using b by simp
  have up: "x < 2 powi (?f + 1)"
  proof -
    have "x < 2 powi int m / of_int b" unfolding x using ra(2) pb by (rule divide_strict_right_mono)
    also have "\<dots> \<le> 2 powi int m / 2 powi (int n - 1)"
      using rb(1) pb by (intro divide_left_mono mult_pos_pos) (simp_all add: zero_less_power_int)
    also have "\<dots> = 2 powi (int m - (int n - 1))" by (rule power_int_diff [symmetric]) simp
    also have "int m - (int n - 1) = ?f + 1" by simp
    finally show ?thesis .
  qed
  have lo: "2 powi (?f - 1) \<le> x"
  proof -
    have "(2 :: rat) powi ((int m - 1) - int n) = 2 powi (int m - 1) / 2 powi int n" by (rule power_int_diff) simp
    then have "2 powi (?f - 1) = 2 powi (int m - 1) / (2 :: rat) powi int n" by (simp only: diff_right_commute)
    also have "\<dots> \<le> 2 powi (int m - 1) / of_int b"
      using rb(2) pb by (intro divide_left_mono) simp_all
    also have "\<dots> \<le> x" unfolding x using ra(1) pb by (simp add: divide_right_mono)
    finally show ?thesis .
  qed
  have e: "exponent x = (if 2 powi ?f \<le> x then ?f else ?f - 1)" by (simp add: exponent_def q m_def n_def)
  show "2 powi exponent x \<le> x" "x < 2 powi (exponent x + 1)" using e up lo by (auto simp: not_le)
qed

lemma nearest_even_error: "\<bar>of_int (nearest_even m) - m\<bar> \<le> 1 / 2"
proof -
  have "of_int \<lfloor>m\<rfloor> \<le> m" "m < of_int \<lfloor>m\<rfloor> + 1" by linarith+
  then show ?thesis by (auto simp: nearest_even_def Let_def abs_le_iff)
qed

lemma round_prec_error: "\<bar>round_prec p x - x\<bar> \<le> \<bar>x\<bar> / 2 ^ p"
proof (cases "x = 0")
  case False
  define u where "u = (2 :: rat) powi (exponent \<bar>x\<bar> + 1 - int p)"
  have u: "0 < u" by (simp add: u_def)
  have "u / 2 = 2 powi exponent \<bar>x\<bar> / 2 ^ p"
    by (simp add: u_def power_int_diff power_int_add)
  also have "\<dots> \<le> \<bar>x\<bar> / 2 ^ p" using exponent_bounds(1) [of "\<bar>x\<bar>"] False by (simp add: divide_right_mono)
  finally have h: "u / 2 \<le> \<bar>x\<bar> / 2 ^ p" .
  have "round_prec p x - x = sgn x * u * (of_int (nearest_even (\<bar>x\<bar> / u)) - \<bar>x\<bar> / u)"
  proof -
    have "round_prec p x = sgn x * of_int (nearest_even (\<bar>x\<bar> / u)) * u"
      using False by (simp add: round_prec_def u_def Let_def)
    moreover have "x = sgn x * u * (\<bar>x\<bar> / u)" using u by (simp add: sgn_mult_abs)
    ultimately show ?thesis by (simp add: right_diff_distrib mult.assoc mult.commute)
  qed
  then have "\<bar>round_prec p x - x\<bar> = u * \<bar>of_int (nearest_even (\<bar>x\<bar> / u)) - \<bar>x\<bar> / u\<bar>"
    using False u by (simp add: abs_mult)
  also have "\<dots> \<le> u * (1 / 2)" using u by (intro mult_left_mono nearest_even_error) simp
  finally have "\<bar>round_prec p x - x\<bar> \<le> u / 2" by simp
  then show ?thesis using h by (rule order_trans)
qed (simp add: round_prec_def)

lemma round_prec_nonneg:
  assumes "0 \<le> x"
  shows "0 \<le> round_prec p x" "round_prec p x \<le> x * (1 + 1 / 2 ^ p)"
proof -
  have "x / 2 ^ p \<le> x" using assms by (simp add: divide_le_eq mult_left_mono [of 1 "2 ^ p" x, simplified])
  with round_prec_error [of p x] assms show "0 \<le> round_prec p x" by (simp add: abs_le_iff)
  from round_prec_error [of p x] assms show "round_prec p x \<le> x * (1 + 1 / 2 ^ p)"
    by (simp add: abs_le_iff algebra_simps)
qed

lemma two_roundings:
  assumes "0 \<le> x" "64 \<le> p"
  shows "\<bar>round_prec p (round_prec p (100 * x) / 100) - x\<bar> \<le> 3 * x / 2 ^ 64"
proof -
  define d where "d = 1 / (2 :: rat) ^ p"
  define m where "m = round_prec p (100 * x) / 100"
  have "(2 :: rat) ^ 64 \<le> 2 ^ p" using assms(2) by (rule power_increasing) simp
  then have d: "0 < d" "d \<le> 1 / 2 ^ 64" unfolding d_def by (simp_all add: frac_le)
  have m: "\<bar>m - x\<bar> \<le> x * d" "0 \<le> m"
    using round_prec_error [of p "100 * x"] round_prec_nonneg(1) [of "100 * x" p] assms(1)
    by (simp_all add: m_def d_def abs_le_iff)
  have "\<bar>round_prec p m - m\<bar> \<le> m * d" using round_prec_error [of p m] m(2) by (simp add: d_def)
  also have "\<dots> \<le> (x + x * d) * d" using m d(1) by (intro mult_right_mono) linarith+
  also have "\<dots> \<le> (x + x) * d" using assms(1) d by (intro mult_right_mono) (simp_all add: mult_left_le)
  finally have "\<bar>round_prec p m - x\<bar> \<le> 3 * (x * d)" using m(1) by (simp add: algebra_simps)
  also have "\<dots> \<le> 3 * (x * (1 / 2 ^ 64))" using assms(1) d(2) by (intro mult_left_mono) simp_all
  finally show ?thesis by (simp add: m_def)
qed

section \<open>The iteration\<close>

lemma length_cumulative [simp]: "length (cumulative_fees x pss) = Suc (length pss)"
  by (induction pss) (simp_all add: Let_def)

lemma last_cumulative [simp]: "cumulative_fees x pss ! length pss = 0"
  by (induction pss) (simp_all add: Let_def)

lemma cumulative_ne [simp]: "cumulative_fees x pss \<noteq> []"
  by (metis Zero_not_Suc length_0_conv length_cumulative)

lemma cumulative_step:
  "i < length pss \<Longrightarrow> cumulative_fees x pss ! i =
     hop_fee (pss ! i) (x + cumulative_fees x pss ! Suc i) + cumulative_fees x pss ! Suc i"
proof (induction pss arbitrary: i)
  case (Cons ps pss)
  then show ?case by (cases i) (simp_all add: Let_def hd_conv_nth)
qed simp

lemma next_capacity_le:
  "next_capacity pss x0 cum \<le> x0"
  "i < length pss \<Longrightarrow> length cum = Suc (length pss) \<Longrightarrow> next_capacity pss x0 cum + cum ! Suc i \<le> MaxCapacity (pss ! i)"
proof -
  let ?f = "\<lambda>newX (ps, c). if MaxCapacity ps - c < newX then MaxCapacity ps - c else newX"
  have f: "foldl ?f x zs \<le> x \<and> (\<forall>(ps, c) \<in> set zs. foldl ?f x zs \<le> MaxCapacity ps - c)" for zs x
  proof (induction zs arbitrary: x)
    case (Cons z zs)
    obtain ps c where z: "z = (ps, c)" by fastforce
    have "?f x z \<le> x" "?f x z \<le> MaxCapacity ps - c" by (simp_all add: z)
    with Cons [of "?f x z"] show ?case by (simp add: z)
  qed simp
  show "next_capacity pss x0 cum \<le> x0" unfolding next_capacity_def using f by blast
  assume i: "i < length pss" "length cum = Suc (length pss)"
  then have "zip pss (tl cum) ! i = (pss ! i, cum ! Suc i)" "i < length (zip pss (tl cum))" by (simp_all add: nth_tl)
  then have "(pss ! i, cum ! Suc i) \<in> set (zip pss (tl cum))" by (metis nth_mem)
  with f [of x0 "zip pss (tl cum)"] show "next_capacity pss x0 cum + cum ! Suc i \<le> MaxCapacity (pss ! i)"
    by (fastforce simp: next_capacity_def)
qed

text \<open>What holds after at least one pass, whether or not the loop has converged.\<close>

lemma capacity_loop_result:
  assumes "capacity_loop (Suc k) pss x0 x cum = (x', cum')"
  shows "\<exists>y. cum' = cumulative_fees y pss \<and> x' = next_capacity pss x0 cum'"
  using assms
proof (induction k arbitrary: x cum)
  case 0
  then show ?case by (auto simp: Let_def split: if_splits)
next
  case (Suc k)
  let ?c = "cumulative_fees x pss"
  show ?case
  proof (cases "next_capacity pss x0 ?c = x")
    case True
    with Suc.prems have "x' = x" "cum' = ?c" by (auto simp: Let_def)
    with True show ?thesis by auto
  next
    case False
    with Suc.prems have "capacity_loop (Suc k) pss x0 (next_capacity pss x0 ?c) ?c = (x', cum')"
      by (simp only: capacity_loop.simps(2) [of "Suc k"] Let_def if_False)
    then show ?thesis by (rule Suc.IH)
  qed
qed

definition capacity_step :: "payment_tunnel_section list \<Rightarrow> int \<Rightarrow> int \<Rightarrow> int" where
  "capacity_step pss x0 x = next_capacity pss x0 (cumulative_fees x pss)"

lemma capacity_loop_settles:
  assumes "capacity_step pss x0 ((capacity_step pss x0 ^^ j) x) = (capacity_step pss x0 ^^ j) x" "j < k"
  shows "\<exists>y. capacity_loop k pss x0 x cum = (y, cumulative_fees y pss)"
  using assms
proof (induction k arbitrary: j x cum)
  case (Suc k)
  have c: "capacity_loop (Suc k) pss x0 x cum =
      (if capacity_step pss x0 x = x then (x, cumulative_fees x pss)
       else capacity_loop k pss x0 (capacity_step pss x0 x) (cumulative_fees x pss))"
    by (simp add: Let_def capacity_step_def)
  show ?case
  proof (cases "capacity_step pss x0 x = x")
    case True
    then show ?thesis by (simp only: c) simp
  next
    case False
    with Suc.prems obtain i where j: "j = Suc i" by (cases j) auto
    with Suc.prems Suc.IH [of i "capacity_step pss x0 x" "cumulative_fees x pss"] False show ?thesis
      by (simp only: c funpow_Suc_right comp_apply) simp
  qed
qed simp

lemma chain_parts:
  assumes "buildTunnelPaymentsChain tm pss x0 baseTTL hopTTL = Inr chain"
  obtains x cum where "capacity_loop 10 pss x0 x0 (replicate (length pss + 1) 0) = (x, cum)" "0 \<le> x" "pss \<noteq> []"
    "length chain = length pss"
    "\<And>i. i < length pss \<Longrightarrow> chain ! i = \<lparr>Target = ptKey (pss ! i), Capacity = x + cum ! Suc i, Fee = cum ! i,
                               Deadline = tm + baseTTL + int (length pss - i) * hopTTL\<rparr>"
proof -
  obtain x cum where c: "capacity_loop 10 pss x0 x0 (replicate (length pss + 1) 0) = (x, cum)" by fastforce
  have "pss \<noteq> []" using assms by (auto simp: buildTunnelPaymentsChain_def)
  moreover from this assms have "0 \<le> x"
    unfolding buildTunnelPaymentsChain_def c by (simp split: if_splits)
  moreover from calculation assms have "chain = map (\<lambda>i. \<lparr>Target = ptKey (pss ! i), Capacity = x + cum ! Suc i, Fee = cum ! i,
      Deadline = tm + baseTTL + int (length pss - i) * hopTTL\<rparr>) [0..<length pss]"
    unfolding buildTunnelPaymentsChain_def c by (simp split: if_splits)
  ultimately show thesis using that c by simp
qed

lemma chain_last_capacity:
  assumes "buildTunnelPaymentsChain tm pss x0 baseTTL hopTTL = Inr chain"
  shows "chain \<noteq> []" "0 \<le> Capacity (last chain)" "Capacity (last chain) \<le> x0"
proof -
  from assms obtain x cum where c: "capacity_loop 10 pss x0 x0 (replicate (length pss + 1) 0) = (x, cum)" "0 \<le> x" "pss \<noteq> []"
      "length chain = length pss"
    and n: "\<And>i. i < length pss \<Longrightarrow> chain ! i = \<lparr>Target = ptKey (pss ! i), Capacity = x + cum ! Suc i, Fee = cum ! i,
                               Deadline = tm + baseTTL + int (length pss - i) * hopTTL\<rparr>"
    by (rule chain_parts) blast
  from capacity_loop_result [of 9 pss x0 x0] c(1) obtain y where y: "cum = cumulative_fees y pss" "x = next_capacity pss x0 cum"
    by (metis Suc_numeral semiring_norm(5,8))
  show ne: "chain \<noteq> []" using c(3,4) by auto
  then have "Capacity (last chain) = x" using n [of "length pss - 1"] c(3,4) y(1) by (simp add: last_conv_nth Suc_diff_1)
  then show "0 \<le> Capacity (last chain)" "Capacity (last chain) \<le> x0" using c(2) y(2) next_capacity_le(1) by simp_all
qed

lemma hop_fee_ge: "MinFee ps \<le> hop_fee ps R"
  by (simp add: hop_fee_def)

section \<open>Properties\<close>

text \<open>
  C35. Whatever the fees, and whether or not the iteration converges, a chain that is returned
  respects every node's limit: no hop locks more than its \<open>MaxCapacity\<close>, the last hop receives a
  non-negative capacity of at most the wanted one, each hop locks exactly that capacity plus the
  fees of the hops behind it, each hop earns at least its minimal fee, and deadlines shrink by
  \<open>hopTTL\<close> from hop to hop.
\<close>

theorem payment_chain_bounds:
  assumes "buildTunnelPaymentsChain tm pss x0 baseTTL hopTTL = Inr chain" "i < length pss"
  defines "fee_of \<equiv> \<lambda>j. if j < length pss then Fee (chain ! j) else 0"
  shows "length chain = length pss \<and> Target (chain ! i) = ptKey (pss ! i) \<and>
     Capacity (chain ! i) \<le> MaxCapacity (pss ! i) \<and>
     0 \<le> Capacity (last chain) \<and> Capacity (last chain) \<le> x0 \<and>
     Capacity (chain ! i) = Capacity (last chain) + fee_of (Suc i) \<and>
     MinFee (pss ! i) \<le> fee_of i - fee_of (Suc i) \<and>
     Deadline (chain ! i) = tm + baseTTL + int (length pss - i) * hopTTL"
proof -
  from assms(1) obtain x cum where c: "capacity_loop 10 pss x0 x0 (replicate (length pss + 1) 0) = (x, cum)" "0 \<le> x" "pss \<noteq> []"
      "length chain = length pss"
    and n: "\<And>i. i < length pss \<Longrightarrow> chain ! i = \<lparr>Target = ptKey (pss ! i), Capacity = x + cum ! Suc i, Fee = cum ! i,
                               Deadline = tm + baseTTL + int (length pss - i) * hopTTL\<rparr>"
    by (rule chain_parts) blast
  from capacity_loop_result [of 9 pss x0 x0] c(1) obtain y where y: "cum = cumulative_fees y pss" "x = next_capacity pss x0 cum"
    by (metis Suc_numeral semiring_norm(5,8))
  have l: "cum ! length pss = 0" "length cum = Suc (length pss)" by (simp_all add: y(1))
  have f: "fee_of j = cum ! j" if "j \<le> length pss" for j using that l n by (auto simp: fee_of_def le_less)
  have "last chain = chain ! (length pss - 1)" using c(3,4) by (metis last_conv_nth length_0_conv)
  then have la: "Capacity (last chain) = x" using n [of "length pss - 1"] c(3) l by (simp add: Suc_diff_1)
  have "cum ! i - cum ! Suc i = hop_fee (pss ! i) (y + cum ! Suc i)"
    using cumulative_step [OF assms(2), of y] by (simp add: y(1))
  with hop_fee_ge [of "pss ! i" "y + cum ! Suc i"] next_capacity_le(2) [OF assms(2) l(2), of x0] next_capacity_le(1) [of pss x0 cum]
  show ?thesis using c la n [OF assms(2)] f [of i] f [of "Suc i"] assms(2) y(2) by auto
qed

definition demo_hops :: "payment_tunnel_section list" where
  "demo_hops = [\<lparr>ptKey = [1], MinFee = 2, PercentFee = \<lparr>prec = 53, val = 0\<rparr>, MaxCapacity = 1000\<rparr>,
                \<lparr>ptKey = [2], MinFee = 5, PercentFee = \<lparr>prec = 53, val = 0\<rparr>, MaxCapacity = 300\<rparr>]"

lemma candidate_zero [simp]: "val (PercentFee ps) = 0 \<Longrightarrow> candidate_fee ps R = 0"
  by (simp add: candidate_fee_def Float_Mul_def Float_Quo_def Float_Int_def round_prec_def)

lemma demo_chain:
  "buildTunnelPaymentsChain 0 demo_hops 500 60 10 =
     Inr [\<lparr>Target = [1], Capacity = 305, Fee = 7, Deadline = 80\<rparr>, \<lparr>Target = [2], Capacity = 300, Fee = 5, Deadline = 70\<rparr>]"
proof -
  have c: "cumulative_fees x demo_hops = [7, 5, 0]" for x by (simp add: demo_hops_def Let_def hop_fee_def)
  have n: "next_capacity demo_hops 500 [7, 5, 0] = 300" by (simp add: demo_hops_def next_capacity_def)
  have "capacity_loop 10 demo_hops 500 500 cum = (300, [7, 5, 0])" for cum
    by (simp add: eval_nat_numeral Let_def c n)
  then show ?thesis by (simp add: buildTunnelPaymentsChain_def) (simp add: demo_hops_def upt_rec)
qed

text \<open>
  The input of \<open>TestBuildTunnelPaymentsChain\<close> in \<open>regularOutTunnel_test.go\<close>; 0.05 is the nearest
  \<open>float64\<close>. The model computes the values the test expects.
\<close>

definition test_hops :: "payment_tunnel_section list" where
  "test_hops = [\<lparr>ptKey = [1], MinFee = 10, PercentFee = \<lparr>prec = 53, val = 10\<rparr>, MaxCapacity = 120\<rparr>,
                \<lparr>ptKey = [2], MinFee = 5, PercentFee = \<lparr>prec = 53, val = 20\<rparr>, MaxCapacity = 100\<rparr>,
                \<lparr>ptKey = [3], MinFee = 1, PercentFee = \<lparr>prec = 53, val = 3602879701896397 / 72057594037927936\<rparr>, MaxCapacity = 50\<rparr>,
                \<lparr>ptKey = [4], MinFee = 0, PercentFee = \<lparr>prec = 53, val = 0\<rparr>, MaxCapacity = 100\<rparr>]"

lemma test_fees:
  "candidate_fee (test_hops ! 0) 97 = 9" "candidate_fee (test_hops ! 0) 61 = 6"
  "candidate_fee (test_hops ! 1) 81 = 16" "candidate_fee (test_hops ! 1) 51 = 10"
  "candidate_fee (test_hops ! 2) 80 = 0" "candidate_fee (test_hops ! 2) 50 = 0"
  by code_simp+

lemma test_chain:
  "buildTunnelPaymentsChain 0 test_hops 80 1800 30 =
     Inr [\<lparr>Target = [1], Capacity = 61, Fee = 21, Deadline = 1920\<rparr>, \<lparr>Target = [2], Capacity = 51, Fee = 11, Deadline = 1890\<rparr>,
          \<lparr>Target = [3], Capacity = 50, Fee = 1, Deadline = 1860\<rparr>, \<lparr>Target = [4], Capacity = 50, Fee = 0, Deadline = 1830\<rparr>]"
proof -
  have l: "test_hops = [test_hops ! 0, test_hops ! 1, test_hops ! 2, test_hops ! 3]" by (simp add: test_hops_def)
  have m: "MinFee (test_hops ! 0) = 10" "MinFee (test_hops ! 1) = 5" "MinFee (test_hops ! 2) = 1" "MinFee (test_hops ! 3) = 0"
      "candidate_fee (test_hops ! 3) R = 0" "MaxCapacity (test_hops ! 0) = 120" "MaxCapacity (test_hops ! 1) = 100"
      "MaxCapacity (test_hops ! 2) = 50" "MaxCapacity (test_hops ! 3) = 100" for R by (simp_all add: test_hops_def)
  have c: "cumulative_fees 80 test_hops = [27, 17, 1, 0, 0]" "cumulative_fees 50 test_hops = [21, 11, 1, 0, 0]"
    by (subst l, simp only: cumulative_fees.simps Let_def hop_fee_def list.sel m, simp add: test_fees [simplified])+
  have n: "next_capacity test_hops 80 [a, b, d, 0, 0] = min 80 (min (120 - b) (min (100 - d) 50))" for a b d
    by (subst l) (simp add: next_capacity_def m [simplified] min_def)
  have "capacity_loop 10 test_hops 80 80 cum = (50, [21, 11, 1, 0, 0])" for cum
    by (simp add: eval_nat_numeral Let_def c n)
  then show ?thesis by (simp add: buildTunnelPaymentsChain_def) (simp add: test_hops_def upt_rec)
qed

theorem payment_chain_bounds_witness:
  "\<exists>chain. buildTunnelPaymentsChain 0 test_hops 80 1800 30 = Inr chain \<and> Capacity (chain ! 2) \<le> 50"
  using payment_chain_bounds [OF test_chain, of 2] test_chain by (simp add: test_hops_def)

text \<open>
  When the iteration reaches a fixed point within its ten passes, every hop's fee is exactly
  the fee of the amount it forwards: the larger of its minimal fee and its percentage of the
  locked capacity, truncated to an integer. The computed percentage is off by less than one unit
  plus a relative error of 3 / 2^64 for the rounding of the floating-point product and quotient.
\<close>

lemma settled_chain_fees:
  assumes "buildTunnelPaymentsChain tm pss x0 baseTTL hopTTL = Inr chain" "i < length pss"
    and "capacity_step pss x0 ((capacity_step pss x0 ^^ j) x0) = (capacity_step pss x0 ^^ j) x0" "j < 10"
    and "0 \<le> val (PercentFee (pss ! i))" "0 \<le> Capacity (chain ! i)"
  defines "fee \<equiv> Fee (chain ! i) - (if Suc i < length pss then Fee (chain ! Suc i) else 0)"
    and "share \<equiv> val (PercentFee (pss ! i)) * of_int (Capacity (chain ! i)) / 100"
  shows "fee = max (MinFee (pss ! i)) (candidate_fee (pss ! i) (Capacity (chain ! i))) \<and>
     \<bar>of_int (candidate_fee (pss ! i) (Capacity (chain ! i))) - share\<bar> < 1 + 3 * share / 2 ^ 64"
proof
  from assms(1) obtain x cum where c: "capacity_loop 10 pss x0 x0 (replicate (length pss + 1) 0) = (x, cum)" "0 \<le> x" "pss \<noteq> []"
      "length chain = length pss"
    and n: "\<And>i. i < length pss \<Longrightarrow> chain ! i = \<lparr>Target = ptKey (pss ! i), Capacity = x + cum ! Suc i, Fee = cum ! i,
                               Deadline = tm + baseTTL + int (length pss - i) * hopTTL\<rparr>"
    by (rule chain_parts) blast
  from capacity_loop_settles [OF assms(3,4)] c(1) have y: "cum = cumulative_fees x pss" by (metis prod.inject)
  have "fee = cum ! i - cum ! Suc i"
    using n [OF assms(2)] n [of "Suc i"] assms(2) y by (cases "Suc i = length pss") (auto simp: fee_def)
  also have "\<dots> = hop_fee (pss ! i) (Capacity (chain ! i))"
    using cumulative_step [OF assms(2), of x] n [OF assms(2)] by (simp add: y)
  finally show "fee = max (MinFee (pss ! i)) (candidate_fee (pss ! i) (Capacity (chain ! i)))"
    by (simp add: hop_fee_def max_def)
  let ?R = "Capacity (chain ! i)" let ?pct = "PercentFee (pss ! i)"
  define p where "p = max (prec ?pct) (max (BitLen \<bar>?R\<bar>) 64)"
  define q where "q = round_prec p (round_prec p (100 * share) / 100)"
  have s: "0 \<le> share" using assms(5,6) by (simp add: share_def)
  have q: "\<bar>q - share\<bar> \<le> 3 * share / 2 ^ 64" "0 \<le> q"
    unfolding q_def using two_roundings [OF s, of p] s by (simp_all add: p_def round_prec_nonneg)
  have "candidate_fee (pss ! i) ?R = \<lfloor>q\<rfloor>"
    using q(2) by (simp add: candidate_fee_def Float_Int_def Float_Quo_def Float_Mul_def Float_SetInt_def Let_def q_def p_def share_def)
  moreover have "of_int \<lfloor>q\<rfloor> \<le> q" "q < of_int \<lfloor>q\<rfloor> + 1" by linarith+
  ultimately show "\<bar>of_int (candidate_fee (pss ! i) ?R) - share\<bar> < 1 + 3 * share / 2 ^ 64" using q(1) by linarith
qed

lemma settled_chain_fees_witness:
  "\<exists>chain. buildTunnelPaymentsChain 0 demo_hops 500 60 10 = Inr chain \<and>
     Fee (chain ! 0) - Fee (chain ! 1) = max 2 (candidate_fee (demo_hops ! 0) 305)"
proof -
  have c: "cumulative_fees x demo_hops = [7, 5, 0]" for x by (simp add: demo_hops_def Let_def hop_fee_def)
  have n: "next_capacity demo_hops 500 [7, 5, 0] = 300" by (simp add: demo_hops_def next_capacity_def)
  show ?thesis
    using settled_chain_fees [OF demo_chain, of 0 1] by (simp add: demo_chain capacity_step_def c n) (simp add: demo_hops_def)
qed

text \<open>
  The iteration need not converge: with an ordinary fee of one percent and limits of 100 units
  it alternates between 99 and 100 and stops after ten passes with fees computed for the other
  value. The chain it returns asks the last node to take the capacity 100 for the fee 0, although
  one percent of 100 is 1.
\<close>

definition percent_hops :: "payment_tunnel_section list" where
  "percent_hops = [\<lparr>ptKey = [1], MinFee = 0, PercentFee = \<lparr>prec = 53, val = 0\<rparr>, MaxCapacity = 100\<rparr>,
                   \<lparr>ptKey = [2], MinFee = 0, PercentFee = \<lparr>prec = 53, val = 1\<rparr>, MaxCapacity = 100\<rparr>]"

lemma percent_fees:
  "candidate_fee (percent_hops ! 1) 1000 = 10" "candidate_fee (percent_hops ! 1) 90 = 0"
  "candidate_fee (percent_hops ! 1) 100 = 1" "candidate_fee (percent_hops ! 1) 99 = 0"
  by code_simp+

lemma payment_chain_unsettled:
  "\<exists>a b. buildTunnelPaymentsChain 0 percent_hops 1000 60 10 = Inr [a, b] \<and>
     Capacity b = 100 \<and> Fee b = 0 \<and> hop_fee (percent_hops ! 1) (Capacity b) = 1"
proof -
  have m: "MinFee (percent_hops ! 1) = 0" by (simp add: percent_hops_def)
  have f: "hop_fee (percent_hops ! 1) 1000 = 10" "hop_fee (percent_hops ! 1) 90 = 0"
      "hop_fee (percent_hops ! 1) 100 = 1" "hop_fee (percent_hops ! 1) 99 = 0"
    unfolding hop_fee_def percent_fees m by simp_all
  have c: "cumulative_fees x percent_hops = [hop_fee (percent_hops ! 1) x, hop_fee (percent_hops ! 1) x, 0]" for x
    by (simp add: percent_hops_def Let_def hop_fee_def)
  have n: "next_capacity percent_hops 1000 [a, a, 0] = min 1000 (min (100 - a) 100)" for a
    by (simp add: percent_hops_def next_capacity_def min_def)
  have "capacity_loop 10 percent_hops 1000 1000 cum = (100, [0, 0, 0])" for cum
    by (simp add: eval_nat_numeral Let_def c n f [simplified])
  then show ?thesis using f(3) by (simp add: buildTunnelPaymentsChain_def) (simp add: percent_hops_def upt_rec)
qed

end
