(* ===== verification/Out_Tunnel.thy ===== *)
theory Out_Tunnel
  imports Gateway_Safety Payment_Chain
begin

text \<open>
  The initiator's end of a tunnel: \<open>RegularOutTunnel\<close> of \<open>tunnel/regularOutTunnel.go\<close>. Tunnels live
  in a store of their own that extends the gateway's state, and \<open>Process\<close> is the function the
  gateway calls for a payload delivered to the initiator. The section infos of the two chains are
  values inside the tunnel (every node of a route has keys and payment state of its own). The
  channel \<open>read\<close> is a queue with its capacity, the channel \<open>sendControlSignal\<close> a flag.
\<close>

section \<open>State\<close>

record virtual_payment_channel =
  vcKey :: bytes
  LastAmount :: int
  vcCapacity :: int
  SafeDeadline :: int

record payer =
  PaymentTunnel :: "payment_tunnel_section list"
  PricePerPacket :: u64
  JettonMaster :: "bytes option"
  ExtraCurrencyID :: u32
  PaidPackets :: int
  CurrentChannel :: "virtual_payment_channel option"
  PaidChannelFee :: "int option"
  LatestChannelDeadline :: int
  LatestPaidOnSeqno :: u64
  LatestInstruction :: "instruction option"
  LatestPacketsPaid :: int

record section_info =
  Keys :: encryption_keys
  PaymentInfo :: "payer option"

record out_tunnel =
  localID :: u32
  tunPeer :: ptr
  usePayments :: bool
  paymentsConfirmed :: bool
  wantDestroy :: bool
  tunnelState :: u32
  controlSignal :: bool
  externalAddr :: bytes
  externalPort :: u16
  onOutAddressChanged :: bool \<comment> \<open>a handler is set\<close>
  chainTo :: "section_info list"
  chainFrom :: "section_info list"
  payloadKeys :: encryption_keys
  readQueue :: "(u64 \<times> bytes \<times> u32 \<times> bytes) list"
  seqnoSend :: u64
  seqnoRecv :: u64
  packetsRecv :: u64
  packetsRecvPaidConsumed :: u64
  packetsDropped :: u64
  packetsSent :: u64
  controlSeqno :: u64
  controlSeqnoReceived :: u64
  controlPaidSeqnoReceived :: u64
  packetsToPrepay :: int
  packetsConsumedIn :: int
  packetsConsumedOut :: int
  packetsMinPaidIn :: int
  packetsMinPaidOut :: int
  lastFullyCheckedAt :: int
  seqnoForward :: u32
  tunClosed :: bool

record tun_gateway = gateway +
  tuns :: "out_tunnel list"

definition StateTypeDestroyed :: u32 where "StateTypeDestroyed = 0xFFFFFFFF"
definition StateTypeConfiguring :: u32 where "StateTypeConfiguring = 1"
definition StateTypeOptimizingRoutes :: u32 where "StateTypeOptimizingRoutes = 2"
definition StateTypeOptimized :: u32 where "StateTypeOptimized = 3"

definition ChannelPacketsToPrepay :: int where "ChannelPacketsToPrepay = 200000"
definition readCapacity :: nat where "readCapacity = 512 * 1024"

text \<open>
  What the tunnel uses of the TL library (the ADNL id of a key), of the clock in nanoseconds and
  of the random source: the nonce of the encryption layer of each node, on the way to the gate
  (\<open>False\<close>) or back (\<open>True\<close>).
\<close>

record host =
  adnl_id :: "bytes \<Rightarrow> bytes option"
  unix_nano :: u64
  layer_nonce :: "bool \<Rightarrow> nat \<Rightarrow> u64 option"

definition upd_tun :: "ptr \<Rightarrow> (out_tunnel \<Rightarrow> out_tunnel) \<Rightarrow> 'a tun_gateway_scheme \<Rightarrow> 'a tun_gateway_scheme" where
  "upd_tun t f s = s\<lparr>tuns := hupd t f (tuns s)\<rparr>"

section \<open>Messages to the nodes of the chain\<close>

definition empty_message :: encrypted_message where
  "empty_message = \<lparr>msgSectionPubKey = [], msgInstructions = [], msgPayload = []\<rparr>"

definition encrypt_with ::
  "crypto \<Rightarrow> tlcodec \<Rightarrow> u64 option \<Rightarrow> section_info \<Rightarrow> encrypted_message \<Rightarrow> instruction list
   \<Rightarrow> section_info \<times> (go_error + encrypted_message)" where
  "encrypt_with C T rnd cur msg instructions =
     (case EncryptInstructionsMessage C T rnd (Keys cur) msg instructions of (k, res) \<Rightarrow> (cur\<lparr>Keys := k\<rparr>, res))"

text \<open>
  The loops \<open>for i := len(nodes) - 1; i >= 0; i--\<close> that add one layer per node: the body gets the
  index, the node and the nodes behind it, and changes the node's keys and the message.
\<close>

primrec layers_loop ::
  "(nat \<Rightarrow> section_info \<Rightarrow> section_info list \<Rightarrow> encrypted_message \<Rightarrow> section_info \<times> (go_error + encrypted_message))
   \<Rightarrow> nat \<Rightarrow> section_info list \<Rightarrow> section_info list \<times> (go_error + encrypted_message)" where
  "layers_loop body i [] = ([], Inr empty_message)"
| "layers_loop body i (nd # nds) =
     (case layers_loop body (Suc i) nds of
        (nds', Inl e) \<Rightarrow> (nd # nds', Inl e)
      | (nds', Inr msg) \<Rightarrow> (case body i nd nds msg of (nd', res) \<Rightarrow> (nd' # nds', res)))"

definition price_of :: "section_info \<Rightarrow> u64" where
  "price_of cur = (case PaymentInfo cur of None \<Rightarrow> 0 | Some p \<Rightarrow> PricePerPacket p)"

definition route_instructions :: "host \<Rightarrow> bool \<Rightarrow> bytes \<Rightarrow> bytes \<Rightarrow> u32 \<Rightarrow> u64 \<Rightarrow> bool \<Rightarrow> instruction list" where
  "route_instructions H initial adnl key routeId price prepareSystemTunnel =
     (if initial
      then [BuildRouteInstruction adnl key routeId price, CacheInstruction (unix_nano H) [RouteInstruction routeId]]
           @ (if prepareSystemTunnel then [BuildRouteInstruction adnl key (NOT routeId) price] else [])
      else []) @ [RouteInstruction routeId]"

definition buildRoute ::
  "host \<Rightarrow> crypto \<Rightarrow> tlcodec \<Rightarrow> u64 option \<Rightarrow> bool \<Rightarrow> encrypted_message \<Rightarrow> section_info \<Rightarrow> section_info \<Rightarrow> bool
   \<Rightarrow> section_info \<times> (go_error + encrypted_message)" where
  "buildRoute H C T rnd initial msg cur nxt prepareSystemTunnel =
     (case adnl_id H (ReceiverPubKey (Keys nxt)) of
        None \<Rightarrow> (cur, Inl (ErrTunnel ErrHash))
      | Some adnl \<Rightarrow>
          (case Uint32 (SectionPubKey (Keys nxt)) of
             Inl e \<Rightarrow> (cur, Inl e)
           | Inr routeId \<Rightarrow>
               encrypt_with C T rnd cur msg
                 (route_instructions H initial adnl (SectionPubKey (Keys nxt)) routeId (price_of cur) prepareSystemTunnel)))"

text \<open>The inbound chain, which ends at the initiator.\<close>

definition back_layer ::
  "host \<Rightarrow> crypto \<Rightarrow> tlcodec \<Rightarrow> u32 \<Rightarrow> u32 \<Rightarrow> nat \<Rightarrow> section_info \<Rightarrow> section_info list \<Rightarrow> encrypted_message
   \<Rightarrow> section_info \<times> (go_error + encrypted_message)" where
  "back_layer H C T lid state y cur nds backMsg =
     (case nds of
        [] \<Rightarrow> let ins = DeliverInitiatorInstruction lid (StateMeta state)
              in encrypt_with C T (layer_nonce H True y) cur backMsg [ins, CacheInstruction (unix_nano H) [ins]]
      | nxt # _ \<Rightarrow> buildRoute H C T (layer_nonce H True y) (state = StateTypeConfiguring) backMsg cur nxt True)"

definition gate_instructions :: "host \<Rightarrow> u32 \<Rightarrow> bytes \<Rightarrow> bytes \<Rightarrow> u32 \<Rightarrow> bytes \<Rightarrow> bytes \<Rightarrow> u64 \<Rightarrow> instruction list" where
  "gate_instructions H state adnl backKey backId backInstructions receiver price =
     [BuildRouteInstruction adnl backKey (NOT backId) price,
      BindOutInstruction adnl backKey backInstructions receiver price,
      CacheInstruction (unix_nano H) [SendOutInstruction]]"

definition forward_layer ::
  "host \<Rightarrow> crypto \<Rightarrow> tlcodec \<Rightarrow> u32 \<Rightarrow> (section_info \<Rightarrow> instruction list) \<Rightarrow> nat \<Rightarrow> section_info \<Rightarrow> section_info list
   \<Rightarrow> encrypted_message \<Rightarrow> section_info \<times> (go_error + encrypted_message)" where
  "forward_layer H C T state gate i cur nds msg =
     (case nds of
        [] \<Rightarrow> encrypt_with C T (layer_nonce H False i) cur msg (gate cur)
      | nxt # _ \<Rightarrow> buildRoute H C T (layer_nonce H False i) (state = StateTypeConfiguring) msg cur nxt True)"

definition forward_loop ::
  "host \<Rightarrow> crypto \<Rightarrow> tlcodec \<Rightarrow> u32 \<Rightarrow> (section_info \<Rightarrow> instruction list) \<Rightarrow> out_tunnel
   \<Rightarrow> out_tunnel \<times> (go_error + encrypted_message)" where
  "forward_loop H C T state gate tn =
     (case layers_loop (forward_layer H C T state gate) 0 (chainTo tn) of
        (ct, Inl e) \<Rightarrow> (tn\<lparr>chainTo := ct\<rparr>, Inl e)
      | (ct, Inr msg) \<Rightarrow> (tn\<lparr>chainTo := ct, tunnelState := state\<rparr>, Inr msg))"

definition prepareInitMessage ::
  "host \<Rightarrow> crypto \<Rightarrow> tlcodec \<Rightarrow> u32 \<Rightarrow> out_tunnel \<Rightarrow> out_tunnel \<times> (go_error + encrypted_message)" where
  "prepareInitMessage H C T state tn =
     (if chainTo tn = [] then (tn\<lparr>tunnelState := state\<rparr>, Inr empty_message)
      else if StateTypeOptimizingRoutes < state
      then forward_loop H C T state (\<lambda>_. [CacheInstruction (unix_nano H) [SendOutInstruction]]) tn
      else case layers_loop (back_layer H C T (localID tn) state) 0 (chainFrom tn) of
        (cf, Inl e) \<Rightarrow> (tn\<lparr>chainFrom := cf\<rparr>, Inl e)
      | (cf, Inr backMsg) \<Rightarrow>
          let tn1 = tn\<lparr>chainFrom := cf\<rparr>
          in if chainFrom tn = [] then (tn1, Inl PanicIndex)
             else case adnl_id H (ReceiverPubKey (Keys (hd (chainFrom tn)))) of
               None \<Rightarrow> (tn1, Inl (ErrTunnel ErrHash))
             | Some adnl \<Rightarrow>
                 (case Uint32 (msgSectionPubKey backMsg) of
                    Inl e \<Rightarrow> (tn1, Inl e)
                  | Inr backId \<Rightarrow>
                      forward_loop H C T state
                        (\<lambda>gate. gate_instructions H state adnl (msgSectionPubKey backMsg) backId (msgInstructions backMsg)
                                  (SectionPubKey (payloadKeys tn)) (price_of gate)) tn1))"

definition close_layer ::
  "host \<Rightarrow> crypto \<Rightarrow> tlcodec \<Rightarrow> u32 \<Rightarrow> nat \<Rightarrow> section_info \<Rightarrow> section_info list \<Rightarrow> encrypted_message
   \<Rightarrow> section_info \<times> (go_error + encrypted_message)" where
  "close_layer H C T lid i cur nds msg =
     (case nds of
        [] \<Rightarrow> encrypt_with C T (layer_nonce H False i) cur msg [DeliverInitiatorInstruction lid (StateMeta StateTypeDestroyed)]
      | nxt # _ \<Rightarrow>
          (case Uint32 (SectionPubKey (Keys nxt)) of
             Inl e \<Rightarrow> (cur, Inl e)
           | Inr routeId \<Rightarrow> encrypt_with C T (layer_nonce H False i) cur msg [RouteInstruction (NOT routeId), DestroyInstruction]))"

definition set_nodes :: "section_info list \<Rightarrow> out_tunnel \<Rightarrow> out_tunnel" where
  "set_nodes nds tn = tn\<lparr>chainTo := take (length (chainTo tn)) nds, chainFrom := drop (length (chainTo tn)) nds\<rparr>"

definition prepareTunnelCloseMessage ::
  "host \<Rightarrow> crypto \<Rightarrow> tlcodec \<Rightarrow> out_tunnel \<Rightarrow> out_tunnel \<times> (go_error + encrypted_message)" where
  "prepareTunnelCloseMessage H C T tn =
     (case layers_loop (close_layer H C T (localID tn)) 0 (chainTo tn @ chainFrom tn) of (nds, res) \<Rightarrow> (set_nodes nds tn, res))"

section \<open>Creating a tunnel\<close>

text \<open>
  \<open>g.addPeer(id, nil)\<close> runs while the struct is built, and the reference is taken before the check
  of the payment service. The control sender's first request is the flag set at the start.
\<close>

definition new_tunnel :: "env \<Rightarrow> u32 \<Rightarrow> ptr \<Rightarrow> section_info list \<Rightarrow> section_info list \<Rightarrow> encryption_keys \<Rightarrow> out_tunnel" where
  "new_tunnel E lid p to from pec =
     \<lparr>localID = lid, tunPeer = p, usePayments = False, paymentsConfirmed = False, wantDestroy = False,
      tunnelState = StateTypeConfiguring, controlSignal = True, externalAddr = [], externalPort = 0,
      onOutAddressChanged = False, chainTo = to, chainFrom = from, payloadKeys = pec, readQueue = [],
      seqnoSend = 0, seqnoRecv = 0, packetsRecv = 0, packetsRecvPaidConsumed = 0, packetsDropped = 0,
      packetsSent = 0, controlSeqno = 0, controlSeqnoReceived = 0, controlPaidSeqnoReceived = 0,
      packetsToPrepay = ChannelPacketsToPrepay, packetsConsumedIn = 0, packetsConsumedOut = 0,
      packetsMinPaidIn = 0, packetsMinPaidOut = 0, lastFullyCheckedAt = now E, seqnoForward = 0, tunClosed = False\<rparr>"

definition CreateRegularOutTunnel ::
  "host \<Rightarrow> crypto \<Rightarrow> env \<Rightarrow> bytes option \<Rightarrow> section_info list \<Rightarrow> section_info list \<Rightarrow> 'a tun_gateway_scheme
   \<Rightarrow> 'a tun_gateway_scheme \<times> (go_error + ptr)" where
  "CreateRegularOutTunnel H C E generated to from s =
     (if to = [] \<or> from = [] then (s, Inl (ErrTunnel ErrChainsEmpty))
      else if ReceiverPubKey (Keys (last from)) \<noteq> PublicKey C (gwKey s) then (s, Inl (ErrTunnel ErrLastNotUs))
      else case GenerateEncryptionKeys C generated (ReceiverPubKey (Keys (last to))) of
        Inl e \<Rightarrow> (s, Inl e)
      | Inr pec \<Rightarrow>
          (case adnl_id H (ReceiverPubKey (Keys (hd to))) of
             None \<Rightarrow> (s, Inl (ErrTunnel ErrHash))
           | Some adnl \<Rightarrow>
               (case Uint32 (SectionPubKey pec) of
                  Inl e \<Rightarrow> (s, Inl e)
                | Inr lid \<Rightarrow>
                    (case addPeer E adnl None s of (p, s1) \<Rightarrow>
                       let s2 = AddReference p s1; tn = new_tunnel E lid p to from pec;
                           paid = (\<exists>info \<in> set (to @ from). PaymentInfo info \<noteq> None)
                       in if paid \<and> \<not> payService s then (s2, Inl ErrPaymentsDisabled)
                          else (s2\<lparr>tuns := tuns s2 @ [tn\<lparr>usePayments := paid\<rparr>],
                                   tunnels := mput lid (length (tuns s2)) (tunnels s2)\<rparr>, Inr (length (tuns s2)))))))"

section \<open>Payloads delivered to the initiator\<close>

definition requestControlMessage :: "out_tunnel \<Rightarrow> out_tunnel" where
  "requestControlMessage tn = tn\<lparr>controlSignal := True\<rparr>"

text \<open>Division of an \<open>int64\<close> by two truncates towards zero.\<close>

definition half :: "int \<Rightarrow> int" where
  "half n = (if 0 \<le> n then n div 2 else - ((- n) div 2))"

definition IP_Equal :: "bytes \<Rightarrow> bytes \<Rightarrow> bool" where
  "IP_Equal ip x =
     (let v4InV6Prefix = replicate 10 0 @ [0xFF, 0xFF]
      in if length ip = length x then ip = x
         else if length ip = 4 \<and> length x = 16 then take 12 x = v4InV6Prefix \<and> ip = drop 12 x
         else if length ip = 16 \<and> length x = 4 then take 12 ip = v4InV6Prefix \<and> drop 12 ip = x
         else False)"

text \<open>Preparing an init message and sending it to the first node.\<close>

definition send_init ::
  "host \<Rightarrow> crypto \<Rightarrow> tlcodec \<Rightarrow> env \<Rightarrow> u32 \<Rightarrow> ptr \<Rightarrow> 'a tun_gateway_scheme \<Rightarrow> 'a tun_gateway_scheme \<times> go_error option" where
  "send_init H C T E state t s =
     (case prepareInitMessage H C T state (tuns s ! t) of
        (tn, Inl e) \<Rightarrow> (upd_tun t (\<lambda>_. tn) s, Some e)
      | (tn, Inr msg) \<Rightarrow> SendCustomMessage E (tunPeer tn) (MsgEncrypted msg) (upd_tun t (\<lambda>_. tn) s))"

definition count_received :: "u64 \<Rightarrow> out_tunnel \<Rightarrow> out_tunnel" where
  "count_received seqno tn =
     (let tn1 = tn\<lparr>packetsRecv := packetsRecv tn + 1\<rparr>;
          diff = (if seqnoRecv tn < seqno then seqno - seqnoRecv tn else 0);
          tn2 = (if seqnoRecv tn < seqno then tn1\<lparr>seqnoRecv := seqno\<rparr> else tn1)
      in if usePayments tn \<and> 0 < diff
         then let consumed = i64 (packetsConsumedIn tn + sint diff);
                  tn3 = tn2\<lparr>packetsRecvPaidConsumed := packetsRecvPaidConsumed tn + diff, packetsConsumedIn := consumed\<rparr>
              in if i64 (packetsMinPaidIn tn - consumed) < half (packetsToPrepay tn) then requestControlMessage tn3 else tn3
         else tn2)"

definition receive_udp :: "u64 \<Rightarrow> bytes \<Rightarrow> u32 \<Rightarrow> bytes \<Rightarrow> out_tunnel \<Rightarrow> out_tunnel \<times> go_error option" where
  "receive_udp seqno ip port data tn =
     (if length ip \<noteq> 4 \<and> length ip \<noteq> 16 then (tn, Some (ErrTunnel (ErrIPLen (length ip))))
      else if 65535 < port then (tn, Some (ErrTunnel (ErrPort port)))
      else let tn1 = count_received seqno tn
           in if length (readQueue tn1) < readCapacity
              then (tn1\<lparr>readQueue := readQueue tn1 @ [(seqno, ip, port, data)]\<rparr>, None)
              else (tn1\<lparr>packetsDropped := packetsDropped tn1 + 1\<rparr>, Some (ErrTunnel ErrReadFull)))"

definition receive_bound :: "u64 \<Rightarrow> bytes \<Rightarrow> u32 \<Rightarrow> ptr \<Rightarrow> 'a tun_gateway_scheme \<Rightarrow> 'a tun_gateway_scheme" where
  "receive_bound seqno ip port t s =
     (let s1 = (if seqno < seqnoRecv (tuns s ! t) then upd_tun t (\<lambda>tn. tn\<lparr>seqnoRecv := seqno\<rparr>) s else s);
          tn = tuns s1 ! t
      in if IP_Equal (externalAddr tn) ip \<and> externalPort tn = ucast port then s1
         else let s2 = upd_tun t (\<lambda>tn. tn\<lparr>externalAddr := ip, externalPort := ucast port\<rparr>) s1
              in if onOutAddressChanged tn then emit (CallAddressChanged ip port) s2 else s2)"

text \<open>
  The progress of the tunnel state. \<open>prepareInitMessage\<close> has already stored \<open>OptimizingRoutes\<close> when
  the first compare-and-swap runs, and \<open>Optimized\<close> is stored before the second one, so neither
  changes anything.
\<close>

definition advance_state ::
  "host \<Rightarrow> crypto \<Rightarrow> tlcodec \<Rightarrow> env \<Rightarrow> u32 \<Rightarrow> ptr \<Rightarrow> 'a tun_gateway_scheme \<Rightarrow> 'a tun_gateway_scheme \<times> go_error option" where
  "advance_state H C T E st t s =
     (let currentState = tunnelState (tuns s ! t);
          checked = upd_tun t (\<lambda>tn. tn\<lparr>lastFullyCheckedAt := now E\<rparr>)
      in if currentState < StateTypeOptimized
         then (if st = StateTypeConfiguring
               then (case send_init H C T E StateTypeOptimizingRoutes t s of
                       (s1, Some e) \<Rightarrow> (s1, Some e)
                     | (s1, None) \<Rightarrow> (checked s1, None))
               else if st = StateTypeOptimizingRoutes
               then (checked (upd_tun t (\<lambda>tn. tn\<lparr>tunnelState := StateTypeOptimized\<rparr>) s), None)
               else (s, Some (ErrTunnel (ErrTunnelState currentState))))
         else (s, None))"

definition Process_state ::
  "host \<Rightarrow> crypto \<Rightarrow> tlcodec \<Rightarrow> env \<Rightarrow> u32 \<Rightarrow> payload \<Rightarrow> ptr \<Rightarrow> 'a tun_gateway_scheme
   \<Rightarrow> 'a tun_gateway_scheme \<times> go_error option" where
  "Process_state H C T E st data t s =
     (if st = StateTypeDestroyed \<and> wantDestroy (tuns s ! t)
      then (upd_tun t (\<lambda>tn. tn\<lparr>tunClosed := True\<rparr>) s, None)
      else case advance_state H C T E st t s of
        (s1, Some e) \<Rightarrow> (s1, Some e)
      | (s1, None) \<Rightarrow>
          (case data of
             DeliverUDPPayload seqno ip port pl \<Rightarrow>
               (case receive_udp seqno ip port pl (tuns s1 ! t) of (tn, e) \<Rightarrow> (upd_tun t (\<lambda>_. tn) s1, e))
           | OutBindDonePayload seqno ip port \<Rightarrow> (receive_bound seqno ip port t s1, None)
           | _ \<Rightarrow> (s1, Some (ErrTunnel ErrPayloadType))))"

definition Process_ping ::
  "host \<Rightarrow> crypto \<Rightarrow> tlcodec \<Rightarrow> env \<Rightarrow> u64 \<Rightarrow> bool \<Rightarrow> ptr \<Rightarrow> 'a tun_gateway_scheme
   \<Rightarrow> 'a tun_gateway_scheme \<times> go_error option" where
  "Process_ping H C T E seqno withPayments t s =
     (if controlSeqnoReceived (tuns s ! t) < seqno
      then let s1 = upd_tun t (\<lambda>tn. tn\<lparr>controlSeqnoReceived := seqno, lastFullyCheckedAt := now E\<rparr>) s;
               s2 = (if withPayments
                     then upd_tun t (\<lambda>tn. tn\<lparr>paymentsConfirmed := True, controlPaidSeqnoReceived := seqno\<rparr>) s1 else s1)
           in if tunnelState (tuns s2 ! t) = StateTypeConfiguring then send_init H C T E StateTypeConfiguring t s2 else (s2, None)
      else (s, None))"

definition Process :: "host \<Rightarrow> crypto \<Rightarrow> tlcodec \<Rightarrow> env \<Rightarrow> 'a tun_gateway_ext tunnel_proc" where
  "Process H C T E t pl meta s =
     (case meta of
        StateMeta st \<Rightarrow>
          (case decryptRecvPayload C T (payloadKeys (tuns s ! t)) pl of
             (buf, Inl e) \<Rightarrow> (s, buf, Some e)
           | (buf, Inr data) \<Rightarrow> (case Process_state H C T E st data t s of (s', e) \<Rightarrow> (s', buf, e)))
      | PingMeta seqno withPayments \<Rightarrow>
          (case Process_ping H C T E seqno withPayments t s of (s', e) \<Rightarrow> (s', pl, e)))"

section \<open>Reading and writing\<close>

datatype net_addr = UDPAddr bytes int | OtherAddr

definition WriteTo ::
  "crypto \<Rightarrow> tlcodec \<Rightarrow> env \<Rightarrow> ptr \<Rightarrow> bytes \<Rightarrow> net_addr \<Rightarrow> 'a tun_gateway_scheme \<Rightarrow> 'a tun_gateway_scheme \<times> (go_error + nat)" where
  "WriteTo C T E t p addr s =
     (let tn = tuns s ! t
      in if p = [] then (s, Inr 0)
         else if tunnelState tn < StateTypeOptimized then (s, Inl (ErrTunnel ErrNotReady))
         else if wantDestroy tn then (s, Inl (ErrTunnel ErrDestroyed))
         else if usePayments tn \<and> packetsMinPaidOut tn < packetsConsumedOut tn then (s, Inl (ErrTunnel ErrNotPrepaid))
         else let consumed = i64 (packetsConsumedOut tn + 1);
                  s1 = (if usePayments tn
                        then upd_tun t (\<lambda>q. (if i64 (packetsMinPaidOut tn - consumed) < half (packetsToPrepay tn)
                                             then requestControlMessage q else q)\<lparr>packetsConsumedOut := consumed\<rparr>) s
                        else s)
              in case addr of
                OtherAddr \<Rightarrow> (s1, Inl (ErrTunnel ErrAddrType))
              | UDPAddr ip port \<Rightarrow>
                  let seqno = seqnoSend tn + 1; s2 = upd_tun t (\<lambda>q. q\<lparr>seqnoSend := seqno\<rparr>) s1
                  in case tl_payload T (SendOutPayload seqno ip (word_of_int port) p) of
                    None \<Rightarrow> (s2, Inl ErrSerialize)
                  | Some body \<Rightarrow>
                      (case EncryptPayload C (nonce E (outputs s2)) (payloadKeys tn) body of
                         Inl e \<Rightarrow> (s2, Inl e)
                       | Inr payload \<Rightarrow>
                           if chainTo tn = [] then (s2, Inl PanicIndex)
                           else let fwd = seqnoForward tn + 1; s3 = upd_tun t (\<lambda>q. q\<lparr>seqnoForward := fwd\<rparr>) s2
                                in case SendCustomMessage E (tunPeer tn)
                                          (MsgCached \<lparr>cSectionPubKey = SectionPubKey (Keys (hd (chainTo tn))), cSeqno = fwd,
                                                      cPayload = payload\<rparr>) s3 of
                                     (s4, Some e) \<Rightarrow> (s4, Inl e)
                                   | (s4, None) \<Rightarrow> (upd_tun t (\<lambda>q. q\<lparr>packetsSent := packetsSent q + 1\<rparr>) s4, Inr (length p))))"

text \<open>\<open>ReadFrom\<close> blocks on an empty queue (\<open>None\<close>) and copies at most the caller's buffer.\<close>

definition ReadFrom :: "nat \<Rightarrow> ptr \<Rightarrow> 'a tun_gateway_scheme \<Rightarrow> ('a tun_gateway_scheme \<times> bytes \<times> net_addr) option" where
  "ReadFrom n t s =
     (case readQueue (tuns s ! t) of
        [] \<Rightarrow> None
      | (_, ip, port, pl) # q \<Rightarrow>
          Some (upd_tun t (\<lambda>tn. tn\<lparr>readQueue := q\<rparr>) s, take n pl, UDPAddr ip (uint port)))"

text \<open>\<open>ReadFromWithTimeout\<close> returns an error instead of blocking for ever.\<close>

definition ReadFromWithTimeout ::
  "nat \<Rightarrow> ptr \<Rightarrow> 'a tun_gateway_scheme \<Rightarrow> 'a tun_gateway_scheme \<times> (go_error + bytes \<times> net_addr)" where
  "ReadFromWithTimeout n t s =
     (case ReadFrom n t s of None \<Rightarrow> (s, Inl (ErrTunnel ErrCanceled)) | Some (s', pl, addr) \<Rightarrow> (s', Inr (pl, addr)))"

section \<open>Stopping\<close>

definition stop_begin :: "ptr \<Rightarrow> 'a tun_gateway_scheme \<Rightarrow> 'a tun_gateway_scheme" where
  "stop_begin t = upd_tun t (\<lambda>tn. tn\<lparr>wantDestroy := True\<rparr>)"

text \<open>One pass of the loop of \<open>Stop\<close>; the result tells whether a close message was sent.\<close>

definition stop_pass ::
  "host \<Rightarrow> crypto \<Rightarrow> tlcodec \<Rightarrow> env \<Rightarrow> ptr \<Rightarrow> 'a tun_gateway_scheme \<Rightarrow> 'a tun_gateway_scheme \<times> bool" where
  "stop_pass H C T E t s =
     (if StateTypeConfiguring < tunnelState (tuns s ! t)
      then case prepareTunnelCloseMessage H C T (tuns s ! t) of
             (tn, Inl e) \<Rightarrow> (upd_tun t (\<lambda>_. tn) s, False)
           | (tn, Inr msg) \<Rightarrow>
               (case SendCustomMessage E (tunPeer tn) (MsgEncrypted msg) (upd_tun t (\<lambda>_. tn) s) of (s1, e) \<Rightarrow> (s1, e = None))
      else (s, False))"

definition stop_end :: "ptr \<Rightarrow> 'a tun_gateway_scheme \<Rightarrow> 'a tun_gateway_scheme" where
  "stop_end t s = Dereference (tunPeer (tuns s ! t)) (upd_tun t (\<lambda>tn. tn\<lparr>tunClosed := True\<rparr>) s)"

end
