(* ===== verification/Out_Tunnel_Safety.thy ===== *)
theory Out_Tunnel_Safety
  imports Out_Tunnel
begin

unbundle bit_operations_syntax

text \<open>
  What the initiator's tunnel guarantees: it keeps the contract the gateway relies on, its messages
  carry exactly one layer per node with at most five instructions each, a relay that executes them
  has the routes of the tunnel, and packets are written at most as far as they are paid for.
\<close>

section \<open>The contract with the gateway\<close>

definition harmless :: "'a gateway_scheme \<Rightarrow> 'a gateway_scheme \<Rightarrow> bool" where
  "harmless s s' \<longleftrightarrow> (gw_inv s \<longrightarrow> gw_inv s') \<and> sections s' = sections s \<and> inboundSections s' = inboundSections s \<and>
     activePeers s' = activePeers s \<and> peer_ids s' = peer_ids s \<and> refs s' = refs s \<and>
     ActiveInboundSections s' = ActiveInboundSections s \<and> ActiveRoutes s' = ActiveRoutes s"

lemma harmless_refl [simp]: "harmless s s"
  by (simp add: harmless_def)

lemma harmless_trans [trans]: "harmless s t \<Longrightarrow> harmless t u \<Longrightarrow> harmless s u"
  by (simp add: harmless_def)

lemma tun_fields [simp]:
  "peers (upd_tun t f s) = peers s" "activePeers (upd_tun t f s) = activePeers s" "outputs (upd_tun t f s) = outputs s"
  "sections (upd_tun t f s) = sections s" "inboundSections (upd_tun t f s) = inboundSections s"
  "channels (upd_tun t f s) = channels s" "tuns (upd_tun t f s) = hupd t f (tuns s)" "pending (upd_tun t f s) = pending s"
  "tunnels (upd_tun t f s) = tunnels s" "gwKey (upd_tun t f s) = gwKey s" "payService (upd_tun t f s) = payService s"
  "ActiveInboundSections (upd_tun t f s) = ActiveInboundSections s" "ActiveRoutes (upd_tun t f s) = ActiveRoutes s"
  by (simp_all add: upd_tun_def)

lemma gw_inv_upd_tun [simp]: "gw_inv (upd_tun t f s) = gw_inv s"
  by (simp add: gw_inv_def sec_valid_def table_wf_def peer_valid_def peer_ids_def)

lemma harmless_upd_tun [simp]: "harmless s (upd_tun t f s)"
  by (simp add: harmless_def peer_ids_def refs_def fun_eq_iff)

lemma harmless_emit [simp]: "harmless s (emit c s)"
  by (simp add: harmless_def gw_inv_nets peer_ids_def refs_def fun_eq_iff peer_simps)

lemma harmless_Send: "harmless s (fst (SendCustomMessage E p m s))"
  using refs_SendCustomMessage [of E p m s]
  by (auto simp: harmless_def gw_inv_nets peer_simps fun_eq_iff peer_ids_def intro!: nth_equalityI)

lemma harmless_send_init: "harmless s (fst (send_init H C T E state t s))"
  by (simp add: send_init_def harmless_trans [OF harmless_upd_tun harmless_Send] split: prod.split sum.split)

lemma harmless_advance: "harmless s (fst (advance_state H C T E st t s))"
proof -
  obtain s1 e where i: "send_init H C T E StateTypeOptimizingRoutes t s = (s1, e)" by fastforce
  then have h: "harmless s s1" using harmless_send_init [of s H C T E StateTypeOptimizingRoutes t] by simp
  then have "harmless s (upd_tun t f s1)" for f by (rule harmless_trans) simp
  moreover have "harmless s (upd_tun t f (upd_tun t g s))" for f g by (rule harmless_trans [OF harmless_upd_tun harmless_upd_tun])
  ultimately show ?thesis using h by (simp add: advance_state_def Let_def i split: option.split)
qed

lemma harmless_bound: "harmless s (receive_bound seqno ip port t s)"
proof -
  have e: "harmless s' (if b then emit c (upd_tun t f s') else upd_tun t f s')" for b c f and s' :: "'a tun_gateway_scheme"
    by (simp add: harmless_trans [OF harmless_upd_tun harmless_emit])
  let ?s1 = "if seqno < seqnoRecv (tuns s ! t) then upd_tun t (\<lambda>tn. tn\<lparr>seqnoRecv := seqno\<rparr>) s else s"
  have h: "harmless s ?s1" by simp
  from harmless_trans [OF h e] h show ?thesis unfolding receive_bound_def Let_def by auto
qed

lemma harmless_Process_state: "harmless s (fst (Process_state H C T E st data t s))"
proof -
  obtain s1 e where a: "advance_state H C T E st t s = (s1, e)" by fastforce
  then have h: "harmless s s1" using harmless_advance [of s H C T E st t] by simp
  note u = harmless_trans [OF h harmless_upd_tun] and b = harmless_trans [OF h harmless_bound]
  show ?thesis using h u b by (simp add: Process_state_def a split: option.split payload.split prod.split)
qed

lemma harmless_Process_ping: "harmless s (fst (Process_ping H C T E seqno wp t s))"
proof -
  have "harmless s (upd_tun t f (upd_tun t g s))" for f g by (rule harmless_trans [OF harmless_upd_tun harmless_upd_tun])
  then show ?thesis
    by (simp add: Process_ping_def Let_def harmless_trans [OF _ harmless_send_init])
qed

lemma harmless_Process: "harmless s (fst (Process H C T E t pl meta s))"
  using harmless_Process_state [of s H C T E] harmless_Process_ping [of s H C T E]
  by (simp add: Process_def split: metadata.split prod.split sum.split) (metis fst_conv)

text \<open>
  The initiator's tunnel fulfils the contract the gateway assumes of a registered tunnel:
  whatever payload and metadata reach it, \<open>Process\<close> keeps the gateway's invariant, its sections, its
  peer table and every reference counter.
\<close>

lemma Process_contract: "tunnel_ok (Process H C T E)"
  by (simp add: tunnel_ok_def Let_def harmless_Process [unfolded harmless_def])

section \<open>Layers\<close>

text \<open>
  The contract between the loop over a chain and its body: a body that succeeds has encrypted one
  list of instructions for the node, of a kind \<open>sends\<close> describes. The nodes then peel exactly these
  lists, in order.
\<close>

locale layering =
  fixes C :: crypto and T :: tlcodec
    and body :: "nat \<Rightarrow> section_info \<Rightarrow> section_info list \<Rightarrow> encrypted_message \<Rightarrow> section_info \<times> (go_error + encrypted_message)"
    and sends :: "section_info \<Rightarrow> section_info list \<Rightarrow> instruction list \<Rightarrow> bool"
  assumes layer: "body i nd nds msg = (nd', Inr m) \<Longrightarrow>
    \<exists>rnd ins. snd (EncryptInstructionsMessage C T rnd (Keys nd) msg ins) = Inr m \<and> sends nd nds ins"
    and short: "sends nd nds ins \<Longrightarrow> length ins \<le> 5 \<and> list_all short_lists ins"
begin

lemma peels:
  assumes "tl_laws T" "layers_loop body i nds = (nds', Inr msg)"
  shows "\<exists>cs. peel_layers C T (map Keys nds) (msgInstructions msg) = Inr (cs, []) \<and> length cs = length nds \<and>
     (\<forall>j < length nds. sends (nds ! j) (drop (Suc j) nds) (List (cs ! j)) \<and> Seqno (cs ! j) = keySeqno (Keys (nds ! j)) + 1)"
    and "nds \<noteq> [] \<Longrightarrow> msgSectionPubKey msg = SectionPubKey (Keys (hd nds))" and "msgPayload msg = []"
proof -
  have "(\<exists>cs. peel_layers C T (map Keys nds) (msgInstructions msg) = Inr (cs, []) \<and> length cs = length nds \<and>
     (\<forall>j < length nds. sends (nds ! j) (drop (Suc j) nds) (List (cs ! j)) \<and> Seqno (cs ! j) = keySeqno (Keys (nds ! j)) + 1)) \<and>
     (nds \<noteq> [] \<longrightarrow> msgSectionPubKey msg = SectionPubKey (Keys (hd nds))) \<and> msgPayload msg = []"
    using assms(2)
  proof (induction nds arbitrary: i nds' msg)
    case Nil
    then show ?case by (auto simp: empty_message_def)
  next
    case (Cons nd nds)
    then obtain nds1 m1 nd' where l: "layers_loop body (Suc i) nds = (nds1, Inr m1)" and b: "body i nd nds m1 = (nd', Inr msg)"
      by (auto split: prod.splits sum.splits)
    from Cons.IH [OF l] obtain cs where cs: "peel_layers C T (map Keys nds) (msgInstructions m1) = Inr (cs, [])"
        "length cs = length nds" "\<forall>j < length nds. sends (nds ! j) (drop (Suc j) nds) (List (cs ! j)) \<and>
           Seqno (cs ! j) = keySeqno (Keys (nds ! j)) + 1" and p: "msgPayload m1 = []" by blast
    from layer [OF b] obtain rnd ins where e: "snd (EncryptInstructionsMessage C T rnd (Keys nd) m1 ins) = Inr msg" "sends nd nds ins"
      by blast
    from short [OF e(2)] have k: "length ins < 2 ^ 32" "list_all short_lists ins" by simp_all
    note d = decrypt_layer [OF assms(1) e(1) k]
    let ?c = "\<lparr>Seqno = keySeqno (Keys nd) + 1, List = ins\<rparr>"
    have "peel_layers C T (map Keys (nd # nds)) (msgInstructions msg) = Inr (?c # cs, [])" using d(1) cs(1) by simp
    moreover have "sends ((nd # nds) ! j) (drop (Suc j) (nd # nds)) (List ((?c # cs) ! j)) \<and>
        Seqno ((?c # cs) ! j) = keySeqno (Keys ((nd # nds) ! j)) + 1" if "j < length (nd # nds)" for j
      using that cs(3) e(2) by (cases j) auto
    ultimately show ?case using d(2,3) p cs(2) by (intro conjI exI [of _ "?c # cs"]) auto
  qed
  then show "\<exists>cs. peel_layers C T (map Keys nds) (msgInstructions msg) = Inr (cs, []) \<and> length cs = length nds \<and>
     (\<forall>j < length nds. sends (nds ! j) (drop (Suc j) nds) (List (cs ! j)) \<and> Seqno (cs ! j) = keySeqno (Keys (nds ! j)) + 1)"
    "nds \<noteq> [] \<Longrightarrow> msgSectionPubKey msg = SectionPubKey (Keys (hd nds))" "msgPayload msg = []" by blast+
qed

end

lemma encrypt_with_ok:
  assumes "encrypt_with C T rnd cur msg ins = (nd', Inr m)"
  shows "snd (EncryptInstructionsMessage C T rnd (Keys cur) msg ins) = Inr m"
  using assms by (simp add: encrypt_with_def split: prod.splits)

text \<open>What a relay is told when a route to the next node is built.\<close>

definition routes_to :: "host \<Rightarrow> bool \<Rightarrow> section_info \<Rightarrow> section_info \<Rightarrow> instruction list \<Rightarrow> bool" where
  "routes_to H initial cur nxt ins \<longleftrightarrow> (\<exists>adnl rid. adnl_id H (ReceiverPubKey (Keys nxt)) = Some adnl \<and>
     Uint32 (SectionPubKey (Keys nxt)) = Inr rid \<and>
     ins = route_instructions H initial adnl (SectionPubKey (Keys nxt)) rid (price_of cur) True)"

lemma routes_to_short: "routes_to H initial cur nxt ins \<Longrightarrow> length ins \<le> 5 \<and> list_all short_lists ins"
  by (auto simp: routes_to_def route_instructions_def)

lemma buildRoute_ok:
  assumes "buildRoute H C T rnd initial msg cur nxt True = (nd', Inr m)"
  shows "\<exists>ins. snd (EncryptInstructionsMessage C T rnd (Keys cur) msg ins) = Inr m \<and> routes_to H initial cur nxt ins"
  using assms by (auto simp: buildRoute_def routes_to_def split: option.splits sum.splits dest: encrypt_with_ok)

definition back_sends :: "host \<Rightarrow> u32 \<Rightarrow> u32 \<Rightarrow> section_info \<Rightarrow> section_info list \<Rightarrow> instruction list \<Rightarrow> bool" where
  "back_sends H lid state cur nds ins =
     (case nds of
        [] \<Rightarrow> ins = [DeliverInitiatorInstruction lid (StateMeta state),
                     CacheInstruction (unix_nano H) [DeliverInitiatorInstruction lid (StateMeta state)]]
      | nxt # _ \<Rightarrow> routes_to H (state = StateTypeConfiguring) cur nxt ins)"

interpretation backward: layering C T "back_layer H C T lid state" "back_sends H lid state" for H C T lid state
proof
  fix i nd nds msg nd' m ins
  show "back_layer H C T lid state i nd nds msg = (nd', Inr m) \<Longrightarrow>
      \<exists>rnd ins. snd (EncryptInstructionsMessage C T rnd (Keys nd) msg ins) = Inr m \<and> back_sends H lid state nd nds ins"
    by (cases nds) (auto simp: back_layer_def back_sends_def Let_def dest!: encrypt_with_ok buildRoute_ok)
  show "back_sends H lid state nd nds ins \<Longrightarrow> length ins \<le> 5 \<and> list_all short_lists ins"
    by (cases nds) (auto simp: back_sends_def routes_to_short)
qed

definition forward_sends :: "host \<Rightarrow> u32 \<Rightarrow> (section_info \<Rightarrow> instruction list) \<Rightarrow> section_info \<Rightarrow> section_info list \<Rightarrow> instruction list \<Rightarrow> bool" where
  "forward_sends H state gate cur nds ins =
     (case nds of
        [] \<Rightarrow> ins = gate cur \<and> length (gate cur) \<le> 5 \<and> list_all short_lists (gate cur)
      | nxt # _ \<Rightarrow> routes_to H (state = StateTypeConfiguring) cur nxt ins)"

lemma forward_layer_sends:
  assumes "forward_layer H C T state gate i nd nds msg = (nd', Inr m)" "length (gate nd) \<le> 5" "list_all short_lists (gate nd)"
  shows "\<exists>rnd ins. snd (EncryptInstructionsMessage C T rnd (Keys nd) msg ins) = Inr m \<and> forward_sends H state gate nd nds ins"
  using assms by (cases nds) (auto simp: forward_layer_def forward_sends_def dest!: encrypt_with_ok buildRoute_ok)

text \<open>The instructions for the gate are given by four values that do not depend on the node.\<close>

interpretation forward: layering C T "forward_layer H C T state (\<lambda>g. gate_instructions H state adnl bk bid bi rc (price_of g))"
    "forward_sends H state (\<lambda>g. gate_instructions H state adnl bk bid bi rc (price_of g))" for H C T state adnl bk bid bi rc
proof
  fix i nd nds msg nd' m ins
  let ?g = "\<lambda>g. gate_instructions H state adnl bk bid bi rc (price_of g)"
  show "forward_layer H C T state ?g i nd nds msg = (nd', Inr m) \<Longrightarrow>
      \<exists>rnd ins. snd (EncryptInstructionsMessage C T rnd (Keys nd) msg ins) = Inr m \<and> forward_sends H state ?g nd nds ins"
    by (rule forward_layer_sends) (simp_all add: gate_instructions_def)
  show "forward_sends H state ?g nd nds ins \<Longrightarrow> length ins \<le> 5 \<and> list_all short_lists ins"
    by (cases nds) (auto simp: forward_sends_def routes_to_short)
qed

definition close_sends :: "u32 \<Rightarrow> section_info \<Rightarrow> section_info list \<Rightarrow> instruction list \<Rightarrow> bool" where
  "close_sends lid cur nds ins =
     (case nds of
        [] \<Rightarrow> ins = [DeliverInitiatorInstruction lid (StateMeta StateTypeDestroyed)]
      | nxt # _ \<Rightarrow> \<exists>rid. Uint32 (SectionPubKey (Keys nxt)) = Inr rid \<and> ins = [RouteInstruction (NOT rid), DestroyInstruction])"

interpretation close: layering C T "close_layer H C T lid" "close_sends lid" for H C T lid
proof
  fix i nd nds msg nd' m ins
  show "close_layer H C T lid i nd nds msg = (nd', Inr m) \<Longrightarrow>
      \<exists>rnd ins. snd (EncryptInstructionsMessage C T rnd (Keys nd) msg ins) = Inr m \<and> close_sends lid nd nds ins"
    by (cases nds) (auto simp: close_layer_def close_sends_def split: sum.splits dest!: encrypt_with_ok)
  show "close_sends lid nd nds ins \<Longrightarrow> length ins \<le> 5 \<and> list_all short_lists ins"
    by (cases nds) (auto simp: close_sends_def)
qed

section \<open>The init message\<close>

lemma last_layer: "xs \<noteq> [] \<Longrightarrow> drop (Suc (length xs - 1)) xs = []" "j < length xs \<Longrightarrow> Suc j < length xs \<Longrightarrow>
    drop (Suc j) xs = xs ! Suc j # drop (Suc (Suc j)) xs"
  by (simp_all add: Cons_nth_drop_Suc)

lemma init_back:
  assumes "tl_laws T" "layers_loop (back_layer H C T lid StateTypeConfiguring) 0 nds = (nds', Inr msg)" "nds \<noteq> []"
  shows "\<exists>cs. peel_layers C T (map Keys nds) (msgInstructions msg) = Inr (cs, []) \<and> length cs = length nds \<and>
     (\<forall>j. Suc j < length nds \<longrightarrow> routes_to H True (nds ! j) (nds ! Suc j) (List (cs ! j))) \<and>
     List (last cs) = [DeliverInitiatorInstruction lid (StateMeta StateTypeConfiguring),
       CacheInstruction (unix_nano H) [DeliverInitiatorInstruction lid (StateMeta StateTypeConfiguring)]]"
proof -
  from backward.peels(1) [OF assms(1,2)] obtain cs where cs: "peel_layers C T (map Keys nds) (msgInstructions msg) = Inr (cs, [])"
      "length cs = length nds" and s: "\<And>j. j < length nds \<Longrightarrow> back_sends H lid StateTypeConfiguring (nds ! j) (drop (Suc j) nds) (List (cs ! j))"
    by blast
  have "routes_to H True (nds ! j) (nds ! Suc j) (List (cs ! j))" if "Suc j < length nds" for j
    using s [of j] that last_layer(2) [of j nds] by (simp add: back_sends_def)
  moreover have "last cs = cs ! (length nds - 1)" using cs(2) assms(3) by (metis last_conv_nth length_0_conv)
  moreover have "drop (Suc (length nds - 1)) nds = []" by (rule last_layer(1) [OF assms(3)])
  ultimately show ?thesis using cs s [of "length nds - 1"] assms(3) by (auto simp: back_sends_def)
qed

lemma init_forward:
  assumes "tl_laws T" "nds \<noteq> []"
    and "layers_loop (forward_layer H C T StateTypeConfiguring (\<lambda>g. gate_instructions H StateTypeConfiguring adnl bk bid bi rc (price_of g))) 0 nds
         = (nds', Inr msg)"
  shows "\<exists>cs. peel_layers C T (map Keys nds) (msgInstructions msg) = Inr (cs, []) \<and> length cs = length nds \<and>
     (\<forall>j. Suc j < length nds \<longrightarrow> routes_to H True (nds ! j) (nds ! Suc j) (List (cs ! j))) \<and>
     List (last cs) = gate_instructions H StateTypeConfiguring adnl bk bid bi rc (price_of (last nds))"
proof -
  let ?g = "\<lambda>g. gate_instructions H StateTypeConfiguring adnl bk bid bi rc (price_of g)"
  from forward.peels(1) [OF assms(1,3)] obtain cs where cs: "peel_layers C T (map Keys nds) (msgInstructions msg) = Inr (cs, [])"
      "length cs = length nds" and s: "\<And>j. j < length nds \<Longrightarrow> forward_sends H StateTypeConfiguring ?g (nds ! j) (drop (Suc j) nds) (List (cs ! j))"
    by blast
  have "routes_to H True (nds ! j) (nds ! Suc j) (List (cs ! j))" if "Suc j < length nds" for j
    using s [of j] that last_layer(2) [of j nds] by (simp add: forward_sends_def)
  moreover have "last cs = cs ! (length nds - 1)" "last nds = nds ! (length nds - 1)"
    using cs(2) assms(2) by (metis last_conv_nth length_0_conv)+
  moreover have "drop (Suc (length nds - 1)) nds = []" by (rule last_layer(1) [OF assms(2)])
  ultimately show ?thesis using cs s [of "length nds - 1"] assms(2) by (auto simp: forward_sends_def)
qed

lemma at_most_five:
  fixes xs :: "container list"
  assumes "length xs = length ns" "ns \<noteq> []" "length (List (last xs)) \<le> 5"
    and "\<And>j. Suc j < length ns \<Longrightarrow> routes_to H True (ns ! j) (ns ! Suc j) (List (xs ! j))"
  shows "\<forall>c \<in> set xs. length (List c) \<le> 5"
proof
  fix c
  assume "c \<in> set xs"
  then obtain j where j: "j < length xs" "c = xs ! j" by (metis in_set_conv_nth)
  show "length (List c) \<le> 5"
  proof (cases "Suc j < length ns")
    case True
    then show ?thesis using routes_to_short [OF assms(4)] j(2) by blast
  next
    case False
    then have "xs ! j = last xs" using j(1) assms(1) by (metis Suc_lessI diff_Suc_1 last_conv_nth length_0_conv less_zeroE)
    with assms(3) j(2) show ?thesis by simp
  qed
qed

text \<open>
  C17. The configuring message of the initiator opens layer by layer: every relay of the outbound
  chain reads exactly the instructions that build its two routes to the next node (the second one
  for control messages) and cache the forwarding, the gate reads the instructions that bind it, and
  the return message it is given opens the same way along the inbound chain and ends with the
  delivery to the initiator's own tunnel. No node gets more than five instructions, the limit of
  the relay's handler.
\<close>

theorem init_message_layers:
  assumes "tl_laws T" "prepareInitMessage H C T StateTypeConfiguring tn = (tn', Inr msg)" "chainTo tn \<noteq> []"
  shows "\<exists>cs bcs adnl bid ret.
    msgSectionPubKey msg = SectionPubKey (Keys (hd (chainTo tn))) \<and> tunnelState tn' = StateTypeConfiguring \<and>
    peel_layers C T (map Keys (chainTo tn)) (msgInstructions msg) = Inr (cs, []) \<and> length cs = length (chainTo tn) \<and>
    (\<forall>j. Suc j < length (chainTo tn) \<longrightarrow> routes_to H True (chainTo tn ! j) (chainTo tn ! Suc j) (List (cs ! j))) \<and>
    adnl_id H (ReceiverPubKey (Keys (hd (chainFrom tn)))) = Some adnl \<and>
    Uint32 (SectionPubKey (Keys (hd (chainFrom tn)))) = Inr bid \<and>
    List (last cs) = gate_instructions H StateTypeConfiguring adnl (SectionPubKey (Keys (hd (chainFrom tn)))) bid ret
                       (SectionPubKey (payloadKeys tn)) (price_of (last (chainTo tn))) \<and>
    peel_layers C T (map Keys (chainFrom tn)) ret = Inr (bcs, []) \<and> length bcs = length (chainFrom tn) \<and>
    (\<forall>j. Suc j < length (chainFrom tn) \<longrightarrow> routes_to H True (chainFrom tn ! j) (chainFrom tn ! Suc j) (List (bcs ! j))) \<and>
    List (last bcs) = [DeliverInitiatorInstruction (localID tn) (StateMeta StateTypeConfiguring),
       CacheInstruction (unix_nano H) [DeliverInitiatorInstruction (localID tn) (StateMeta StateTypeConfiguring)]] \<and>
    (\<forall>c \<in> set cs. length (List c) \<le> 5) \<and> (\<forall>c \<in> set bcs. length (List c) \<le> 5)"
proof -
  let ?st = StateTypeConfiguring
  have nst: "\<not> StateTypeOptimizingRoutes < ?st" by (simp add: StateTypeOptimizingRoutes_def StateTypeConfiguring_def)
  obtain cf bm where b: "layers_loop (back_layer H C T (localID tn) ?st) 0 (chainFrom tn) = (cf, Inr bm)" and cf: "chainFrom tn \<noteq> []"
    using assms(2,3) nst by (auto simp: prepareInitMessage_def Let_def split: prod.splits sum.splits if_splits)
  have key: "msgSectionPubKey bm = SectionPubKey (Keys (hd (chainFrom tn)))"
    using backward.peels(2) [OF assms(1) b cf] .
  obtain adnl bid where ai: "adnl_id H (ReceiverPubKey (Keys (hd (chainFrom tn)))) = Some adnl" "Uint32 (msgSectionPubKey bm) = Inr bid"
    using assms(2,3) nst b cf by (auto simp: prepareInitMessage_def Let_def split: option.splits sum.splits)
  let ?g = "\<lambda>g. gate_instructions H ?st adnl (msgSectionPubKey bm) bid (msgInstructions bm) (SectionPubKey (payloadKeys tn)) (price_of g)"
  obtain ct where f: "layers_loop (forward_layer H C T ?st ?g) 0 (chainTo tn) = (ct, Inr msg)" and tn': "tunnelState tn' = ?st"
    using assms(2,3) nst b cf ai by (auto simp: prepareInitMessage_def Let_def forward_loop_def split: prod.splits sum.splits)
  from init_forward [OF assms(1,3) f] obtain cs where cs: "peel_layers C T (map Keys (chainTo tn)) (msgInstructions msg) = Inr (cs, [])"
      "length cs = length (chainTo tn)" "\<And>j. Suc j < length (chainTo tn) \<Longrightarrow> routes_to H True (chainTo tn ! j) (chainTo tn ! Suc j) (List (cs ! j))"
      "List (last cs) = ?g (last (chainTo tn))" by blast
  from init_back [OF assms(1) b cf] obtain bcs where bcs: "peel_layers C T (map Keys (chainFrom tn)) (msgInstructions bm) = Inr (bcs, [])"
      "length bcs = length (chainFrom tn)" "\<And>j. Suc j < length (chainFrom tn) \<Longrightarrow> routes_to H True (chainFrom tn ! j) (chainFrom tn ! Suc j) (List (bcs ! j))"
      "List (last bcs) = [DeliverInitiatorInstruction (localID tn) (StateMeta ?st), CacheInstruction (unix_nano H) [DeliverInitiatorInstruction (localID tn) (StateMeta ?st)]]"
    by blast
  have "\<forall>c \<in> set cs. length (List c) \<le> 5" by (rule at_most_five [OF cs(2) assms(3) _ cs(3)]) (simp_all add: cs(4) gate_instructions_def)
  moreover have "\<forall>c \<in> set bcs. length (List c) \<le> 5" by (rule at_most_five [OF bcs(2) cf _ bcs(3)]) (simp_all add: bcs(4))
  ultimately show ?thesis
    using forward.peels(2) [OF assms(1) f assms(3)] tn' cs bcs ai key by auto
qed

text \<open>A TL library for every instruction: byte strings are written with a mark before each byte.\<close>

primrec enc_bytes :: "bytes \<Rightarrow> bytes" where
  "enc_bytes [] = [0]"
| "enc_bytes (b # bs) = 1 # b # enc_bytes bs"

fun dec_bytes :: "bytes \<Rightarrow> (bytes \<times> bytes) option" where
  "dec_bytes (m # rest) = (if m = 0 then Some ([], rest)
     else case rest of [] \<Rightarrow> None
       | b # rest' \<Rightarrow> (case dec_bytes rest' of None \<Rightarrow> None | Some (bs, r) \<Rightarrow> Some (b # bs, r)))"
| "dec_bytes [] = None"

lemma dec_enc_bytes [simp]: "dec_bytes (enc_bytes bs @ rest) = Some (bs, rest)"
  by (induction bs) simp_all

definition dec_u32 :: "bytes \<Rightarrow> (u32 \<times> bytes) option" where
  "dec_u32 bs = (if length bs < 4 then None else Some (get_le (take 4 bs), drop 4 bs))"

definition dec_u64 :: "bytes \<Rightarrow> (u64 \<times> bytes) option" where
  "dec_u64 bs = (if length bs < 8 then None else Some (get_le (take 8 bs), drop 8 bs))"

lemma dec_words [simp]: "dec_u32 (put_u32 w @ rest) = Some (w, rest)" "dec_u64 (put_u64 v @ rest) = Some (v, rest)"
  by (simp_all add: dec_u32_def dec_u64_def)

fun full_body :: "instruction \<Rightarrow> bytes option" where
  "full_body (RouteInstruction r) = Some (put_u32 r)"
| "full_body (BuildRouteInstruction a k r p) = Some (enc_bytes a @ enc_bytes k @ put_u32 r @ put_u64 p)"
| "full_body (PaymentInstruction k st pu fi) = Some (enc_bytes k @ enc_bytes st @ put_u64 pu @ [if fi then 1 else 0])"
| "full_body (BindOutInstruction a k i rc p) = Some (enc_bytes a @ enc_bytes k @ enc_bytes i @ enc_bytes rc @ put_u64 p)"
| "full_body (DeliverInitiatorInstruction f (StateMeta st)) = Some (put_u32 f @ 0 # put_u32 st)"
| "full_body (DeliverInitiatorInstruction f (PingMeta n wp)) = Some (put_u32 f @ 1 # put_u64 n @ [if wp then 1 else 0])"
| "full_body (ReportStatsInstruction _ _ _ _ _) = None"
| "full_body (CacheInstruction _ _) = None"
| "full_body _ = Some []"

definition full_parse :: "instr_type \<Rightarrow> bytes \<Rightarrow> (instruction \<times> bytes) option" where
  "full_parse t bs = (case t of
       TDestroy \<Rightarrow> Some (DestroyInstruction, bs) | TSendOut \<Rightarrow> Some (SendOutInstruction, bs)
     | TDeliver \<Rightarrow> Some (DeliverInstruction, bs)
     | TRoute \<Rightarrow> map_option (\<lambda>(r, rest). (RouteInstruction r, rest)) (dec_u32 bs)
     | TBuildRoute \<Rightarrow> Option.bind (dec_bytes bs) (\<lambda>(a, r1). Option.bind (dec_bytes r1) (\<lambda>(k, r2). Option.bind (dec_u32 r2) (\<lambda>(r, r3).
         map_option (\<lambda>(p, rest). (BuildRouteInstruction a k r p, rest)) (dec_u64 r3))))
     | TPayment \<Rightarrow> Option.bind (dec_bytes bs) (\<lambda>(k, r1). Option.bind (dec_bytes r1) (\<lambda>(st, r2). Option.bind (dec_u64 r2) (\<lambda>(pu, r3).
         case r3 of [] \<Rightarrow> None | f # rest \<Rightarrow> Some (PaymentInstruction k st pu (f = 1), rest))))
     | TBindOut \<Rightarrow> Option.bind (dec_bytes bs) (\<lambda>(a, r1). Option.bind (dec_bytes r1) (\<lambda>(k, r2). Option.bind (dec_bytes r2) (\<lambda>(i, r3).
         Option.bind (dec_bytes r3) (\<lambda>(rc, r4). map_option (\<lambda>(p, rest). (BindOutInstruction a k i rc p, rest)) (dec_u64 r4)))))
     | TDeliverInitiator \<Rightarrow> Option.bind (dec_u32 bs) (\<lambda>(f, r1). case r1 of [] \<Rightarrow> None
         | m # r2 \<Rightarrow> if m = 0 then map_option (\<lambda>(st, rest). (DeliverInitiatorInstruction f (StateMeta st), rest)) (dec_u32 r2)
             else Option.bind (dec_u64 r2) (\<lambda>(n, r3). case r3 of [] \<Rightarrow> None
               | w # rest \<Rightarrow> Some (DeliverInitiatorInstruction f (PingMeta n (w = 1)), rest)))
     | _ \<Rightarrow> None)"

definition full_tl :: tlcodec where
  "full_tl = demo_tl\<lparr>tl_body := full_body, tl_parse_body := full_parse\<rparr>"

lemma full_tl_laws: "tl_laws full_tl"
proof -
  have "full_parse (type_of ins) (bs @ rest) = Some (ins, rest)" if "full_body ins = Some bs" for ins bs rest
    using that by (cases ins rule: full_body.cases) (auto simp: full_parse_def)
  with demo_tl_laws show ?thesis by (simp add: tl_laws_def full_tl_def demo_tl_def)
qed

definition demo_info :: "byte \<Rightarrow> section_info" where
  "demo_info b = \<lparr>Keys = \<lparr>CipherKey = [b], CipherKeyCRC = 77, keySeqno = 4, SectionPubKey = [b, b, 1, 1], ReceiverPubKey = [b]\<rparr>,
     PaymentInfo = None\<rparr>"

definition demo_host :: host where
  "demo_host = \<lparr>adnl_id = (\<lambda>k. Some k), unix_nano = 500, layer_nonce = (\<lambda>_ i. Some (of_nat i))\<rparr>"

definition demo_tun :: out_tunnel where
  "demo_tun = new_tunnel demo_env 33 0 [demo_info 1, demo_info 2] [demo_info 9] (demo_key 7)"

lemma demo_init: "\<exists>tn' msg. prepareInitMessage demo_host demo_crypto full_tl StateTypeConfiguring demo_tun = (tn', Inr msg)"
  by (simp add: prepareInitMessage_def demo_tun_def new_tunnel_def forward_loop_def back_layer_def forward_layer_def
      buildRoute_def encrypt_with_def EncryptInstructionsMessage_def InstructionsContainer_Serialize_def encryptStream_def
      route_instructions_def gate_instructions_def demo_info_def demo_host_def demo_crypto_def full_tl_def demo_tl_def
      Uint32_def Let_def StateTypeConfiguring_def StateTypeOptimizingRoutes_def empty_message_def)

theorem init_message_layers_witness:
  "\<exists>tn' msg cs. prepareInitMessage demo_host demo_crypto full_tl StateTypeConfiguring demo_tun = (tn', Inr msg) \<and>
     peel_layers demo_crypto full_tl (map Keys (chainTo demo_tun)) (msgInstructions msg) = Inr (cs, []) \<and> length cs = 2"
proof -
  obtain tn' msg where m: "prepareInitMessage demo_host demo_crypto full_tl StateTypeConfiguring demo_tun = (tn', Inr msg)"
    using demo_init by blast
  have "chainTo demo_tun \<noteq> []" "length (chainTo demo_tun) = 2" by (simp_all add: demo_tun_def new_tunnel_def)
  with init_message_layers [OF full_tl_laws m] m show ?thesis by fastforce
qed

lemma Process_empty: "Process H C T E t [] (StateMeta st) s = (s, [], Some (ErrCorruptedData 0))"
  by (simp add: Process_def decryptRecvPayload_def decryptStream_def)

text \<open>
  A tunnel is never closed by the answer to its own close message: that message carries no
  payload, and the initiator decrypts the payload before it looks at the state, so the notice that
  the last node delivers is refused with an error and leaves the tunnel as it was. \<open>Stop\<close> therefore
  always runs until its deadline.
\<close>

lemma close_notice_refused:
  assumes "tl_laws T" "prepareTunnelCloseMessage H C T tn = (tn', Inr msg)"
  shows "Process H' C T E t (msgPayload msg) (StateMeta StateTypeDestroyed) s = (s, [], Some (ErrCorruptedData 0))"
proof -
  obtain nds where "layers_loop (close_layer H C T (localID tn)) 0 (chainTo tn @ chainFrom tn) = (nds, Inr msg)"
    using assms(2) by (auto simp: prepareTunnelCloseMessage_def split: prod.splits)
  from close.peels(3) [OF assms(1) this] show ?thesis by (simp add: Process_empty)
qed

lemma demo_close: "\<exists>tn' msg. prepareTunnelCloseMessage demo_host demo_crypto full_tl demo_tun = (tn', Inr msg)"
  by (simp add: prepareTunnelCloseMessage_def demo_tun_def new_tunnel_def close_layer_def encrypt_with_def
      EncryptInstructionsMessage_def InstructionsContainer_Serialize_def encryptStream_def demo_info_def demo_host_def
      demo_crypto_def full_tl_def demo_tl_def Uint32_def Let_def)

lemma close_notice_refused_witness:
  "\<exists>tn' msg. prepareTunnelCloseMessage demo_host demo_crypto full_tl demo_tun = (tn', Inr msg) \<and>
     (\<forall>s :: tun_gateway. Process demo_host demo_crypto full_tl demo_env 0 (msgPayload msg) (StateMeta StateTypeDestroyed) s
        = (s, [], Some (ErrCorruptedData 0)))"
proof -
  obtain tn' msg where m: "prepareTunnelCloseMessage demo_host demo_crypto full_tl demo_tun = (tn', Inr msg)"
    using demo_close by blast
  with close_notice_refused [OF full_tl_laws m] show ?thesis by blast
qed

section \<open>A relay under the init message\<close>

lemma run_step:
  assumes "run_until_err step (x # xs) s = (s', None)"
  obtains s1 where "step x s = (s1, None)" "run_until_err step xs s1 = (s', None)"
  using assms by (auto split: prod.splits option.splits)

lemma on_gateway_None:
  assumes "on_gateway f (s, pl) = (st', None)"
  obtains s' where "f s = (s', None)" "st' = (s', pl)"
  using assms by (auto simp: on_gateway_def split: prod.splits)

lemma Cache_installs:
  assumes "sec_valid s sp" "Cache_Execute sp ver [RouteInstruction rid] s = (s', None)" "cachedActionsVer (sec s sp) < ver"
  shows "cachedActions (sec s' sp) = [RouteCachedAction rid]" "routes (sec s' sp) = routes (sec s sp)" "sec_valid s' sp"
  using assms by (auto simp: Cache_Execute_def sec_valid_def split: sum.splits if_splits option.splits)

lemma BuildRoute_cache:
  assumes "BuildRoute_Execute E sp adnl key rid price s = (s', None)"
  shows "cachedActions (sec s' q) = cachedActions (sec s q)" "cachedActionsVer (sec s' q) = cachedActionsVer (sec s q)"
proof -
  obtain p s1 where a: "addPeer E adnl None s = (p, s1)" by fastforce
  have r: "cachedActions (sec (retarget sp rid r target s1) q) = cachedActions (sec s1 q)"
      "cachedActionsVer (sec (retarget sp rid r target s1) q) = cachedActionsVer (sec s1 q)" for r target
    by (simp_all add: retarget_def Let_def move_gauge_def upd_route_def split: option.split)
  show "cachedActions (sec s' q) = cachedActions (sec s q)" "cachedActionsVer (sec s' q) = cachedActionsVer (sec s q)"
    using assms sections_addPeer [OF a] r
    by (auto simp: BuildRoute_Execute_def a Let_def split: if_splits option.splits)
qed

lemma Route_sends:
  assumes "gw_inv s" "sec_valid s sp" "map_of (routes (sec s sp)) rid = Some r"
    and "Route_Route E sp rid pl False rest 0 s = (s', None)"
  shows "\<exists>h. last (outputs s') = CallSend h (route_message (rTarget r) pl False rest 0)"
    "map_option rTarget (map_of (routes (sec s' sp)) k) = map_option rTarget (map_of (routes (sec s sp)) k)"
    "cachedActions (sec s' sp) = cachedActions (sec s sp)"
  using assms(4) Route_Route_eq [OF assms(1-3), of E pl False rest 0] assms(2,3)
  by (auto simp: SendCustomMessage_def Let_def peer_simps map_of_upd_route sec_valid_def upd_route_def
      split: if_splits option.splits)

lemma BuildRoute_keeps:
  assumes "gw_inv s" "sec_valid s sp" "BuildRoute_Execute E sp adnl key rid price s = (s', None)"
  shows "gw_inv s'" "sec_valid s' sp"
  using gw_inv_BuildRoute [OF assms(1), of E sp adnl key rid price] len_BuildRoute [of E sp adnl key rid price s] assms(2,3)
  by (simp_all add: sec_valid_def)


lemma demo_joins:
  "\<exists>s' pl'. run_until_err (Execute demo_crypto full_tl demo_env no_tunnel 0 [5, 5]) (route_instructions demo_host True [1] [42] 3 0 True)
     (demo_gw, [8]) = ((s', pl'), None)"
proof -
  let ?t = "\<lparr>tgtPeer = 0, tgtADNL = [1], tgtSectionKey = [42], tgtPrice = 0\<rparr>"
  let ?add = "\<lambda>k u. gauge_routes False 1 (upd_sec 0 (\<lambda>sc. sc\<lparr>routes := mput k (new_route k ?t) (routes sc)\<rparr>) (AddReference 0 (spawn (TaskDiscover 0) u)))"
  define s1 where "s1 = ?add 3 demo_gw"
  define s2 where "s2 = upd_sec 0 (\<lambda>sc. sc\<lparr>cachedActions := [RouteCachedAction 3], cachedActionsVer := 500, seqnoCached := empty_window\<rparr>) s1"
  define s3 where "s3 = ?add (NOT 3) s2"
  have a: "addPeer demo_env [1] None u = (0, spawn (TaskDiscover 0) u)" if "activePeers u = [([1], 0)]" for u :: gateway
    by (simp add: addPeer_def lookup_or_new_def that)
  have g: "getConn 0 (gauge_routes b d u) = getConn 0 u" "getConn 0 (upd_sec q f u) = getConn 0 u"
      "getConn 0 (AddReference 0 u) = getConn 0 u" "getConn 0 (spawn tk u) = getConn 0 u"
      "allowRouting (gauge_routes b d u) = allowRouting u" "MinPricePerPacketRoute (gauge_routes b d u) = MinPricePerPacketRoute u"
    for b d q f tk and u :: gateway by (simp_all add: getConn_def gauge_routes_def AddReference_def upd_peer_def spawn_def)
  have f1: "activePeers s1 = [([1], 0)]" "allowRouting s1" "MinPricePerPacketRoute s1 = 0" "getConn 0 s1 = Some 3"
      "routes (sec s1 0) = [(7, demo_route), (3, new_route 3 ?t)]" "cachedActionsVer (sec s1 0) = 1" "length (sections s1) = 1"
    by (simp_all add: s1_def demo_section_def peer_simps g)
  have f2: "activePeers s2 = [([1], 0)]" "allowRouting s2" "MinPricePerPacketRoute s2 = 0" "getConn 0 s2 = Some 3"
      "routes (sec s2 0) = [(7, demo_route), (3, new_route 3 ?t)]" "length (sections s2) = 1"
    using f1 by (simp_all add: s2_def g)
  have f3: "allowRouting s3" "getConn 0 s3 = Some 3" "map_of (routes (sec s3 0)) 3 = Some (new_route 3 ?t)"
    using f2 by (simp_all add: s3_def peer_simps g)
  have 1: "BuildRoute_Execute demo_env 0 [1] [42] 3 0 demo_gw = (s1, None)"
    by (simp add: BuildRoute_Execute_def a demo_section_def MaxActiveRoutesPerSection_def s1_def)
  have "\<not> (500 :: u64) \<le> 1" by code_simp
  then have 2: "Cache_Execute 0 500 [RouteInstruction 3] s1 = (s2, None)" by (simp add: Cache_Execute_def f1 s2_def)
  have 3: "BuildRoute_Execute demo_env 0 [1] [42] (NOT 3) 0 s2 = (s3, None)"
    by (simp add: BuildRoute_Execute_def a f2 MaxActiveRoutesPerSection_def s3_def)
  have "snd (RouteInstruction_Execute demo_env 0 3 [5, 5] [8] s3) = None"
    by (simp add: RouteInstruction_Execute_def f3 Route_Route_def new_route_def SendCustomMessage_def Let_def)
      (simp add: demo_env_def)
  then obtain s4 where 4: "RouteInstruction_Execute demo_env 0 3 [5, 5] [8] s3 = (s4, None)" by (metis prod.collapse)
  show ?thesis by (simp add: route_instructions_def on_gateway_def demo_host_def 1 2 3 [simplified] 4)
qed


section \<open>Writing\<close>

lemma tuns_Send: "tuns (fst (SendCustomMessage E p m s)) = tuns s"
  by (auto simp: SendCustomMessage_def Let_def upd_peer_def emit_def split: option.split)

lemma i64_id_le: "0 \<le> x \<Longrightarrow> x < MaxInt64 \<Longrightarrow> i64 (x + 1) = x + 1"
  by (intro i64_id) (simp add: is_i64_def MaxInt64_def)

definition tun_valid :: "'a tun_gateway_scheme \<Rightarrow> ptr \<Rightarrow> bool" where
  "tun_valid s t \<longleftrightarrow> t < length (tuns s)"

text \<open>\<open>WriteTo\<close> in one piece: what it checks, and the state and packet of a successful call.\<close>

definition written :: "env \<Rightarrow> ptr \<Rightarrow> bytes \<Rightarrow> 'a tun_gateway_scheme \<Rightarrow> 'a tun_gateway_scheme" where
  "written E t payload s =
     (let tn = tuns s ! t; consumed = i64 (packetsConsumedOut tn + 1);
          s1 = (if usePayments tn
                then upd_tun t (\<lambda>q. (if i64 (packetsMinPaidOut tn - consumed) < half (packetsToPrepay tn)
                                     then requestControlMessage q else q)\<lparr>packetsConsumedOut := consumed\<rparr>) s
                else s);
          s3 = upd_tun t (\<lambda>q. q\<lparr>seqnoForward := seqnoForward tn + 1\<rparr>) (upd_tun t (\<lambda>q. q\<lparr>seqnoSend := seqnoSend tn + 1\<rparr>) s1)
      in upd_tun t (\<lambda>q. q\<lparr>packetsSent := packetsSent q + 1\<rparr>)
           (fst (SendCustomMessage E (tunPeer tn) (MsgCached \<lparr>cSectionPubKey = SectionPubKey (Keys (hd (chainTo tn))),
              cSeqno = seqnoForward tn + 1, cPayload = payload\<rparr>) s3)))"

lemma WriteTo_ok:
  assumes "WriteTo C T E t p (UDPAddr ip port) s = (s', Inr n)" "p \<noteq> []"
  shows "\<exists>body payload. n = length p \<and> s' = written E t payload s \<and> chainTo (tuns s ! t) \<noteq> [] \<and>
    tl_payload T (SendOutPayload (seqnoSend (tuns s ! t) + 1) ip (word_of_int port) p) = Some body \<and>
    EncryptPayload C (nonce E (outputs s)) (payloadKeys (tuns s ! t)) body = Inr payload \<and>
    \<not> tunnelState (tuns s ! t) < StateTypeOptimized \<and> \<not> wantDestroy (tuns s ! t) \<and>
    (usePayments (tuns s ! t) \<longrightarrow> packetsConsumedOut (tuns s ! t) \<le> packetsMinPaidOut (tuns s ! t)) \<and>
    (\<exists>h. getConn (tunPeer (tuns s ! t)) s = Some h \<and> outputs s' = outputs s @ [CallSend h (MsgCached
       \<lparr>cSectionPubKey = SectionPubKey (Keys (hd (chainTo (tuns s ! t)))), cSeqno = seqnoForward (tuns s ! t) + 1, cPayload = payload\<rparr>)])"
proof -
  have c: "getConn q (upd_tun t f u) = getConn q u" for q f and u :: "'a tun_gateway_scheme" by (simp add: getConn_def)
  have "outputs v = outputs u @ [CallSend h m] \<and> getConn q u = Some h" if "SendCustomMessage E q m u = (v, None)" "getConn q u = Some h"
    for q m h and u v :: "'a tun_gateway_scheme"
    using that by (auto simp: SendCustomMessage_def Let_def peer_simps split: if_splits)
  moreover have "\<exists>h. getConn q u = Some h" if "SendCustomMessage E q m u = (v, None)" for q m and u v :: "'a tun_gateway_scheme"
    using that by (auto simp: SendCustomMessage_def Let_def split: option.splits)
  ultimately have o: "\<exists>h. getConn q u = Some h \<and> outputs v = outputs u @ [CallSend h m]" if "SendCustomMessage E q m u = (v, None)"
    for q m and u v :: "'a tun_gateway_scheme" using that by blast
  show ?thesis using assms
    by (auto simp: WriteTo_def Let_def written_def c split: if_splits option.splits sum.splits prod.splits dest!: o)
qed

lemma written_counters:
  assumes "tun_valid s t"
  shows "tun_valid (written E t payload s) t"
    "packetsConsumedOut (tuns (written E t payload s) ! t) =
       (if usePayments (tuns s ! t) then i64 (packetsConsumedOut (tuns s ! t) + 1) else packetsConsumedOut (tuns s ! t))"
    "usePayments (tuns (written E t payload s) ! t) = usePayments (tuns s ! t)"
    "packetsMinPaidOut (tuns (written E t payload s) ! t) = packetsMinPaidOut (tuns s ! t)"
    "packetsSent (tuns (written E t payload s) ! t) = packetsSent (tuns s ! t) + 1"
    "seqnoSend (tuns (written E t payload s) ! t) = seqnoSend (tuns s ! t) + 1"
    "seqnoForward (tuns (written E t payload s) ! t) = seqnoForward (tuns s ! t) + 1"
  using assms
  by (auto simp: written_def Let_def tun_valid_def tuns_Send requestControlMessage_def nth_hupd)

lemma WriteTo_counters:
  assumes "tun_valid s t" "usePayments (tuns s ! t)" "0 \<le> packetsConsumedOut (tuns s ! t)" "packetsMinPaidOut (tuns s ! t) < MaxInt64"
    and "WriteTo C T E t p addr s = (s', r)"
  defines "c \<equiv> packetsConsumedOut (tuns s ! t)" and "c' \<equiv> packetsConsumedOut (tuns s' ! t)"
  shows "tun_valid s' t" "usePayments (tuns s' ! t)" "packetsMinPaidOut (tuns s' ! t) = packetsMinPaidOut (tuns s ! t)"
    "c \<le> c'" "p \<noteq> [] \<Longrightarrow> \<not> isl r \<Longrightarrow> c \<le> packetsMinPaidOut (tuns s ! t) \<and> c' = c + 1"
proof -
  have v: "t < length (tuns s)" using assms(1) by (simp add: tun_valid_def)
  have i: "i64 (c + 1) = c + 1" if "c \<le> packetsMinPaidOut (tuns s ! t)"
    using that assms(3,4) unfolding c_def by (intro i64_id_le) linarith+
  have t: "tuns u = tuns v" if "SendCustomMessage E q m v = (u, e)" for q m e and u v :: "'a tun_gateway_scheme"
    using tuns_Send [of E q m v] that by simp
  note d = assms(5) [unfolded WriteTo_def Let_def, simplified assms(2)]
  show "tun_valid s' t" using d assms(1)
    by (auto simp: tun_valid_def split: if_splits net_addr.splits option.splits sum.splits prod.splits dest: t)
  show "usePayments (tuns s' ! t)" using d assms(2) v
    by (auto simp: requestControlMessage_def split: if_splits net_addr.splits option.splits sum.splits prod.splits dest: t)
  show "packetsMinPaidOut (tuns s' ! t) = packetsMinPaidOut (tuns s ! t)" using d v
    by (auto simp: requestControlMessage_def split: if_splits net_addr.splits option.splits sum.splits prod.splits dest: t)
  have "c' = c \<and> (p \<noteq> [] \<longrightarrow> isl r) \<or> c \<le> packetsMinPaidOut (tuns s ! t) \<and> c' = i64 (c + 1)"
    using d v unfolding c_def c'_def
    by (auto simp: requestControlMessage_def split: if_splits net_addr.splits option.splits sum.splits prod.splits dest: t)
  with i show "c \<le> c'" "p \<noteq> [] \<Longrightarrow> \<not> isl r \<Longrightarrow> c \<le> packetsMinPaidOut (tuns s ! t) \<and> c' = c + 1" by auto
qed

fun write_stream :: "crypto \<Rightarrow> tlcodec \<Rightarrow> ptr \<Rightarrow> (env \<times> bytes \<times> net_addr) list \<Rightarrow> 'a tun_gateway_scheme \<Rightarrow> 'a tun_gateway_scheme \<times> nat" where
  "write_stream C T t [] s = (s, 0)"
| "write_stream C T t ((E, p, addr) # ps) s =
     (case WriteTo C T E t p addr s of (s1, r) \<Rightarrow>
        (case write_stream C T t ps s1 of (s2, n) \<Rightarrow> (s2, if p \<noteq> [] \<and> \<not> isl r then Suc n else n)))"

text \<open>
  C6. The initiator of a paid tunnel sends no more than it has paid for, up to one packet: over any
  sequence of writes (failing ones included) between two control messages, the number of packets
  sent is at most the packets every node on the way out is paid for, less those already consumed,
  plus one.
\<close>

theorem writes_prepaid:
  assumes "tun_valid s t" "usePayments (tuns s ! t)" "0 \<le> packetsConsumedOut (tuns s ! t)" "packetsMinPaidOut (tuns s ! t) < MaxInt64"
    and "write_stream C T t ps s = (s', n)"
  shows "int n \<le> max 0 (packetsMinPaidOut (tuns s ! t) - packetsConsumedOut (tuns s ! t) + 1)"
  using assms
proof (induction ps arbitrary: s s' n)
  case (Cons w ps)
  obtain E p addr where w: "w = (E, p, addr)" by (metis prod_cases3)
  obtain s1 r where r: "WriteTo C T E t p addr s = (s1, r)" by fastforce
  obtain s2 m where m: "write_stream C T t ps s1 = (s2, m)" by fastforce
  note k = WriteTo_counters [OF Cons.prems(1-4) r]
  have c: "0 \<le> packetsConsumedOut (tuns s1 ! t)" "packetsMinPaidOut (tuns s1 ! t) < MaxInt64"
    using k(3,4) Cons.prems(3,4) by linarith+
  have h: "int m \<le> max 0 (packetsMinPaidOut (tuns s ! t) - packetsConsumedOut (tuns s1 ! t) + 1)"
    using Cons.IH [OF k(1,2) c m] k(3) by simp
  have "n = (if p \<noteq> [] \<and> \<not> isl r then Suc m else m)" using Cons.prems(5) by (simp add: w r m)
  with h k(4,5) show ?case by (auto simp: max_def split: if_splits)
qed simp

text \<open>An established tunnel of a gateway whose peer is connected.\<close>

definition open_tun :: out_tunnel where
  "open_tun = (new_tunnel demo_env 33 0 [demo_info 1, demo_info 2] [demo_info 9] (demo_key 3))
     \<lparr>tunnelState := StateTypeOptimized, usePayments := True, packetsMinPaidOut := 5\<rparr>"

definition tun_gw :: tun_gateway where
  "tun_gw = gateway.extend demo_gw (tun_gateway.fields [open_tun])"

lemma tun_gw_fields [simp]: "tuns tun_gw = [open_tun]" "outputs tun_gw = []" "getConn 0 tun_gw = Some 3"
  by (simp_all add: tun_gw_def gateway.defs tun_gateway.defs getConn_def demo_gw_def NewGateway_def new_peer_def)

lemma open_tun_fields [simp]: "tunnelState open_tun = StateTypeOptimized" "usePayments open_tun" "packetsMinPaidOut open_tun = 5"
  "packetsConsumedOut open_tun = 0" "tunPeer open_tun = 0" "payloadKeys open_tun = demo_key 3" "readQueue open_tun = []"
  "\<not> wantDestroy open_tun" "chainTo open_tun = [demo_info 1, demo_info 2]" "seqnoSend open_tun = 0" "seqnoForward open_tun = 0"
  by (simp_all add: open_tun_def new_tunnel_def)

theorem writes_prepaid_witness:
  "\<exists>s' n. write_stream demo_crypto demo_tl2 0 (replicate 9 (demo_env, [5, 6], UDPAddr [10, 0, 0, 7] 80)) tun_gw = (s', n) \<and> n \<le> 6"
proof -
  let ?ps = "replicate 9 (demo_env, [5, 6], UDPAddr [10, 0, 0, 7] 80)"
  obtain s' n where w: "write_stream demo_crypto demo_tl2 0 ?ps tun_gw = (s', n)" by fastforce
  have "int n \<le> max 0 (5 - 0 + 1)"
    using writes_prepaid [OF _ _ _ _ w] by (simp add: tun_valid_def MaxInt64_def)
  with w show ?thesis by auto
qed

section \<open>A packet from end to end\<close>

lemma port_in_range: "\<not> (65535 :: u32) < ucast (port :: u16)"
proof -
  have "unat port < 2 ^ LENGTH(16)" by (rule unsigned_less)
  then have l: "unat port < 2 ^ 16" by simp
  have "unat (ucast port :: u32) = take_bit 32 (unat port)" by (simp add: unsigned_ucast_eq)
  also have "\<dots> = unat port" using l by (simp add: take_bit_nat_eq_self_iff)
  finally show ?thesis using l by (simp add: word_less_nat_alt)
qed

text \<open>
  C15. A packet written to the tunnel reaches its destination unchanged: a successful \<open>WriteTo\<close>
  sends one cached message, to the first section of the chain and with the next forward number,
  and when its payload arrives at the gate that the tunnel is bound to, the gate writes exactly
  the caller's bytes, once, to exactly the caller's address and port.
\<close>

theorem write_reaches_destination:
  assumes "WriteTo C T E t p (UDPAddr ip port) s = (s', Inr n)" "p \<noteq> []" "tl_payload_laws T"
    and "gw_inv g" "sec_valid g sp" "allowOut g" "sec_out (sec g sp) = Some ot" "outPrice ot = 0 \<or> 0 < PrepaidPacketsOut ot"
    and "PayloadCipherKey ot = CipherKey (payloadKeys (tuns s ! t))" "PayloadCipherKeyCRC ot = CipherKeyCRC (payloadKeys (tuns s ! t))"
    and "length ip \<in> {4, 16}" "write_ok E' (outputs g @ [CallWriteTo (outPort ot) ip (ucast (word_of_int port :: u32)) p])"
  shows "\<exists>h pl g' buf. n = length p \<and>
    outputs s' = outputs s @ [CallSend h (MsgCached \<lparr>cSectionPubKey = SectionPubKey (Keys (hd (chainTo (tuns s ! t)))),
       cSeqno = seqnoForward (tuns s ! t) + 1, cPayload = pl\<rparr>)] \<and>
    SendOut_Execute C T E' sp (g, pl) = ((g', buf), None) \<and>
    outputs g' = outputs g @ [CallWriteTo (outPort ot) ip (ucast (word_of_int port :: u32)) p]"
proof -
  from WriteTo_ok [OF assms(1,2)] obtain body pl h where w: "n = length p"
      "tl_payload T (SendOutPayload (seqnoSend (tuns s ! t) + 1) ip (word_of_int port) p) = Some body"
      "EncryptPayload C (nonce E (outputs s)) (payloadKeys (tuns s ! t)) body = Inr pl"
      "outputs s' = outputs s @ [CallSend h (MsgCached \<lparr>cSectionPubKey = SectionPubKey (Keys (hd (chainTo (tuns s ! t)))),
         cSeqno = seqnoForward (tuns s ! t) + 1, cPayload = pl\<rparr>)]" by blast
  have b: "body \<noteq> []" "tl_parse_payload T body = Some (SendOutPayload (seqnoSend (tuns s ! t) + 1) ip (word_of_int port) p)"
    using assms(3) w(2) by (auto simp: tl_payload_laws_def)
  have "encryptStream C (nonce E (outputs s)) (PayloadCipherKeyCRC ot) (PayloadCipherKey ot) body = Inr pl"
    using w(3) assms(9,10) by (simp add: EncryptPayload_def)
  from out_send_writes [OF assms(4-7) this b(1,2) assms(2,11,8,12)] w(1,4) show ?thesis by blast
qed

lemma demo_tl2_laws: "tl_payload_laws demo_tl2"
  using demo_payload_roundtrip by (auto simp: tl_payload_laws_def demo_tl2_def)

lemma demo_write: "\<exists>s' n. WriteTo demo_crypto demo_tl2 demo_env 0 [5, 6] (UDPAddr [10, 0, 0, 7] 80) tun_gw = (s', Inr n)"
proof -
  have c: "getConn 0 (upd_tun 0 f u) = getConn 0 u" for f and u :: tun_gateway by (simp add: getConn_def)
  show ?thesis
    by (simp add: WriteTo_def Let_def c demo_tl2_def demo_payload_def EncryptPayload_def encryptStream_def SendCustomMessage_def
        demo_crypto_def split: option.split prod.split) (simp add: demo_env_def)
qed

theorem write_reaches_destination_witness:
  "\<exists>s' n pl g' buf. WriteTo demo_crypto demo_tl2 demo_env 0 [5, 6] (UDPAddr [10, 0, 0, 7] 80) tun_gw = (s', Inr n) \<and>
     SendOut_Execute demo_crypto demo_tl2 demo_env 0 (demo_gw, pl) = ((g', buf), None) \<and>
     outputs g' = [CallWriteTo 4000 [10, 0, 0, 7] 80 [5, 6]]"
proof -
  obtain s' n where w: "WriteTo demo_crypto demo_tl2 demo_env 0 [5, 6] (UDPAddr [10, 0, 0, 7] 80) tun_gw = (s', Inr n)"
    using demo_write by blast
  have ot: "sec_out (sec demo_gw 0) = Some demo_out" by (simp add: demo_section_def)
  have k: "outPrice demo_out = 0 \<or> 0 < PrepaidPacketsOut demo_out" "PayloadCipherKey demo_out = CipherKey (payloadKeys (tuns tun_gw ! 0))"
      "PayloadCipherKeyCRC demo_out = CipherKeyCRC (payloadKeys (tuns tun_gw ! 0))" "length [10, 0, 0, 7 :: byte] \<in> {4, 16}"
    by (simp_all add: demo_out_def demo_key_def)
  have wr: "write_ok demo_env xs" for xs by (simp add: demo_env_def)
  from write_reaches_destination [OF w _ demo_tl2_laws demo_gw_inv demo_sec_valid _ ot k wr] w show ?thesis
    by (simp add: demo_out_def) blast
qed



end
