(* ===== verification/Reassembly.thy ===== *)
theory Reassembly
  imports Out_Tunnel_Safety
begin

text \<open>
  Reassembling a message of the initiator (\<open>resolveSection\<close>, \<open>ReassembleInstructions\<close> and
  \<open>reassembleInstructions\<close> of \<open>tunnel/regularOutTunnel.go\<close>): every layer is opened with the key of its
  section, the return message inside a bind instruction is reassembled in turn, and all layers are
  encrypted again, with the next counter value of every section. A \<open>*SectionInfo\<close> is the position of
  the section in \<open>chainTo\<close> followed by \<open>chainFrom\<close>; the state is the tunnel together with the number of
  nonces drawn from the random source.
\<close>

section \<open>Operations\<close>

abbreviation nodes :: "out_tunnel \<Rightarrow> section_info list" where
  "nodes tn \<equiv> chainTo tn @ chainFrom tn"

abbreviation node_key :: "section_info \<Rightarrow> bytes" where
  "node_key nd \<equiv> SectionPubKey (Keys nd)"

primrec key_position :: "bytes \<Rightarrow> section_info list \<Rightarrow> nat option" where
  "key_position key [] = None"
| "key_position key (info # infos) =
     (if node_key info = key then Some 0 else map_option Suc (key_position key infos))"

definition resolveSection :: "out_tunnel \<Rightarrow> bytes \<Rightarrow> nat option \<times> nat option" where
  "resolveSection tn key =
     (case key_position key (chainTo tn) of
        Some i \<Rightarrow> (Some i, if i + 1 < length (chainTo tn) then Some (i + 1)
                          else if 0 < length (chainFrom tn) then Some (length (chainTo tn)) else None)
      | None \<Rightarrow>
          (case key_position key (chainFrom tn) of
             Some i \<Rightarrow> (Some (length (chainTo tn) + i),
                        if i + 1 < length (chainFrom tn) then Some (length (chainTo tn) + (i + 1)) else None)
           | None \<Rightarrow> (None, None)))"

type_synonym reasm = "out_tunnel \<times> nat"

text \<open>The loop \<open>for i := len(containers) - 1; i >= 0; i--\<close> that encrypts the layers again.\<close>

primrec seal ::
  "crypto \<Rightarrow> tlcodec \<Rightarrow> (nat \<Rightarrow> u64 option) \<Rightarrow> (nat \<times> instruction list) list \<Rightarrow> reasm
   \<Rightarrow> reasm \<times> (go_error + encrypted_message)" where
  "seal C T rnd [] st = (st, Inr empty_message)"
| "seal C T rnd (c # cs) st =
     (case seal C T rnd cs st of
        (st1, Inl e) \<Rightarrow> (st1, Inl e)
      | (st1, Inr msg) \<Rightarrow>
          (case encrypt_with C T (rnd (snd st1)) (nodes (fst st1) ! fst c) msg (snd c) of
             (nd, res) \<Rightarrow> ((set_nodes ((nodes (fst st1))[fst c := nd]) (fst st1), Suc (snd st1)), res)))"

text \<open>
  The loop over the layers (\<open>open_layers\<close>), the loop over the instructions of one layer
  (\<open>open_list\<close>, whose result also tells \<open>more\<close>) and \<open>reassembleInstructions\<close>. Layers and nested return
  messages get shorter; the first argument bounds them, and \<open>ReassembleInstructions\<close> gives a bound
  that is enough (\<open>reassemble_fuel_enough\<close> below).
\<close>

function (sequential)
  open_layers :: "nat \<Rightarrow> crypto \<Rightarrow> tlcodec \<Rightarrow> (nat \<Rightarrow> u64 option) \<Rightarrow> bytes \<Rightarrow> bytes \<Rightarrow> reasm
   \<Rightarrow> reasm \<times> (go_error + (nat \<times> instruction list) list)" and
  open_list :: "nat \<Rightarrow> crypto \<Rightarrow> tlcodec \<Rightarrow> (nat \<Rightarrow> u64 option) \<Rightarrow> bool \<Rightarrow> instruction list \<Rightarrow> reasm
   \<Rightarrow> reasm \<times> (go_error + (instruction list \<times> bool))" and
  reassembleInstructions :: "nat \<Rightarrow> crypto \<Rightarrow> tlcodec \<Rightarrow> (nat \<Rightarrow> u64 option) \<Rightarrow> encrypted_message \<Rightarrow> reasm
   \<Rightarrow> reasm \<times> (go_error + encrypted_message)" where
  "open_layers 0 C T rnd key rest st = (st, Inl ErrTooDeep)"
| "open_layers (Suc fuel) C T rnd key rest st =
     (case resolveSection (fst st) key of
        (None, _) \<Rightarrow> (st, Inl ErrSectionMissing)
      | (Some i, nextSec) \<Rightarrow>
          let k = Keys (nodes (fst st) ! i)
          in case decryptMessage C T (CipherKeyCRC k) (CipherKey k) rest of
               Inl e \<Rightarrow> (st, Inl e)
             | Inr (container, rest1) \<Rightarrow>
                 (case open_list fuel C T rnd (nextSec \<noteq> None) (List container) st of
                    (st1, Inl e) \<Rightarrow> (st1, Inl e)
                  | (st1, Inr (list, goOn)) \<Rightarrow>
                      if goOn
                      then (case open_layers fuel C T rnd (node_key (nodes (fst st1) ! the nextSec)) rest1 st1 of
                              (st2, Inl e) \<Rightarrow> (st2, Inl e)
                            | (st2, Inr cs) \<Rightarrow> (st2, Inr ((i, list) # cs)))
                      else (st1, Inr [(i, list)])))"
| "open_list fuel C T rnd hasNext [] st = (st, Inr ([], False))"
| "open_list fuel C T rnd hasNext (BindOutInstruction adnl key inbound receiver price # rest) st =
     (case reassembleInstructions fuel C T rnd
             \<lparr>msgSectionPubKey = key, msgInstructions = inbound, msgPayload = []\<rparr> st of
        (st1, Inl e) \<Rightarrow> (st1, Inl e)
      | (st1, Inr inMsg) \<Rightarrow>
          (case open_list fuel C T rnd hasNext rest st1 of
             (st2, Inl e) \<Rightarrow> (st2, Inl e)
           | (st2, Inr (list, goOn)) \<Rightarrow>
               (st2, Inr (BindOutInstruction adnl key (msgInstructions inMsg) receiver price # list, goOn))))"
| "open_list fuel C T rnd hasNext (ins # rest) st =
     (case open_list fuel C T rnd hasNext rest st of
        (st1, Inl e) \<Rightarrow> (st1, Inl e)
      | (st1, Inr (list, goOn)) \<Rightarrow>
          (st1, Inr (ins # list, (case ins of RouteInstruction _ \<Rightarrow> hasNext | _ \<Rightarrow> False) \<or> goOn)))"
| "reassembleInstructions fuel C T rnd msg st =
     (case open_layers fuel C T rnd (msgSectionPubKey msg) (msgInstructions msg) st of
        (st1, Inl e) \<Rightarrow> (st1, Inl e)
      | (st1, Inr cs) \<Rightarrow>
          (case seal C T rnd cs st1 of
             (st2, Inl e) \<Rightarrow> (st2, Inl e)
           | (st2, Inr newMsg) \<Rightarrow> (st2, Inr (newMsg\<lparr>msgPayload := msgPayload msg\<rparr>))))"
  by pat_completeness auto

termination
  by (relation "inv_image (less_than <*lex*> less_than) (\<lambda>x. case x of
        Inl (fuel, _) \<Rightarrow> (fuel, 0)
      | Inr (Inl (fuel, C, T, rnd, hasNext, list, st)) \<Rightarrow> (fuel, Suc (Suc (length list)))
      | Inr (Inr (fuel, _)) \<Rightarrow> (fuel, Suc 0))") auto

text \<open>The final check is the explicit \<open>panic\<close> of the code.\<close>

definition ReassembleInstructions ::
  "crypto \<Rightarrow> tlcodec \<Rightarrow> (nat \<Rightarrow> u64 option) \<Rightarrow> encrypted_message \<Rightarrow> reasm \<Rightarrow> reasm \<times> (go_error + encrypted_message)" where
  "ReassembleInstructions C T rnd msg st =
     (case reassembleInstructions (Suc (length (msgInstructions msg))) C T rnd msg st of
        (st1, Inl e) \<Rightarrow> (st1, Inl e)
      | (st1, Inr rs) \<Rightarrow>
          if length (msgInstructions rs) \<noteq> length (msgInstructions msg) then (st1, Inl PanicMust) else (st1, Inr rs))"

section \<open>The bound is enough\<close>

definition is_bind :: "instruction \<Rightarrow> bool" where
  "is_bind ins \<longleftrightarrow> type_of ins = TBindOut"

definition is_route :: "instruction \<Rightarrow> bool" where
  "is_route ins \<longleftrightarrow> type_of ins = TRoute"

definition inbound_len :: "instruction \<Rightarrow> nat" where
  "inbound_len ins = (case ins of BindOutInstruction _ _ inbound _ _ \<Rightarrow> length inbound | _ \<Rightarrow> 0)"

lemma open_list_other:
  assumes "\<not> is_bind ins"
  shows "open_list fuel C T rnd hasNext (ins # rest) st =
     (case open_list fuel C T rnd hasNext rest st of
        (st1, Inl e) \<Rightarrow> (st1, Inl e)
      | (st1, Inr (list, goOn)) \<Rightarrow> (st1, Inr (ins # list, is_route ins \<and> hasNext \<or> goOn)))"
  using assms by (cases ins) (simp_all add: is_bind_def is_route_def split: prod.splits sum.splits)

text \<open>What the TL library reads as a byte string is part of its input.\<close>

definition tl_inbound :: "tlcodec \<Rightarrow> bool" where
  "tl_inbound T \<longleftrightarrow> (\<forall>ty data ins rest. tl_parse_body T ty data = Some (ins, rest) \<longrightarrow> inbound_len ins \<le> length data)"

lemma tl_inboundD: "tl_parse_body T ty data = Some (ins, rest) \<Longrightarrow> tl_inbound T \<Longrightarrow> inbound_len ins \<le> length data"
  by (auto simp: tl_inbound_def)

lemma parse_inbound:
  "tl_shrinks T \<Longrightarrow> tl_inbound T \<Longrightarrow> parse_instrs fuel T num data = Inr lr \<Longrightarrow>
     length (snd lr) \<le> length data \<and> (\<forall>ins \<in> set (fst lr). inbound_len ins \<le> length data)"
  "tl_shrinks T \<Longrightarrow> tl_inbound T \<Longrightarrow> parse_body fuel T ty data = Inr ir \<Longrightarrow>
     length (snd ir) \<le> length data \<and> inbound_len (fst ir) \<le> length data"
proof (induction fuel T num data and fuel T ty data arbitrary: lr and ir rule: parse_instrs_parse_body.induct)
  case (2 fuel T num data)
  from "2.prems"(3) obtain ty i r l r' where ok: "\<not> length data < 4"
      "map_of (instructionOpcodes T) (get_le (take 4 data)) = Some ty"
    and b: "parse_body fuel T ty (drop 4 data) = Inr (i, r)" and l: "parse_instrs fuel T num r = Inr (l, r')"
    and lr: "lr = (i # l, r')"
    by (auto split: if_splits option.splits sum.splits)
  from "2.IH"(1) [OF ok "2.prems"(1,2) b] have "length r \<le> length data" "inbound_len i \<le> length data" by auto
  moreover from "2.IH"(2) [OF ok b refl "2.prems"(1,2) l]
  have "length r' \<le> length r" "\<forall>ins \<in> set l. inbound_len ins \<le> length r" by auto
  ultimately show ?case by (force simp: lr)
next
  case (3 fuel T data)
  then obtain f lr where f: "fuel = Suc f" and n: "\<not> length data < 12"
    and p: "parse_instrs f T (unat (get_le (take 4 (drop 8 data)) :: u32)) (drop 12 data) = Inr lr"
    and i: "ir = (CacheInstruction (get_le (take 8 data)) (fst lr), snd lr)"
    by (auto split: nat.splits if_splits sum.splits)
  from "3.IH" [OF f n "3.prems"(1,2) p] show ?case by (auto simp: i inbound_len_def)
qed (auto simp: tl_shrinks_def split: option.splits dest: tl_inboundD)

lemma decryptMessage_shorter:
  assumes "tl_shrinks T" "tl_inbound T" "decryptMessage C T crc key ins = Inr (c, rest)"
  shows "length rest < length ins" "\<And>i. i \<in> set (List c) \<Longrightarrow> inbound_len i < length ins"
proof -
  from assms(3) obtain data where d: "snd (decryptStream C crc key ins) = Inr data" and "\<not> length data < 12"
    and p: "InstructionsContainer_Parse T (drop 4 data) = Inr (c, rest)"
    by (auto simp: decryptMessage_def split: sum.splits if_splits)
  from decryptStream_length [OF d] have len: "length data < length ins" by simp
  from p obtain num where "parse_instrs (length (drop 4 data)) T num (drop 8 (drop 4 data)) = Inr (List c, rest)"
    by (auto simp: InstructionsContainer_Parse_def split: sum.splits)
  from parse_inbound(1) [OF assms(1,2) this]
  have "length rest \<le> length data" "\<forall>i \<in> set (List c). inbound_len i \<le> length data" by auto
  with len show "length rest < length ins" "\<And>i. i \<in> set (List c) \<Longrightarrow> inbound_len i < length ins"
    by (auto intro: le_less_trans)
qed

definition calm :: "go_error + 'a \<Rightarrow> bool" where
  "calm r \<longleftrightarrow> (case r of Inl e \<Rightarrow> e \<noteq> ErrTooDeep \<and> \<not> is_panic e | Inr _ \<Rightarrow> True)"

lemma calm_simps [simp]: "calm (Inr x)" "calm (Inl ErrSectionMissing)"
  by (simp_all add: calm_def is_panic_def)

lemma calm_serialize:
  "calm (serialize_instr T ins)" "calm (serialize_list T l)"
  by (induction T ins and T l rule: serialize_instr_serialize_list.induct)
    (auto simp: calm_def is_panic_def split: sum.splits option.splits)

lemma calm_encrypt: "calm (snd (encrypt_with C T r cur msg ins))"
  using calm_serialize(2) [of T ins]
  by (auto simp: encrypt_with_def EncryptInstructionsMessage_def InstructionsContainer_Serialize_def Let_def calm_def is_panic_def
      encryptStream_def split: sum.splits option.splits)

lemma calm_Inl: "calm (Inl e :: go_error + 'a) \<Longrightarrow> calm (Inl e :: go_error + 'b)"
  by (simp add: calm_def)

lemma calm_bind:
  fixes x :: "'s \<times> (go_error + 'a)" and f :: "'s \<Rightarrow> 'a \<Rightarrow> 's \<times> (go_error + 'b)"
  assumes "calm (snd x)" "\<And>s v. x = (s, Inr v) \<Longrightarrow> calm (snd (f s v))"
  shows "calm (snd (case x of (s, r) \<Rightarrow> (case r of Inl e \<Rightarrow> (s, Inl e) | Inr v \<Rightarrow> f s v)))"
  using assms by (cases x; cases "snd x") (auto intro: calm_Inl)

lemma calm_seal: "calm (snd (seal C T rnd cs st))"
proof (induction cs)
  case (Cons c cs)
  have "calm (snd (case encrypt_with C T r cur msg ins of (nd, res) \<Rightarrow> (g nd, res)))" for r cur msg ins and g :: "section_info \<Rightarrow> reasm"
    using calm_encrypt [of C T r cur msg ins] by (simp add: split_def)
  with Cons show ?case unfolding seal.simps by (intro calm_bind) (auto simp: split_def)
qed simp

lemma calm_reassemble:
  assumes "calm (snd (open_layers fuel C T rnd (msgSectionPubKey msg) (msgInstructions msg) st))"
  shows "calm (snd (reassembleInstructions fuel C T rnd msg st))"
  unfolding reassembleInstructions.simps by (intro calm_bind assms calm_seal) simp

lemma calm_open_list:
  assumes "\<And>key rest st. length rest < fuel \<Longrightarrow> calm (snd (open_layers fuel C T rnd key rest st))"
    and "\<And>i. i \<in> set l \<Longrightarrow> inbound_len i < fuel"
  shows "calm (snd (open_list fuel C T rnd hasNext l st))"
  using assms(2)
proof (induction l arbitrary: st)
  case (Cons i l)
  then have IH: "calm (snd (open_list fuel C T rnd hasNext l st1))" for st1 by simp
  show ?case
  proof (cases "is_bind i")
    case True
    then obtain a k ib r p where i: "i = BindOutInstruction a k ib r p" by (cases i) (auto simp: is_bind_def)
    with Cons.prems [of i] have "length ib < fuel" by (simp add: inbound_len_def)
    then have "calm (snd (reassembleInstructions fuel C T rnd \<lparr>msgSectionPubKey = k, msgInstructions = ib, msgPayload = []\<rparr> st))"
      by (intro calm_reassemble assms(1)) simp
    then show ?thesis
      unfolding i open_list.simps by (intro calm_bind IH) (simp_all add: split_def)
  next
    case False
    then show ?thesis unfolding open_list_other [OF False] by (intro calm_bind IH) (simp add: split_def)
  qed
qed simp

lemma reassemble_fuel_enough:
  assumes "tl_shrinks T" "tl_inbound T"
  shows "length rest < fuel \<Longrightarrow> calm (snd (open_layers fuel C T rnd key rest st))"
proof (induction fuel arbitrary: key rest st)
  case (Suc fuel)
  obtain sec nextSec where r: "resolveSection (fst st) key = (sec, nextSec)" by (cases "resolveSection (fst st) key")
  show ?case
  proof (cases sec)
    case (Some i)
    define k where "k = Keys (nodes (fst st) ! i)"
    show ?thesis
    proof (cases "decryptMessage C T (CipherKeyCRC k) (CipherKey k) rest")
      case (Inl e)
      then show ?thesis using decryptMessage_Inl [OF assms(1) Inl] r Some by (simp add: k_def Let_def calm_def)
    next
      case (Inr cr)
      obtain c rest1 where cr: "cr = (c, rest1)" by (cases cr)
      note sh = decryptMessage_shorter [OF assms Inr [unfolded cr]]
      have l: "calm (snd (open_list fuel C T rnd (nextSec \<noteq> None) (List c) st))"
        using sh(2) Suc by (intro calm_open_list) fastforce+
      have rec: "calm (snd (open_layers fuel C T rnd key1 rest1 st1))" for key1 st1
        using sh(1) Suc.prems by (intro Suc.IH) simp
      show ?thesis
      proof (cases "open_list fuel C T rnd (nextSec \<noteq> None) (List c) st")
        case (Pair st1 res)
        show ?thesis
          using l rec [of "node_key (nodes (fst st1) ! the nextSec)" st1] r Some Inr cr Pair
          by (auto simp: k_def Let_def split: sum.splits prod.splits intro: calm_Inl)
      qed
    qed
  qed (simp add: r)
qed simp

text \<open>
  On every message the function returns, with an error that is no panic unless the length check
  fails, and it never runs out of the bound.
\<close>

lemma ReassembleInstructions_errors:
  assumes "tl_shrinks T" "tl_inbound T" "ReassembleInstructions C T rnd msg st = (st', Inl e)"
  shows "e \<noteq> ErrTooDeep \<and> (is_panic e \<longrightarrow> e = PanicMust)"
proof -
  let ?r = "reassembleInstructions (Suc (length (msgInstructions msg))) C T rnd msg st"
  have "calm (snd ?r)" by (intro calm_reassemble reassemble_fuel_enough [OF assms(1,2)]) simp
  then show ?thesis using assms(3)
    by (cases ?r; cases "snd ?r") (auto simp: ReassembleInstructions_def calm_def simp del: reassembleInstructions.simps split: if_splits)
qed

section \<open>Layered messages\<close>

text \<open>
  The instructions a chain of sections finds when it opens a message, as they were encrypted: by
  keys that differ from the present ones in the counter only.
\<close>

primrec onion :: "crypto \<Rightarrow> tlcodec \<Rightarrow> section_info list \<Rightarrow> bytes \<Rightarrow> container list \<Rightarrow> bool" where
  "onion C T [] ins cs \<longleftrightarrow> cs = [] \<and> ins = []"
| "onion C T (nd # nds) ins cs \<longleftrightarrow> (\<exists>c cs' r m m'. cs = c # cs' \<and> length (List c) < 2 ^ 32 \<and> list_all short_lists (List c) \<and>
     snd (EncryptInstructionsMessage C T r ((Keys nd)\<lparr>keySeqno := Seqno c - 1\<rparr>) m (List c)) = Inr m' \<and>
     ins = msgInstructions m' \<and> onion C T nds (msgInstructions m) cs')"

definition static :: "section_info \<Rightarrow> encryption_keys" where
  "static nd = (Keys nd)\<lparr>keySeqno := 0\<rparr>"

lemma static_counter: "static nd = static nd' \<Longrightarrow> (Keys nd)\<lparr>keySeqno := n\<rparr> = (Keys nd')\<lparr>keySeqno := n\<rparr>"
  unfolding static_def by (metis encryption_keys.update_convs(3) encryption_keys.surjective)

lemma onion_static: "map static nds = map static nds' \<Longrightarrow> onion C T nds ins cs = onion C T nds' ins cs"
proof (induction nds arbitrary: nds' ins cs)
  case (Cons nd nds)
  then obtain nd' nds1 where n: "nds' = nd' # nds1" "static nd = static nd'" "map static nds = map static nds1"
    by (auto simp: Cons_eq_map_conv)
  with static_counter [OF n(2)] Cons.IH [OF n(3)] show ?case by simp
qed simp

lemma onion_layer:
  assumes "tl_laws T" "onion C T (nd # nds) ins cs"
  obtains c cs' inner where "cs = c # cs'" "decryptMessage C T (CipherKeyCRC (Keys nd)) (CipherKey (Keys nd)) ins = Inr (c, inner)"
    "onion C T nds inner cs'"
proof -
  from assms(2) obtain c cs' r m m' where c: "cs = c # cs'" "length (List c) < 2 ^ 32" "list_all short_lists (List c)"
    and e: "snd (EncryptInstructionsMessage C T r ((Keys nd)\<lparr>keySeqno := Seqno c - 1\<rparr>) m (List c)) = Inr m'"
    and i: "ins = msgInstructions m'" and o: "onion C T nds (msgInstructions m) cs'" by auto
  from decrypt_layer(1) [OF assms(1) e c(2,3)]
  have "decryptMessage C T (CipherKeyCRC (Keys nd)) (CipherKey (Keys nd)) ins = Inr (c, msgInstructions m)" by (simp add: i)
  from that [OF c(1) this o] show ?thesis .
qed

lemma onion_peels: "tl_laws T \<Longrightarrow> onion C T nds ins cs \<Longrightarrow> peel_layers C T (map Keys nds) ins = Inr (cs, [])"
proof (induction nds arbitrary: ins cs)
  case (Cons nd nds)
  from Cons.prems obtain c cs' inner where "cs = c # cs'"
      "decryptMessage C T (CipherKeyCRC (Keys nd)) (CipherKey (Keys nd)) ins = Inr (c, inner)" "onion C T nds inner cs'"
    by (rule onion_layer)
  with Cons.IH Cons.prems(1) show ?case by simp
qed simp

lemma onion_length: "onion C T nds ins cs \<Longrightarrow> length cs = length nds"
  by (induction nds arbitrary: ins cs) auto

context layering
begin

lemma layers_onion:
  "layers_loop body i nds = (nds', Inr msg) \<Longrightarrow> \<exists>cs. onion C T nds (msgInstructions msg) cs \<and>
     map Seqno cs = map (\<lambda>nd. keySeqno (Keys nd) + 1) nds \<and>
     (\<forall>j < length nds. sends (nds ! j) (drop (Suc j) nds) (List (cs ! j)))"
proof (induction nds arbitrary: i nds' msg)
  case Nil
  then show ?case by (auto simp: empty_message_def)
next
  case (Cons nd nds)
  then obtain nds1 m1 nd' where l: "layers_loop body (Suc i) nds = (nds1, Inr m1)" and b: "body i nd nds m1 = (nd', Inr msg)"
    by (auto split: prod.splits sum.splits)
  from Cons.IH [OF l] obtain cs where cs: "onion C T nds (msgInstructions m1) cs" "map Seqno cs = map (\<lambda>nd. keySeqno (Keys nd) + 1) nds"
      "\<forall>j < length nds. sends (nds ! j) (drop (Suc j) nds) (List (cs ! j))" by blast
  from layer [OF b] obtain r ins where e: "snd (EncryptInstructionsMessage C T r (Keys nd) m1 ins) = Inr msg" "sends nd nds ins" by blast
  let ?c = "\<lparr>Seqno = keySeqno (Keys nd) + 1, List = ins\<rparr>"
  have "onion C T (nd # nds) (msgInstructions msg) (?c # cs)"
    using e(1) cs(1) short [OF e(2)] by auto
  moreover have "sends ((nd # nds) ! j) (drop (Suc j) (nd # nds)) (List ((?c # cs) ! j))" if "j < length (nd # nds)" for j
    using that cs(3) e(2) by (cases j) auto
  ultimately show ?case using cs(2) by (intro exI [of _ "?c # cs"]) simp
qed

end

section \<open>Opening the layers\<close>

lemma take_drop_Suc: "i < length xs \<Longrightarrow> take (Suc k) (drop i xs) = xs ! i # take k (drop (Suc i) xs)"
  by (simp add: Cons_nth_drop_Suc [symmetric])

lemma key_position_append:
  "key_position key (xs @ ys) = (case key_position key xs of Some i \<Rightarrow> Some i | None \<Rightarrow> map_option ((+) (length xs)) (key_position key ys))"
  by (induction xs) (cases "key_position key ys"; auto simp: option.map_comp comp_def split: option.splits)+

lemma key_position_distinct:
  "distinct (map node_key xs) \<Longrightarrow> i < length xs \<Longrightarrow> key_position (node_key (xs ! i)) xs = Some i"
proof (induction xs arbitrary: i)
  case (Cons x xs)
  show ?case
  proof (cases i)
    case (Suc j)
    then have "node_key (xs ! j) \<in> node_key ` set xs" using Cons.prems(2) by simp
    then have "node_key x \<noteq> node_key (xs ! j)" using Cons.prems(1) by auto
    with Suc Cons show ?thesis by simp
  qed simp
qed simp

lemma key_position_less: "key_position key xs = Some i \<Longrightarrow> i < length xs"
  by (induction xs arbitrary: i) (auto split: if_splits)

text \<open>A section is followed by the next one of the whole route.\<close>

lemma resolveSection_node:
  assumes "distinct (map node_key (nodes tn))" "i < length (nodes tn)"
  shows "resolveSection tn (node_key (nodes tn ! i)) = (Some i, if Suc i < length (nodes tn) then Some (Suc i) else None)"
proof -
  define key where "key = node_key (nodes tn ! i)"
  have k: "key_position key (nodes tn) = Some i" using key_position_distinct [OF assms] by (simp only: key_def)
  have "resolveSection tn key = (Some i, if Suc i < length (nodes tn) then Some (Suc i) else None)"
  proof (cases "key_position key (chainTo tn)")
    case (Some j)
    with k have "j = i" by (simp add: key_position_append)
    moreover from key_position_less [OF Some] have "j < length (chainTo tn)" .
    ultimately show ?thesis using Some by (cases "chainFrom tn") (auto simp: resolveSection_def)
  next
    case None
    with k obtain j where "key_position key (chainFrom tn) = Some j" "i = length (chainTo tn) + j"
      by (auto simp: key_position_append)
    with None show ?thesis by (simp add: resolveSection_def)
  qed
  then show ?thesis by (simp only: key_def)
qed

lemma open_list_plain:
  assumes "\<not> list_ex is_bind l"
  shows "open_list fuel C T rnd hasNext l st = (st, Inr (l, list_ex is_route l \<and> hasNext))"
  using assms by (induction l) (auto simp: open_list_other)

lemma open_layers_onion:
  assumes "tl_laws T" "distinct (map node_key (nodes tn))"
    and "onion C T (take (length cs) (drop i (nodes tn))) ins cs" "cs \<noteq> []" "i + length cs \<le> length (nodes tn)"
    and "\<forall>c \<in> set (butlast cs). list_ex is_route (List c) \<and> \<not> list_ex is_bind (List c)"
    and last: "\<And>f. L \<le> f \<Longrightarrow> open_list f C T rnd (i + length cs < length (nodes tn)) (List (last cs)) (tn, n) = (st, Inr (l', False))"
    and "L + length cs \<le> fuel"
  shows "open_layers fuel C T rnd (node_key (nodes tn ! i)) ins (tn, n) =
    (st, Inr (zip [i..<i + length cs] (map List (butlast cs) @ [l'])))"
  using assms(3-8)
proof (induction cs arbitrary: i ins fuel)
  case (Cons c cs)
  obtain f where f: "fuel = Suc f" "L + length cs \<le> f" using Cons.prems(6) by (cases fuel) auto
  have i: "i < length (nodes tn)" using Cons.prems(3) by simp
  have "take (length (c # cs)) (drop i (nodes tn)) = nodes tn ! i # take (length cs) (drop (Suc i) (nodes tn))"
    using take_drop_Suc [OF i, of "length cs"] by (simp only: list.size(4) add_Suc_right add_0_right)
  with Cons.prems(1) obtain inner where d: "decryptMessage C T (CipherKeyCRC (Keys (nodes tn ! i))) (CipherKey (Keys (nodes tn ! i))) ins = Inr (c, inner)"
    and o: "onion C T (take (length cs) (drop (Suc i) (nodes tn))) inner cs"
    using onion_layer [OF assms(1)] by (metis list.inject)
  note r = resolveSection_node [OF assms(2) i]
  show ?case
  proof (cases "cs = []")
    case True
    then show ?thesis using Cons.prems(5) [of f] f r d
      by (cases "Suc i < length (chainTo tn) + length (chainFrom tn)") (simp_all add: Let_def)
  next
    case False
    with Cons.prems(3) have s: "Suc i < length (nodes tn)" by (cases cs) auto
    have "open_list f C T rnd True (List c) (tn, n) = ((tn, n), Inr (List c, True))"
      using open_list_plain [of "List c" f C T rnd True "(tn, n)"] Cons.prems(4) False by simp
    moreover have "open_layers f C T rnd (node_key (nodes tn ! Suc i)) inner (tn, n) =
        (st, Inr (zip [Suc i..<Suc i + length cs] (map List (butlast cs) @ [l'])))"
      using Cons.prems(3-5) False f(2) by (intro Cons.IH [OF o]) auto
    moreover have "[i..<i + length (c # cs)] = i # [Suc i..<Suc i + length cs]" by (simp add: upt_conv_Cons del: upt_Suc)
    ultimately show ?thesis using f r d s False by (simp add: Let_def)
  qed
qed simp

section \<open>Encrypting the layers again\<close>

definition bump :: "section_info \<Rightarrow> section_info" where
  "bump nd = nd\<lparr>Keys := (Keys nd)\<lparr>keySeqno := keySeqno (Keys nd) + 1\<rparr>\<rparr>"

definition bump_range :: "nat \<Rightarrow> nat \<Rightarrow> section_info list \<Rightarrow> section_info list" where
  "bump_range i k nds = map (\<lambda>j. if i \<le> j \<and> j < i + k then bump (nds ! j) else nds ! j) [0..<length nds]"

lemma static_bump [simp]: "static (bump nd) = static nd"
  by (simp add: static_def bump_def)

lemma bump_range_props [simp]:
  "length (bump_range i k nds) = length nds" "bump_range i 0 nds = nds"
  "j < length nds \<Longrightarrow> bump_range i k nds ! j = (if i \<le> j \<and> j < i + k then bump (nds ! j) else nds ! j)"
  "map static (bump_range i k nds) = map static nds"
  by (auto simp: bump_range_def intro!: nth_equalityI)

lemma bump_range_Suc:
  "i < length nds \<Longrightarrow> (bump_range (Suc i) k nds)[i := bump (nds ! i)] = bump_range i (Suc k) nds"
  by (rule nth_equalityI) (auto simp: nth_list_update)

lemma nodes_set_nodes:
  assumes "length nds = length (nodes tn)"
  shows "nodes (set_nodes nds tn) = nds" "length (chainTo (set_nodes nds tn)) = length (chainTo tn)"
    "set_nodes nds' (set_nodes nds tn) = set_nodes nds' tn"
  using assms by (simp_all add: set_nodes_def)

lemma set_nodes_same [simp]: "set_nodes (nodes tn) tn = tn"
  by (simp add: set_nodes_def)

text \<open>An instruction list after its return messages were replaced by others of the same length.\<close>

definition resized :: "instruction \<Rightarrow> instruction \<Rightarrow> bool" where
  "resized i i' \<longleftrightarrow> i' = i \<or> (\<exists>a k b b' r p. i = BindOutInstruction a k b r p \<and> i' = BindOutInstruction a k b' r p \<and> length b = length b')"

text \<open>
  The encoding of a bind instruction exists for every return message of the same length, and its
  length depends on that length only; whether a key is a cipher key does not depend on the nonce.
\<close>

definition tl_sized :: "tlcodec \<Rightarrow> bool" where
  "tl_sized T \<longleftrightarrow> (\<forall>a k b b' r p bs. length b = length b' \<longrightarrow> tl_body T (BindOutInstruction a k b r p) = Some bs \<longrightarrow>
     (\<exists>bs'. tl_body T (BindOutInstruction a k b' r p) = Some bs' \<and> length bs' = length bs))"

definition key_decides :: "crypto \<Rightarrow> bool" where
  "key_decides C \<longleftrightarrow> (\<forall>key iv iv'. NewCipherCtr C key iv \<noteq> None \<longrightarrow> NewCipherCtr C key iv' \<noteq> None)"

lemma serialize_resized:
  assumes "tl_sized T" "list_all2 resized l l'" "serialize_list T l = Inr b"
  shows "\<exists>b'. serialize_list T l' = Inr b' \<and> length b' = length b"
  using assms(2,3)
proof (induction l l' arbitrary: b rule: list_all2_induct)
  case (Cons i l i' l')
  then obtain x y where xy: "serialize_instr T i = Inr x" "serialize_list T l = Inr y" "b = x @ y"
    by (auto split: sum.splits)
  have "\<exists>x'. serialize_instr T i' = Inr x' \<and> length x' = length x"
    using Cons.hyps(1) xy(1) assms(1) unfolding resized_def tl_sized_def
    by (auto split: option.splits) (metis length_append option.distinct(1) option.inject)+
  then obtain x' where x': "serialize_instr T i' = Inr x'" "length x' = length x" by blast
  from Cons.IH [OF xy(2)] x' show ?case by (auto simp: xy(3))
qed simp

lemma short_resized: "list_all2 resized l l' \<Longrightarrow> list_all short_lists l \<Longrightarrow> list_all short_lists l'"
  by (induction l l' rule: list_all2_induct) (auto simp: resized_def)

lemma resized_refl [simp]: "list_all2 resized l l"
  by (simp add: list.rel_refl resized_def)

lemma encrypt_success:
  "snd (EncryptInstructionsMessage C T r k m l) = Inr m' \<longleftrightarrow> l \<noteq> [] \<and>
     (\<exists>b e. serialize_list T l = Inr b \<and> encryptStream C r (CipherKeyCRC k) (CipherKey k)
        (put_u32 (tl_container_id T) @ put_u32 (keySeqno k + 1) @ put_u32 (of_nat (length l)) @ b @ msgInstructions m) = Inr e \<and>
        m' = m\<lparr>msgSectionPubKey := SectionPubKey k, msgInstructions := e\<rparr>)"
  by (auto simp: EncryptInstructionsMessage_def InstructionsContainer_Serialize_def Let_def split: sum.splits)

lemma encryptStream_again:
  assumes "key_decides C" "encryptStream C r crc key data = Inr e" "r' \<noteq> None" "length data' = length data"
  shows "\<exists>e'. encryptStream C r' crc key data' = Inr e' \<and> length e' = length e"
  using assms by (auto simp: encryptStream_def key_decides_def Let_def split: option.splits) (metis option.distinct(1))

lemma encrypt_again:
  assumes "tl_sized T" "key_decides C" "r' \<noteq> None" "list_all2 resized l l'"
    and "snd (EncryptInstructionsMessage C T r ((Keys nd)\<lparr>keySeqno := n\<rparr>) m l) = Inr m'" "length (msgInstructions mm) = length (msgInstructions m)"
  shows "\<exists>m2. encrypt_with C T r' nd mm l' = (bump nd, Inr m2) \<and> snd (EncryptInstructionsMessage C T r' (Keys nd) mm l') = Inr m2 \<and>
     msgSectionPubKey m2 = node_key nd \<and> msgPayload m2 = msgPayload mm \<and> length (msgInstructions m2) = length (msgInstructions m')"
proof -
  from assms(5) obtain b e where l: "l \<noteq> []" "serialize_list T l = Inr b"
    and e: "encryptStream C r (CipherKeyCRC (Keys nd)) (CipherKey (Keys nd))
        (put_u32 (tl_container_id T) @ put_u32 (n + 1) @ put_u32 (of_nat (length l)) @ b @ msgInstructions m) = Inr e"
    and m': "msgInstructions m' = e" by (auto simp: encrypt_success)
  from serialize_resized [OF assms(1,4) l(2)] obtain b' where b': "serialize_list T l' = Inr b'" "length b' = length b" by blast
  have l': "l' \<noteq> []" using assms(4) l(1) by auto
  obtain e' where e': "encryptStream C r' (CipherKeyCRC (Keys nd)) (CipherKey (Keys nd))
        (put_u32 (tl_container_id T) @ put_u32 (keySeqno (Keys nd) + 1) @ put_u32 (of_nat (length l')) @ b' @ msgInstructions mm) = Inr e'"
      "length e' = length e"
    using encryptStream_again [OF assms(2) e assms(3)] b'(2) assms(6)
    by (metis (no_types, opaque_lifting) add.assoc length_append length_put_le)
  let ?m2 = "mm\<lparr>msgSectionPubKey := node_key nd, msgInstructions := e'\<rparr>"
  have s: "snd (EncryptInstructionsMessage C T r' (Keys nd) mm l') = Inr ?m2"
    using l' b' e' by (simp add: encrypt_success)
  moreover have "fst (EncryptInstructionsMessage C T r' (Keys nd) mm l') = (Keys nd)\<lparr>keySeqno := keySeqno (Keys nd) + 1\<rparr>"
    using l' by (simp add: EncryptInstructionsMessage_def Let_def)
  ultimately have "encrypt_with C T r' nd mm l' = (bump nd, Inr ?m2)" by (simp add: encrypt_with_def split_def bump_def)
  with s m' e'(2) show ?thesis by simp
qed

lemma seal_onion:
  assumes laws: "tl_sized T" "key_decides C" "\<And>n. rnd n \<noteq> None"
    and "onion C T (take (length cs) (drop i (nodes tn))) ins cs" "i + length cs \<le> length (nodes tn)"
    and "list_all2 (\<lambda>c. list_all2 resized (List c)) cs ls"
  shows "\<exists>n' m cs'. seal C T rnd (zip [i..<i + length cs] ls) (tn, n) = ((set_nodes (bump_range i (length cs) (nodes tn)) tn, n'), Inr m) \<and>
    onion C T (take (length cs) (drop i (nodes tn))) (msgInstructions m) cs' \<and> map List cs' = ls \<and>
    map Seqno cs' = map (\<lambda>nd. keySeqno (Keys nd) + 1) (take (length cs) (drop i (nodes tn))) \<and>
    length (msgInstructions m) = length ins \<and> (cs \<noteq> [] \<longrightarrow> msgSectionPubKey m = node_key (nodes tn ! i)) \<and> msgPayload m = []"
  using assms(4-6)
proof (induction cs arbitrary: i ins ls)
  case Nil
  then show ?case by (simp add: empty_message_def)
next
  case (Cons c cs)
  have i: "i < length (nodes tn)" using Cons.prems(2) by simp
  let ?nd = "nodes tn ! i" and ?nds = "take (length cs) (drop (Suc i) (nodes tn))"
  have sl: "take (length (c # cs)) (drop i (nodes tn)) = ?nd # ?nds"
    using take_drop_Suc [OF i, of "length cs"] by (simp only: list.size(4) add_Suc_right add_0_right)
  from Cons.prems(1) [unfolded sl] obtain r m m' where c: "length (List c) < 2 ^ 32" "list_all short_lists (List c)"
    and e: "snd (EncryptInstructionsMessage C T r ((Keys ?nd)\<lparr>keySeqno := Seqno c - 1\<rparr>) m (List c)) = Inr m'"
    and ins: "ins = msgInstructions m'" and o: "onion C T ?nds (msgInstructions m) cs" by auto
  from Cons.prems(3) obtain l ls' where ls: "ls = l # ls'" "list_all2 resized (List c) l" "list_all2 (\<lambda>c. list_all2 resized (List c)) cs ls'"
    by (auto simp: list_all2_Cons1)
  have "Suc i + length cs \<le> length (nodes tn)" using Cons.prems(2) by simp
  from Cons.IH [OF o this ls(3)] obtain n' mm cs' where
      se: "seal C T rnd (zip [Suc i..<Suc i + length cs] ls') (tn, n) = ((set_nodes (bump_range (Suc i) (length cs) (nodes tn)) tn, n'), Inr mm)"
    and mm: "onion C T ?nds (msgInstructions mm) cs'" "map List cs' = ls'" "map Seqno cs' = map (\<lambda>nd. keySeqno (Keys nd) + 1) ?nds"
      "length (msgInstructions mm) = length (msgInstructions m)" "msgPayload mm = []" by blast
  from encrypt_again [OF laws(1,2,3) ls(2) e mm(4), of n'] obtain m2 where
      ew: "encrypt_with C T (rnd n') ?nd mm l = (bump ?nd, Inr m2)" and m2: "snd (EncryptInstructionsMessage C T (rnd n') (Keys ?nd) mm l) = Inr m2"
      "msgSectionPubKey m2 = node_key ?nd" "msgPayload m2 = []" "length (msgInstructions m2) = length ins"
    using mm(5) ins by auto
  let ?c = "\<lparr>Seqno = keySeqno (Keys ?nd) + 1, List = l\<rparr>"
  have "length l = length (List c)" using ls(2) by (simp add: list_all2_lengthD)
  then have "onion C T (?nd # ?nds) (msgInstructions m2) (?c # cs')"
    using m2(1) mm(1) c short_resized [OF ls(2)] by auto
  moreover have "seal C T rnd (zip [i..<i + length (c # cs)] ls) (tn, n) =
      ((set_nodes (bump_range i (length (c # cs)) (nodes tn)) tn, Suc n'), Inr m2)"
  proof -
    have len: "length (bump_range (Suc i) (length cs) (nodes tn)) = length (nodes tn)" by simp
    have "bump_range (Suc i) (length cs) (nodes tn) ! i = ?nd" using i by (simp del: length_append)
    moreover have "[i..<i + length (c # cs)] = i # [Suc i..<Suc i + length cs]" by (simp add: upt_conv_Cons del: upt_Suc)
    ultimately show ?thesis
      using se ew nodes_set_nodes [OF len] bump_range_Suc [OF i, of "length cs"] by (simp add: ls(1) del: length_append upt_Suc)
  qed
  moreover have "map List (?c # cs') = ls" using mm(2) ls(1) by simp
  ultimately show ?case unfolding sl using m2 mm(3) by (intro exI [of _ "Suc n'"] exI [of _ m2] exI [of _ "?c # cs'"]) simp
qed

text \<open>
  A whole chain: opened up to the layer whose instructions do not route any further, whose return
  messages are replaced, and sealed again.
\<close>

lemma reassemble_chain:
  assumes laws: "tl_laws T" "tl_sized T" "key_decides C" "\<And>n. rnd n \<noteq> None"
    and "distinct (map node_key (nodes tn))"
    and on: "onion C T (take (length cs) (drop i (nodes tn))) (msgInstructions msg) cs"
    and cs: "cs \<noteq> []" "i + length cs \<le> length (nodes tn)"
    and "\<forall>c \<in> set (butlast cs). list_ex is_route (List c) \<and> \<not> list_ex is_bind (List c)"
    and "\<And>f. L \<le> f \<Longrightarrow> open_list f C T rnd (i + length cs < length (nodes tn)) (List (last cs)) (tn, n) = ((tn1, n1), Inr (l', False))"
    and res: "list_all2 resized (List (last cs)) l'"
    and tn1: "map static (nodes tn1) = map static (nodes tn)"
    and key: "msgSectionPubKey msg = node_key (nodes tn ! i)"
  shows "\<exists>n2 m cs'. (\<forall>fuel \<ge> L + length cs.
      reassembleInstructions fuel C T rnd msg (tn, n) = ((set_nodes (bump_range i (length cs) (nodes tn1)) tn1, n2), Inr m)) \<and>
    onion C T (take (length cs) (drop i (nodes tn))) (msgInstructions m) cs' \<and> map List cs' = map List (butlast cs) @ [l'] \<and>
    map Seqno cs' = map (\<lambda>nd. keySeqno (Keys nd) + 1) (take (length cs) (drop i (nodes tn1))) \<and>
    length (msgInstructions m) = length (msgInstructions msg) \<and> msgSectionPubKey m = msgSectionPubKey msg \<and> msgPayload m = msgPayload msg"
proof -
  let ?ls = "map List (butlast cs) @ [l']"
  have o: "open_layers fuel C T rnd (node_key (nodes tn ! i)) (msgInstructions msg) (tn, n) = ((tn1, n1), Inr (zip [i..<i + length cs] ?ls))"
    if "L + length cs \<le> fuel" for fuel by (rule open_layers_onion [OF laws(1) assms(5) on cs assms(9,10) that])
  have st: "map static (take (length cs) (drop i (nodes tn1))) = map static (take (length cs) (drop i (nodes tn)))"
    using tn1 by (simp only: take_map [symmetric] drop_map [symmetric])
  have len: "i + length cs \<le> length (nodes tn1)" using cs(2) tn1 by (metis length_map)
  have "list_all2 (\<lambda>c. list_all2 resized (List c)) (butlast cs @ [last cs]) ?ls"
    using res by (intro list_all2_appendI) (auto simp: list_all2_map2 list.rel_refl)
  then have l2: "list_all2 (\<lambda>c. list_all2 resized (List c)) cs ?ls" using cs(1) by simp
  from seal_onion [where rnd = rnd and n = n1, OF laws(2-4) on [folded onion_static [OF st]] len l2] obtain n2 m cs' where
      se: "seal C T rnd (zip [i..<i + length cs] ?ls) (tn1, n1) = ((set_nodes (bump_range i (length cs) (nodes tn1)) tn1, n2), Inr m)"
    and m: "onion C T (take (length cs) (drop i (nodes tn1))) (msgInstructions m) cs'" "map List cs' = ?ls"
      "map Seqno cs' = map (\<lambda>nd. keySeqno (Keys nd) + 1) (take (length cs) (drop i (nodes tn1)))"
      "length (msgInstructions m) = length (msgInstructions msg)" "msgSectionPubKey m = node_key (nodes tn1 ! i)" using cs(1) by blast
  have i: "i < length (nodes tn)" using cs by (cases cs) auto
  have "static (nodes tn1 ! i) = static (nodes tn ! i)" using tn1 i by (metis length_map nth_map)
  then have "node_key (nodes tn1 ! i) = node_key (nodes tn ! i)" by (simp add: static_def) (metis encryption_keys.ext_inject encryption_keys.surjective encryption_keys.update_convs(3))
  with o se m key st onion_static [OF st] show ?thesis
    by (intro exI [of _ n2] exI [of _ "m\<lparr>msgPayload := msgPayload msg\<rparr>"] exI [of _ cs']) (simp del: drop_append take_append nth_append)
qed

section \<open>The message that configures the tunnel\<close>

lemma encrypt_with_bump:
  assumes "encrypt_with C T r nd msg ins = (nd', Inr m)"
  shows "nd' = bump nd"
  using assms by (auto simp: encrypt_with_def EncryptInstructionsMessage_def bump_def Let_def split: if_splits)

lemma layers_bump:
  assumes "\<And>i nd nds m nd' m'. body i nd nds m = (nd', Inr m') \<Longrightarrow> nd' = bump nd"
  shows "layers_loop body i nds = (nds', Inr msg) \<Longrightarrow> nds' = map bump nds"
  using assms by (induction nds arbitrary: i nds' msg) (auto split: prod.splits sum.splits)

lemma back_layer_bump: "back_layer H C T lid state i nd nds m = (nd', Inr m') \<Longrightarrow> nd' = bump nd"
  by (auto simp: back_layer_def buildRoute_def Let_def split: list.splits option.splits sum.splits dest: encrypt_with_bump)

lemma forward_layer_bump: "forward_layer H C T state gate i nd nds m = (nd', Inr m') \<Longrightarrow> nd' = bump nd"
  by (auto simp: forward_layer_def buildRoute_def split: list.splits option.splits sum.splits dest: encrypt_with_bump)

lemma routes_to_route: "routes_to H initial cur nxt ins \<Longrightarrow> list_ex is_route ins \<and> \<not> list_ex is_bind ins"
  by (auto simp: routes_to_def route_instructions_def is_route_def is_bind_def split: if_splits)

lemma serialize_inbound:
  assumes "tl_laws T" "tl_inbound T" "serialize_list T l = Inr b" "i \<in> set l"
  shows "inbound_len i \<le> length b"
  using assms(3,4)
proof (induction l arbitrary: b)
  case (Cons x l)
  then obtain bx bl where s: "serialize_instr T x = Inr bx" "serialize_list T l = Inr bl" "b = bx @ bl" by (auto split: sum.splits)
  show ?case
  proof (cases "i = x \<and> is_bind x")
    case True
    then have "\<not> is_cache x" by (simp add: is_bind_def is_cache_def)
    with s(1) obtain body where body: "tl_body T x = Some body" "bx = put_u32 (tl_opcode T (type_of x)) @ body"
      by (auto simp: serialize_leaf split: option.splits)
    then have "tl_parse_body T (type_of x) (body @ []) = Some (x, [])" using assms(1) \<open>\<not> is_cache x\<close> unfolding tl_laws_def by blast
    from tl_inboundD [OF this assms(2)] body(2) s(3) True show ?thesis by simp
  next
    case False
    then have "i \<in> set l \<or> inbound_len i = 0" using Cons.prems(2) by (cases i) (auto simp: is_bind_def inbound_len_def)
    then show ?thesis using Cons.IH [OF s(2)] s(3) by auto
  qed
qed simp

lemma onion_room:
  assumes "tl_laws T" "tl_inbound T"
  shows "onion C T nds ins cs \<Longrightarrow> cs \<noteq> [] \<Longrightarrow> i \<in> set (List (last cs)) \<Longrightarrow> inbound_len i + length cs \<le> length ins"
proof (induction nds arbitrary: ins cs)
  case (Cons nd nds)
  then obtain c cs' r m m' where c: "cs = c # cs'" and ins: "ins = msgInstructions m'" and o: "onion C T nds (msgInstructions m) cs'"
    and e: "snd (EncryptInstructionsMessage C T r ((Keys nd)\<lparr>keySeqno := Seqno c - 1\<rparr>) m (List c)) = Inr m'" by auto
  from e obtain b where b: "serialize_list T (List c) = Inr b" and len: "length b + length (msgInstructions m) < length ins"
    by (auto simp: encrypt_success ins dest!: encryptStream_length)
  show ?case
  proof (cases "cs' = []")
    case True
    then show ?thesis using serialize_inbound [OF assms b, of i] Cons.prems(3) c len by simp
  next
    case False
    then show ?thesis using Cons.IH [OF o] Cons.prems(3) c len by simp
  qed
qed simp

lemma open_list_gate:
  assumes "reassembleInstructions f C T rnd \<lparr>msgSectionPubKey = bk, msgInstructions = ret, msgPayload = []\<rparr> st = (st1, Inr m)"
  shows "open_list f C T rnd hasNext (gate_instructions H state adnl bk bid ret rc price) st =
    (st1, Inr (gate_instructions H state adnl bk bid (msgInstructions m) rc price, False))"
  using assms by (simp add: gate_instructions_def open_list_other is_bind_def is_route_def del: reassembleInstructions.simps)

lemma bump_both: "length nds = m + k \<Longrightarrow> bump_range 0 m (bump_range m k nds) = map bump nds"
  by (rule nth_equalityI) auto

lemma init_parts:
  assumes "prepareInitMessage H C T StateTypeConfiguring tn = (tn1, Inr msg)" "chainTo tn \<noteq> []"
  obtains bm adnl bid where "chainFrom tn \<noteq> []"
    "layers_loop (back_layer H C T (localID tn) StateTypeConfiguring) 0 (chainFrom tn) = (map bump (chainFrom tn), Inr bm)"
    "adnl_id H (ReceiverPubKey (Keys (hd (chainFrom tn)))) = Some adnl" "Uint32 (msgSectionPubKey bm) = Inr bid"
    "layers_loop (forward_layer H C T StateTypeConfiguring (\<lambda>g. gate_instructions H StateTypeConfiguring adnl (msgSectionPubKey bm) bid
       (msgInstructions bm) (SectionPubKey (payloadKeys tn)) (price_of g))) 0 (chainTo tn) = (map bump (chainTo tn), Inr msg)"
    "tn1 = tn\<lparr>chainTo := map bump (chainTo tn), chainFrom := map bump (chainFrom tn), tunnelState := StateTypeConfiguring\<rparr>"
proof -
  let ?st = StateTypeConfiguring
  have nst: "\<not> StateTypeOptimizingRoutes < ?st" by (simp add: StateTypeOptimizingRoutes_def StateTypeConfiguring_def)
  obtain cf bm where b: "layers_loop (back_layer H C T (localID tn) ?st) 0 (chainFrom tn) = (cf, Inr bm)" and cf: "chainFrom tn \<noteq> []"
    using assms nst by (auto simp: prepareInitMessage_def Let_def split: prod.splits sum.splits if_splits)
  obtain adnl bid where ai: "adnl_id H (ReceiverPubKey (Keys (hd (chainFrom tn)))) = Some adnl" "Uint32 (msgSectionPubKey bm) = Inr bid"
    using assms nst b cf by (auto simp: prepareInitMessage_def Let_def split: option.splits sum.splits)
  let ?g = "\<lambda>g. gate_instructions H ?st adnl (msgSectionPubKey bm) bid (msgInstructions bm) (SectionPubKey (payloadKeys tn)) (price_of g)"
  obtain ct where f: "layers_loop (forward_layer H C T ?st ?g) 0 (chainTo tn) = (ct, Inr msg)"
    and tn1: "tn1 = tn\<lparr>chainTo := ct, chainFrom := cf, tunnelState := ?st\<rparr>"
    using assms nst b cf ai by (auto simp: prepareInitMessage_def Let_def forward_loop_def split: prod.splits sum.splits)
  have "cf = map bump (chainFrom tn)" by (rule layers_bump [OF back_layer_bump b])
  moreover have "ct = map bump (chainTo tn)" by (rule layers_bump [OF forward_layer_bump f])
  ultimately show ?thesis using that b cf ai f tn1 by simp
qed

lemma sends_routes:
  assumes "length cs = length nds" "\<And>j. Suc j < length nds \<Longrightarrow> routes_to H initial (nds ! j) (nds ! Suc j) (List (cs ! j))" "c \<in> set (butlast cs)"
  shows "list_ex is_route (List c) \<and> \<not> list_ex is_bind (List c)"
proof -
  from assms(3) obtain j where "j < length (butlast cs)" "c = butlast cs ! j" by (metis in_set_conv_nth)
  then have "Suc j < length nds" "c = cs ! j" using assms(1) by (auto simp: nth_butlast)
  then show ?thesis using assms(2) routes_to_route by blast
qed

lemma back_onion:
  assumes "layers_loop (back_layer H C T lid StateTypeConfiguring) 0 nds = (nds', Inr msg)" "nds \<noteq> []"
  obtains cs where "onion C T nds (msgInstructions msg) cs" "map Seqno cs = map (\<lambda>nd. keySeqno (Keys nd) + 1) nds"
    "\<forall>c \<in> set (butlast cs). list_ex is_route (List c) \<and> \<not> list_ex is_bind (List c)"
    "\<not> list_ex is_route (List (last cs))" "\<not> list_ex is_bind (List (last cs))"
proof -
  from backward.layers_onion [OF assms(1)] obtain cs where o: "onion C T nds (msgInstructions msg) cs" "map Seqno cs = map (\<lambda>nd. keySeqno (Keys nd) + 1) nds"
    and s: "\<And>j. j < length nds \<Longrightarrow> back_sends H lid StateTypeConfiguring (nds ! j) (drop (Suc j) nds) (List (cs ! j))" by blast
  note len = onion_length [OF o(1)]
  have "\<forall>c \<in> set (butlast cs). list_ex is_route (List c) \<and> \<not> list_ex is_bind (List c)"
  proof (intro ballI sends_routes [OF len])
    fix j
    assume "Suc j < length nds"
    then show "routes_to H True (nds ! j) (nds ! Suc j) (List (cs ! j))"
      using s [of j] last_layer(2) [of j nds] by (simp add: back_sends_def)
  qed
  moreover have "last cs = cs ! (length nds - 1)" using len assms(2) by (metis last_conv_nth length_0_conv)
  then have "\<not> list_ex is_route (List (last cs)) \<and> \<not> list_ex is_bind (List (last cs))"
    using s [of "length nds - 1"] last_layer(1) [OF assms(2)] assms(2) by (simp add: back_sends_def is_route_def is_bind_def)
  ultimately show ?thesis using that o by blast
qed

lemma forward_onion:
  assumes "layers_loop (forward_layer H C T StateTypeConfiguring (\<lambda>g. gate_instructions H StateTypeConfiguring adnl bk bid bi rc (price_of g))) 0 nds
      = (nds', Inr msg)" "nds \<noteq> []"
  obtains cs where "onion C T nds (msgInstructions msg) cs" "map Seqno cs = map (\<lambda>nd. keySeqno (Keys nd) + 1) nds"
    "\<forall>c \<in> set (butlast cs). list_ex is_route (List c) \<and> \<not> list_ex is_bind (List c)"
    "List (last cs) = gate_instructions H StateTypeConfiguring adnl bk bid bi rc (price_of (last nds))"
proof -
  let ?g = "\<lambda>g. gate_instructions H StateTypeConfiguring adnl bk bid bi rc (price_of g)"
  from forward.layers_onion [OF assms(1)] obtain cs where o: "onion C T nds (msgInstructions msg) cs" "map Seqno cs = map (\<lambda>nd. keySeqno (Keys nd) + 1) nds"
    and s: "\<And>j. j < length nds \<Longrightarrow> forward_sends H StateTypeConfiguring ?g (nds ! j) (drop (Suc j) nds) (List (cs ! j))" by blast
  note len = onion_length [OF o(1)]
  have "\<forall>c \<in> set (butlast cs). list_ex is_route (List c) \<and> \<not> list_ex is_bind (List c)"
  proof (intro ballI sends_routes [OF len])
    fix j
    assume "Suc j < length nds"
    then show "routes_to H True (nds ! j) (nds ! Suc j) (List (cs ! j))"
      using s [of j] last_layer(2) [of j nds] by (simp add: forward_sends_def)
  qed
  moreover have "last cs = cs ! (length nds - 1)" "last nds = nds ! (length nds - 1)"
    using len assms(2) by (metis last_conv_nth length_0_conv)+
  then have "List (last cs) = ?g (last nds)"
    using s [of "length nds - 1"] last_layer(1) [OF assms(2)] assms(2) by (simp add: forward_sends_def)
  ultimately show ?thesis using that o by blast
qed

lemma onion_layers_le: "onion C T nds ins cs \<Longrightarrow> length cs \<le> length ins"
proof (induction nds arbitrary: ins cs)
  case (Cons nd nds)
  then obtain c cs' r m m' where c: "cs = c # cs'" and ins: "ins = msgInstructions m'" and o: "onion C T nds (msgInstructions m) cs'"
    and e: "snd (EncryptInstructionsMessage C T r ((Keys nd)\<lparr>keySeqno := Seqno c - 1\<rparr>) m (List c)) = Inr m'" by auto
  from e have "length (msgInstructions m) < length ins" by (auto simp: encrypt_success ins dest!: encryptStream_length)
  with Cons.IH [OF o] c show ?case by simp
qed simp

lemma bump_keys [simp]: "node_key (bump nd) = node_key nd" "keySeqno (Keys (bump nd)) = keySeqno (Keys nd) + 1"
  by (simp_all add: bump_def)

lemma onion_bump [simp]: "onion C T (map bump nds) ins cs = onion C T nds ins cs"
  by (rule onion_static) simp

lemma reassemble_return:
  assumes laws: "tl_laws T" "tl_sized T" "key_decides C" "\<And>n. rnd n \<noteq> None"
    and d: "distinct (map node_key (nodes t))" and on: "onion C T (chainFrom t) (msgInstructions msg) cs" and ne: "cs \<noteq> []"
    and routes: "\<forall>c \<in> set (butlast cs). list_ex is_route (List c) \<and> \<not> list_ex is_bind (List c)"
    and last: "\<not> list_ex is_route (List (last cs))" "\<not> list_ex is_bind (List (last cs))"
    and key: "msgSectionPubKey msg = node_key (hd (chainFrom t))"
  shows "\<exists>n2 m cs'. (\<forall>fuel \<ge> length cs. reassembleInstructions fuel C T rnd msg (t, n) =
      ((set_nodes (bump_range (length (chainTo t)) (length (chainFrom t)) (nodes t)) t, n2), Inr m)) \<and>
    onion C T (chainFrom t) (msgInstructions m) cs' \<and> map List cs' = map List cs \<and>
    map Seqno cs' = map (\<lambda>nd. keySeqno (Keys nd) + 1) (chainFrom t) \<and> length (msgInstructions m) = length (msgInstructions msg)"
proof -
  let ?m = "length (chainTo t)"
  have len: "length cs = length (chainFrom t)" by (rule onion_length [OF on])
  have sl: "take (length cs) (drop ?m (nodes t)) = chainFrom t" by (simp add: len)
  have on': "onion C T (take (length cs) (drop ?m (nodes t))) (msgInstructions msg) cs" unfolding sl by (rule on)
  have k: "msgSectionPubKey msg = node_key (nodes t ! ?m)" using key len ne by (cases "chainFrom t") auto
  have room: "?m + length cs \<le> length (nodes t)" by (simp add: len)
  have op: "open_list f C T rnd (?m + length cs < length (nodes t)) (List (last cs)) (t, n) = ((t, n), Inr (List (last cs), False))"
    for f by (simp add: open_list_plain last)
  have ls: "map List (butlast cs) @ [List (last cs)] = map List cs" using ne by (metis append_butlast_last_id list.simps(8,9) map_append)
  note ch = reassemble_chain [where L = 0 and i = ?m and n = n and rnd = rnd, OF laws d on' ne room routes op resized_refl refl k]
  then show ?thesis unfolding sl ls by (auto simp: len)
qed

lemma resized_gate: "length r = length r' \<Longrightarrow>
    list_all2 resized (gate_instructions H st adnl bk bid r rc p) (gate_instructions H st adnl bk bid r' rc p)"
  by (simp add: gate_instructions_def resized_def)

lemma next_seqno:
  assumes "map Seqno cs = map (\<lambda>nd. keySeqno (Keys nd) + 1) nds" "map Seqno cs' = map (\<lambda>nd. keySeqno (Keys nd) + 1) (map bump nds)"
  shows "map Seqno cs' = map (\<lambda>c. Seqno c + 1) cs"
proof -
  have "map (\<lambda>c. Seqno c + 1) cs = map (\<lambda>s. s + 1) (map Seqno cs)" by simp
  then show ?thesis unfolding assms by simp
qed

text \<open>Both chains: the gate, the last node of the outbound chain, is given the return message.\<close>

lemma reassemble_route:
  assumes laws: "tl_laws T" "tl_inbound T" "tl_sized T" "key_decides C" "\<And>n. rnd n \<noteq> None"
    and d: "distinct (map node_key (nodes t))" and ne: "chainFrom t \<noteq> []" "chainTo t \<noteq> []"
    and b: "onion C T (chainFrom t) ret bcs" "\<forall>c \<in> set (butlast bcs). list_ex is_route (List c) \<and> \<not> list_ex is_bind (List c)"
      "\<not> list_ex is_route (List (last bcs))" "\<not> list_ex is_bind (List (last bcs))"
    and c: "onion C T (chainTo t) (msgInstructions msg) cs" "\<forall>c \<in> set (butlast cs). list_ex is_route (List c) \<and> \<not> list_ex is_bind (List c)"
      "List (last cs) = gate_instructions H st adnl (node_key (hd (chainFrom t))) bid ret rc p"
    and key: "msgSectionPubKey msg = node_key (hd (chainTo t))"
  shows "\<exists>n' m cs' bcs' ret'. ReassembleInstructions C T rnd msg (t, n) = ((set_nodes (map bump (nodes t)) t, n'), Inr m) \<and>
    length (msgInstructions m) = length (msgInstructions msg) \<and> msgSectionPubKey m = msgSectionPubKey msg \<and>
    onion C T (chainTo t) (msgInstructions m) cs' \<and> map List (butlast cs') = map List (butlast cs) \<and>
    List (last cs') = gate_instructions H st adnl (node_key (hd (chainFrom t))) bid ret' rc p \<and>
    onion C T (chainFrom t) ret' bcs' \<and> map List bcs' = map List bcs \<and>
    map Seqno cs' = map (\<lambda>nd. keySeqno (Keys nd) + 1) (chainTo t) \<and> map Seqno bcs' = map (\<lambda>nd. keySeqno (Keys nd) + 1) (chainFrom t)"
proof -
  define gate where "gate = (\<lambda>r. gate_instructions H st adnl (node_key (hd (chainFrom t))) bid r rc p)"
  let ?m = "length (chainTo t)" and ?k = "length (chainFrom t)"
  let ?rmsg = "\<lparr>msgSectionPubKey = node_key (hd (chainFrom t)), msgInstructions = ret, msgPayload = []\<rparr>"
  note len = onion_length [OF b(1)] onion_length [OF c(1)]
  have nn: "bcs \<noteq> []" "cs \<noteq> []" using len ne by auto
  define t2 where "t2 = set_nodes (bump_range ?m ?k (nodes t)) t"
  have bl: "length (bump_range ?m ?k (nodes t)) = length (nodes t)" by (rule bump_range_props(1))
  note n2 = nodes_set_nodes [OF bl, folded t2_def]
  have "onion C T (chainFrom t) (msgInstructions ?rmsg) bcs" using b(1) by simp
  from reassemble_return [where n = n and rnd = rnd, OF laws(1,3-5) d this nn(1) b(2-4)] obtain n2 bm bcs' where
      inner: "\<And>fuel. length bcs \<le> fuel \<Longrightarrow> reassembleInstructions fuel C T rnd ?rmsg (t, n) = ((t2, n2), Inr bm)"
      "onion C T (chainFrom t) (msgInstructions bm) bcs'" "map List bcs' = map List bcs" "length ret = length (msgInstructions bm)"
      "map Seqno bcs' = map (\<lambda>nd. keySeqno (Keys nd) + 1) (chainFrom t)" by (auto simp: t2_def)
  have op: "open_list f C T rnd (0 + length cs < length (nodes t)) (List (last cs)) (t, n) = ((t2, n2), Inr (gate (msgInstructions bm), False))"
    if "length bcs \<le> f" for f unfolding c(3) gate_def by (rule open_list_gate [OF inner(1) [OF that]])
  have sl: "take (length cs) (drop 0 (nodes t)) = chainTo t" "take (length cs) (drop 0 (nodes t2)) = chainTo t"
    unfolding n2(1) by (auto simp: len nth_append intro!: nth_equalityI)
  have on: "onion C T (take (length cs) (drop 0 (nodes t))) (msgInstructions msg) cs" unfolding sl by (rule c(1))
  have res: "list_all2 resized (List (last cs)) (gate (msgInstructions bm))" unfolding c(3) gate_def by (rule resized_gate [OF inner(4)])
  have room: "0 + length cs \<le> length (nodes t)" by (simp add: len)
  have st: "map static (nodes t2) = map static (nodes t)" by (simp only: n2 bump_range_props)
  have key0: "msgSectionPubKey msg = node_key (nodes t ! 0)" using key ne(2) by (simp add: nth_append hd_conv_nth)
  from reassemble_chain [where L = "length bcs" and i = 0 and n = n and rnd = rnd, OF laws(1,3-5) d on nn(2) room c(2) op res st key0]
  obtain n3 m cs' where outer: "\<And>fuel. length bcs + length cs \<le> fuel \<Longrightarrow>
        reassembleInstructions fuel C T rnd msg (t, n) = ((set_nodes (bump_range 0 ?m (nodes t2)) t2, n3), Inr m)"
      "onion C T (chainTo t) (msgInstructions m) cs'" "map List cs' = map List (butlast cs) @ [gate (msgInstructions bm)]"
      "map Seqno cs' = map (\<lambda>nd. keySeqno (Keys nd) + 1) (chainTo t)"
      "length (msgInstructions m) = length (msgInstructions msg)" "msgSectionPubKey m = msgSectionPubKey msg"
    unfolding sl by (auto simp: len)
  have "length bcs + length cs \<le> Suc (length (msgInstructions msg))"
    using onion_layers_le [OF b(1)] onion_room [OF laws(1,2) c(1) nn(2), unfolded c(3), of "gate ret ! 1"]
    by (simp add: gate_def gate_instructions_def inbound_len_def)
  moreover have "set_nodes (bump_range 0 ?m (nodes t2)) t2 = set_nodes (map bump (nodes t)) t"
    unfolding n2 by (simp add: bump_both)
  ultimately have run: "ReassembleInstructions C T rnd msg (t, n) = ((set_nodes (map bump (nodes t)) t, n3), Inr m)"
    using outer(1) [of "Suc (length (msgInstructions msg))"] outer(5) by (simp add: ReassembleInstructions_def del: reassembleInstructions.simps)
  have "cs' \<noteq> []" using outer(3) by auto
  then have "map List cs' = map List (butlast cs') @ [List (last cs')]" by (metis append_butlast_last_id list.simps(8,9) map_append)
  with outer(3) have ls: "map List (butlast cs') = map List (butlast cs)" "List (last cs') = gate (msgInstructions bm)" by simp_all
  show ?thesis
    by (rule exI [of _ n3], rule exI [of _ m], rule exI [of _ cs'], rule exI [of _ bcs'], rule exI [of _ "msgInstructions bm"])
      (intro conjI run outer(2,4,5,6) ls [unfolded gate_def] inner(2,3,5))
qed


lemma dec_bytes_le: "dec_bytes bs = Some (x, r) \<Longrightarrow> length x + length r \<le> length bs"
  by (induction bs arbitrary: x r rule: dec_bytes.induct) (fastforce split: if_splits list.splits option.splits)+

lemma case_list_Some: "(case xs of [] \<Rightarrow> None | x # ys \<Rightarrow> f x ys) = Some v \<longleftrightarrow> (\<exists>x ys. xs = x # ys \<and> f x ys = Some v)"
  by (cases xs) simp_all

lemma length_enc_bytes: "length (enc_bytes bs) = 2 * length bs + 1"
  by (induction bs) simp_all

lemma full_tl_inbound: "tl_inbound full_tl"
proof -
  have "inbound_len ins \<le> length data" if p: "full_parse ty data = Some (ins, rest)" for ty data ins rest
  proof (cases "ty = TBindOut")
    case True
    with p obtain a r1 k r2 i r3 rc p' where d: "dec_bytes data = Some (a, r1)" "dec_bytes r1 = Some (k, r2)" "dec_bytes r2 = Some (i, r3)"
        and "ins = BindOutInstruction a k i rc p'"
      by (auto simp: full_parse_def bind_eq_Some_conv)
    with d [THEN dec_bytes_le] show ?thesis by (simp add: inbound_len_def)
  next
    case False
    with p have "type_of ins \<noteq> TBindOut"
      by (auto simp: full_parse_def bind_eq_Some_conv case_list_Some split: instr_type.split_asm if_splits)
    then show ?thesis by (cases ins) (simp_all add: inbound_len_def)
  qed
  then show ?thesis by (simp add: tl_inbound_def full_tl_def)
qed

lemma full_tl_sized: "tl_sized full_tl"
  by (simp add: tl_sized_def full_tl_def length_enc_bytes)

lemma demo_key_decides: "key_decides demo_crypto"
  by (simp add: key_decides_def demo_crypto_def)


end
