(* ===== verification/Tunnel_Payments.thy ===== *)
theory Tunnel_Payments
  imports Out_Tunnel_Safety
begin

unbundle bit_operations_syntax

text \<open>
  How the initiator pays the nodes of its tunnel: virtual channels, the control message that carries
  payments (\<open>prepareTunnelControlMessage\<close>), the loop that sends control messages, and the total
  spent (\<open>CalcPaidAmount\<close>), all of \<open>tunnel/regularOutTunnel.go\<close>. The payment service, the channel
  keys and the signatures are parameters.
\<close>

section \<open>The payment service\<close>

text \<open>
  The answers of the service are functions of the calls made so far. \<open>virtual_status\<close> is the answer
  that ends the polling of a new channel: \<open>None\<close> for an error, else whether the channel is active.
  Times are in nanoseconds.
\<close>

record pay_host = host +
  nano_now :: int
  min_safe_ttl :: int
  channel_key :: "ext_call list \<Rightarrow> bytes option"
  generate_tunnel :: "ext_call list \<Rightarrow> bool"
  open_virtual :: "ext_call list \<Rightarrow> bool"
  virtual_status :: "ext_call list \<Rightarrow> bool option"
  sign_state :: "bytes \<Rightarrow> int \<Rightarrow> vc_state"
  state_cell :: "vc_state \<Rightarrow> bytes option"

definition ChannelCapacityForNumPayments :: int where "ChannelCapacityForNumPayments = 30"
definition hour :: int where "hour = 3600 * 1000000000"

definition openVirtualChannel ::
  "pay_host \<Rightarrow> crypto \<Rightarrow> payer \<Rightarrow> int \<Rightarrow> 'a gateway_scheme \<Rightarrow> 'a gateway_scheme \<times> payer \<times> (go_error + virtual_payment_channel)" where
  "openVirtualChannel P C p capacity s =
     (case buildTunnelPaymentsChain (nano_now P) (PaymentTunnel p) capacity hour (min_safe_ttl P) of
        Inl e \<Rightarrow> (s, p, Inl e)
      | Inr tunChain \<Rightarrow>
          (case channel_key P (outputs s) of
             None \<Rightarrow> (s, p, Inl ErrRand)
           | Some key \<Rightarrow>
               if \<not> generate_tunnel P (outputs s) then (s, p, Inl (ErrTunnel ErrGenerateTunnel))
               else let s1 = emit (CallOpenVirtual (PublicKey C key) (map Capacity tunChain)) s
                    in if \<not> open_virtual P (outputs s1) then (s1, p, Inl (ErrTunnel ErrOpenChannel))
                       else case virtual_status P (outputs s1) of
                         None \<Rightarrow> (s1, p, Inl ErrChannelMeta)
                       | Some False \<Rightarrow> (s1, p, Inl (ErrTunnel ErrChannelStatus))
                       | Some True \<Rightarrow>
                           (s1, p\<lparr>PaidChannelFee := Some ((case PaidChannelFee p of None \<Rightarrow> 0 | Some f \<Rightarrow> f) + Fee (hd tunChain))\<rparr>,
                            Inr \<lparr>vcKey = key, LastAmount = 0, vcCapacity = Capacity (last tunChain),
                                 SafeDeadline = Deadline (last tunChain) - min_safe_ttl P\<rparr>)))"

section \<open>Paying one node\<close>

text \<open>What the code's mutation closure captures.\<close>

record new_payment =
  npChannel :: virtual_payment_channel
  npPayFor :: int
  npAmount :: int
  npInstruction :: instruction
  npFinal :: bool

definition apply_payment :: "u64 \<Rightarrow> new_payment \<Rightarrow> payer \<Rightarrow> payer" where
  "apply_payment seqno np p =
     p\<lparr>PaidPackets := i64 (PaidPackets p + npPayFor np), LatestPacketsPaid := npPayFor np,
       LatestInstruction := Some (npInstruction np), LatestChannelDeadline := SafeDeadline (npChannel np),
       LatestPaidOnSeqno := seqno,
       CurrentChannel := (if npFinal np then None else Some ((npChannel np)\<lparr>LastAmount := npAmount np\<rparr>))\<rparr>"

definition purpose_of :: "nat \<Rightarrow> nat \<Rightarrow> u32 \<Rightarrow> u64" where
  "purpose_of nTo i routeId =
     (if Suc i = nTo then push_bit 32 PaymentPurposeOut else push_bit 32 PaymentPurposeRoute OR ucast routeId)"

definition balance_of :: "out_tunnel \<Rightarrow> nat \<Rightarrow> payer \<Rightarrow> int" where
  "balance_of tn i p =
     (let nTo = length (chainTo tn); cOut = packetsConsumedOut tn; cIn = packetsConsumedIn tn;
          consumed = (if nTo \<le> i then cIn else if Suc i = nTo then (if cOut < cIn then cIn else cOut) else cOut)
      in i64 (PaidPackets p - consumed))"

text \<open>The channel to pay from, opened when there is none or its deadline has passed.\<close>

definition current_channel ::
  "pay_host \<Rightarrow> crypto \<Rightarrow> out_tunnel \<Rightarrow> payer \<Rightarrow> 'a gateway_scheme \<Rightarrow> 'a gateway_scheme \<times> payer \<times> (go_error + virtual_payment_channel)" where
  "current_channel P C tn p s =
     (let fresh = (case openVirtualChannel P C p (packetsToPrepay tn * uint (PricePerPacket p) * ChannelCapacityForNumPayments) s of
                     (s1, p1, Inl e) \<Rightarrow> (s1, p1\<lparr>CurrentChannel := None\<rparr>, Inl e)
                   | (s1, p1, Inr ch) \<Rightarrow> (s1, p1\<lparr>CurrentChannel := Some ch\<rparr>, Inr ch))
      in case CurrentChannel p of
           None \<Rightarrow> fresh
         | Some ch \<Rightarrow> if SafeDeadline ch < nano_now P then fresh else (s, p, Inr ch))"

definition pay_from ::
  "pay_host \<Rightarrow> crypto \<Rightarrow> env \<Rightarrow> bool \<Rightarrow> out_tunnel \<Rightarrow> nat \<Rightarrow> u32 \<Rightarrow> int \<Rightarrow> virtual_payment_channel \<Rightarrow> payer \<Rightarrow> 'a gateway_scheme
   \<Rightarrow> 'a gateway_scheme \<times> payer \<times> (go_error + instruction list \<times> new_payment option)" where
  "pay_from P C E force tn i routeId prepay ch p s =
     (let price = uint (PricePerPacket p); left = vcCapacity ch - LastAmount ch;
          whole = i64 (left div price); isFinal = (\<not> prepay < whole); payFor = (if prepay < whole then prepay else whole);
          stateAmount = LastAmount ch + payFor * price; st = sign_state P (vcKey ch) stateAmount
      in case state_cell P st of
           None \<Rightarrow> (s, p, Inl ErrStateCell)
         | Some pcs \<Rightarrow>
             let pub = PublicKey C (vcKey ch); s1 = emit (CallAddResolve pub st) s
             in if \<not> add_resolve_ok E (outputs s1) then (s1, p, Inl ErrResolve)
                else let pi = PaymentInstruction pub pcs (purpose_of (length (chainTo tn)) i routeId) isFinal;
                         previous = (case LatestInstruction p of
                            Some ins \<Rightarrow> if force \<and> nano_now P < LatestChannelDeadline p \<and> LatestChannelDeadline p \<noteq> SafeDeadline ch
                                        then [ins] else []
                          | None \<Rightarrow> [])
                     in (s1, p, Inr (previous @ [pi], Some \<lparr>npChannel = ch, npPayFor = payFor, npAmount = stateAmount,
                                                            npInstruction = pi, npFinal = isFinal\<rparr>)))"

definition pay_new ::
  "pay_host \<Rightarrow> crypto \<Rightarrow> env \<Rightarrow> bool \<Rightarrow> out_tunnel \<Rightarrow> nat \<Rightarrow> u32 \<Rightarrow> payer \<Rightarrow> 'a gateway_scheme
   \<Rightarrow> 'a gateway_scheme \<times> payer \<times> (go_error + instruction list \<times> new_payment option)" where
  "pay_new P C E force tn i routeId p s =
     (let balance = balance_of tn i p
      in if balance \<le> half (packetsToPrepay tn) \<or> force
         then let prepay = (if i64 (packetsToPrepay tn - balance) < 0 then 0 else i64 (packetsToPrepay tn - balance))
              in case current_channel P C tn p s of
                   (s1, p1, Inl e) \<Rightarrow> (s1, p1, Inl e)
                 | (s1, p1, Inr ch) \<Rightarrow> pay_from P C E force tn i routeId prepay ch p1 s1
         else (s, p, Inr ([], None)))"

definition pay_node ::
  "pay_host \<Rightarrow> crypto \<Rightarrow> env \<Rightarrow> bool \<Rightarrow> out_tunnel \<Rightarrow> nat \<Rightarrow> u32 \<Rightarrow> payer \<Rightarrow> 'a gateway_scheme
   \<Rightarrow> 'a gateway_scheme \<times> payer \<times> (go_error + instruction list \<times> new_payment option)" where
  "pay_node P C E force tn i routeId p s =
     (case LatestInstruction p of
        Some ins \<Rightarrow>
          if controlPaidSeqnoReceived tn < LatestPaidOnSeqno p
          then if nano_now P < LatestChannelDeadline p then (s, p, Inr ([ins], None))
               else pay_new P C E force tn i routeId
                      (p\<lparr>LatestInstruction := None, PaidPackets := i64 (PaidPackets p - LatestPacketsPaid p)\<rparr>) s
          else pay_new P C E force tn i routeId p s
      | None \<Rightarrow> pay_new P C E force tn i routeId p s)"

section \<open>The control message\<close>

definition control_node ::
  "pay_host \<Rightarrow> crypto \<Rightarrow> tlcodec \<Rightarrow> env \<Rightarrow> bool \<Rightarrow> bool \<Rightarrow> out_tunnel \<Rightarrow> nat \<Rightarrow> section_info \<Rightarrow> section_info list \<Rightarrow> encrypted_message
   \<Rightarrow> 'a gateway_scheme \<Rightarrow> 'a gateway_scheme \<times> section_info \<times> (go_error + encrypted_message \<times> new_payment option)" where
  "control_node P C T E withPayments force tn i cur nds msg s =
     (case nds of
        [] \<Rightarrow>
          (case encrypt_with C T (layer_nonce P False i) cur msg
                  [DeliverInitiatorInstruction (localID tn) (PingMeta (controlSeqno tn + 1) withPayments)] of
             (cur', Inl e) \<Rightarrow> (s, cur', Inl e)
           | (cur', Inr m) \<Rightarrow> (s, cur', Inr (m, None)))
      | nxt # _ \<Rightarrow>
          (case Uint32 (SectionPubKey (Keys nxt)) of
             Inl e \<Rightarrow> (s, cur, Inl e)
           | Inr routeId \<Rightarrow>
               (case (case PaymentInfo cur of
                        Some p \<Rightarrow>
                          if withPayments \<and> 0 < PricePerPacket p
                          then (case pay_node P C E force tn i routeId p s of (s1, p1, res) \<Rightarrow> (s1, cur\<lparr>PaymentInfo := Some p1\<rparr>, res))
                          else (s, cur, Inr ([], None))
                      | None \<Rightarrow> (s, cur, Inr ([], None))) of
                  (s1, cur1, Inl e) \<Rightarrow> (s1, cur1, Inl e)
                | (s1, cur1, Inr (instructions, np)) \<Rightarrow>
                    (case encrypt_with C T (layer_nonce P False i) cur1 msg (instructions @ [RouteInstruction (NOT routeId)]) of
                       (cur2, Inl e) \<Rightarrow> (s1, cur2, Inl e)
                     | (cur2, Inr m) \<Rightarrow> (s1, cur2, Inr (m, np))))))"

primrec control_loop ::
  "pay_host \<Rightarrow> crypto \<Rightarrow> tlcodec \<Rightarrow> env \<Rightarrow> bool \<Rightarrow> bool \<Rightarrow> out_tunnel \<Rightarrow> nat \<Rightarrow> section_info list \<Rightarrow> 'a gateway_scheme
   \<Rightarrow> 'a gateway_scheme \<times> section_info list \<times> (go_error + encrypted_message \<times> new_payment option list)" where
  "control_loop P C T E wp force tn i [] s = (s, [], Inr (empty_message, []))"
| "control_loop P C T E wp force tn i (nd # nds) s =
     (case control_loop P C T E wp force tn (Suc i) nds s of
        (s1, nds', Inl e) \<Rightarrow> (s1, nd # nds', Inl e)
      | (s1, nds', Inr (msg, nps)) \<Rightarrow>
          (case control_node P C T E wp force tn i nd nds msg s1 of
             (s2, nd', Inl e) \<Rightarrow> (s2, nd' # nds', Inl e)
           | (s2, nd', Inr (m, np)) \<Rightarrow> (s2, nd' # nds', Inr (m, np # nps))))"

definition settle_node :: "u64 \<Rightarrow> section_info \<Rightarrow> new_payment option \<Rightarrow> section_info" where
  "settle_node seqno nd np =
     (case np of None \<Rightarrow> nd | Some x \<Rightarrow> nd\<lparr>PaymentInfo := map_option (apply_payment seqno x) (PaymentInfo nd)\<rparr>)"

text \<open>The packets every node of each direction is paid for; the last node is the initiator itself.\<close>

definition min_paid :: "nat \<Rightarrow> section_info list \<Rightarrow> int \<times> int" where
  "min_paid nTo nds =
     foldl (\<lambda>(minIn, minOut) (i, nd).
         case PaymentInfo nd of
           None \<Rightarrow> (minIn, minOut)
         | Some p \<Rightarrow>
             if nTo \<le> i then (min minIn (PaidPackets p), minOut)
             else if Suc i = nTo then (min minIn (PaidPackets p), min minOut (PaidPackets p))
             else (minIn, min minOut (PaidPackets p)))
       (MaxInt64, MaxInt64) (zip [0..<length nds - 1] nds)"

definition prepareTunnelControlMessage ::
  "pay_host \<Rightarrow> crypto \<Rightarrow> tlcodec \<Rightarrow> env \<Rightarrow> bool \<Rightarrow> bool \<Rightarrow> ptr \<Rightarrow> 'a tun_gateway_scheme
   \<Rightarrow> 'a tun_gateway_scheme \<times> (go_error + encrypted_message)" where
  "prepareTunnelControlMessage P C T E withPayments force t s =
     (let tn = tuns s ! t
      in case control_loop P C T E withPayments force tn 0 (chainTo tn @ chainFrom tn) s of
           (s1, nds, Inl e) \<Rightarrow> (upd_tun t (\<lambda>_. set_nodes nds tn) s1, Inl e)
         | (s1, nds, Inr (msg, nps)) \<Rightarrow>
             let seqno = controlSeqno tn + 1; nds' = map2 (settle_node seqno) nds nps;
                 (minIn, minOut) = min_paid (length (chainTo tn)) nds'
             in (upd_tun t (\<lambda>_. (set_nodes nds' tn)\<lparr>controlSeqno := seqno, packetsMinPaidIn := minIn, packetsMinPaidOut := minOut\<rparr>) s1,
                 Inr msg))"

section \<open>The total spent\<close>

text \<open>
  Amounts are summed in nano units per coin symbol. The coin configuration of the payment service
  (symbol and decimals of a jetton or extra currency) and the range \<open>tlb.MustFromNano\<close> accepts
  without a panic are parameters.
\<close>

record coin_service =
  ResolveCoinConfig :: "bytes option \<Rightarrow> u32 \<Rightarrow> (string \<times> nat) option"
  nano_fits :: "int \<Rightarrow> nat \<Rightarrow> bool"

primrec paid_loop :: "coin_service \<Rightarrow> section_info list \<Rightarrow> (string \<rightharpoonup> int) \<Rightarrow> go_error + (string \<rightharpoonup> int)" where
  "paid_loop K [] paidAmount = Inr paidAmount"
| "paid_loop K (nd # nds) paidAmount =
     (case PaymentInfo nd of
        None \<Rightarrow> paid_loop K nds paidAmount
      | Some p \<Rightarrow>
          (case ResolveCoinConfig K (JettonMaster p) (ExtraCurrencyID p) of
             None \<Rightarrow> paid_loop K nds paidAmount
           | Some (Symbol, Decimals) \<Rightarrow>
               (case PaidChannelFee p of
                  None \<Rightarrow> Inl PanicNil
                | Some fee \<Rightarrow>
                    let total = (case paidAmount Symbol of None \<Rightarrow> 0 | Some a \<Rightarrow> a) + (PaidPackets p * uint (PricePerPacket p) + fee)
                    in if nano_fits K total Decimals then paid_loop K nds (paidAmount(Symbol \<mapsto> total)) else Inl PanicMust)))"

definition CalcPaidAmount :: "coin_service \<Rightarrow> out_tunnel \<Rightarrow> go_error + (string \<rightharpoonup> int)" where
  "CalcPaidAmount K tn = paid_loop K (chainTo tn @ chainFrom tn) Map.empty"

section \<open>The control sender\<close>

text \<open>Whether payments may be attached: the tunnel works and not too many packets were lost.\<close>

definition attach_payments :: "out_tunnel \<Rightarrow> bool" where
  "attach_payments tn =
     (tunnelState tn = StateTypeOptimized \<and> usePayments tn \<and> 0 < controlSeqnoReceived tn \<and>
      \<not> packetsRecv tn + packetsRecv tn div 3 + 5000 < packetsRecvPaidConsumed tn)"

text \<open>One pass of the loop of \<open>startControlSender\<close>, after the signal or the timer.\<close>

definition control_pass ::
  "pay_host \<Rightarrow> crypto \<Rightarrow> tlcodec \<Rightarrow> env \<Rightarrow> ptr \<Rightarrow> 'a tun_gateway_scheme \<Rightarrow> 'a tun_gateway_scheme" where
  "control_pass P C T E t s0 =
     (let s = upd_tun t (\<lambda>tn. tn\<lparr>controlSignal := False\<rparr>) s0; tn = tuns s ! t
      in if tunClosed tn \<or> wantDestroy tn then s
         else if tunnelState tn = StateTypeConfiguring
         then fst (send_init (host.truncate P) C T E StateTypeConfiguring t s)
         else if tunnelState tn = StateTypeOptimized \<and> 15 < now E - lastFullyCheckedAt tn
         then upd_tun t (\<lambda>q. requestControlMessage (q\<lparr>paymentsConfirmed := (if usePayments q then False else paymentsConfirmed q),
                               tunnelState := StateTypeConfiguring\<rparr>)) s
         else case prepareTunnelControlMessage P C T E (attach_payments tn) (\<not> paymentsConfirmed tn) t s of
                (s1, Inl e) \<Rightarrow> s1
              | (s1, Inr msg) \<Rightarrow> fst (SendCustomMessage E (tunPeer tn) (MsgEncrypted msg) s1))"

end
