(* ===== verification/Tunnel_Payments_Safety.thy ===== *)
theory Tunnel_Payments_Safety
  imports Tunnel_Payments
begin

text \<open>
  What the initiator's payments guarantee: a control message never signs an amount beyond the
  capacity of the channel it is paid from, counts exactly the packets that are paid for, and changes
  nothing of the money spent when it fails; and what \<open>CalcPaidAmount\<close> adds up.
\<close>

section \<open>One node\<close>

text \<open>
  A channel fits when its last signed amount is within its capacity, and the capacity within what
  was asked for, so that the number of packets it still covers is an \<open>int64\<close>.
\<close>

definition channel_fits :: "int \<Rightarrow> payer \<Rightarrow> virtual_payment_channel \<Rightarrow> bool" where
  "channel_fits n p ch \<longleftrightarrow> 0 \<le> LastAmount ch \<and> LastAmount ch \<le> vcCapacity ch \<and>
     vcCapacity ch \<le> n * uint (PricePerPacket p) * ChannelCapacityForNumPayments"

definition payer_ok :: "int \<Rightarrow> payer \<Rightarrow> bool" where
  "payer_ok n p \<longleftrightarrow> (\<forall>ch \<in> set_option (CurrentChannel p). channel_fits n p ch)"

text \<open>A channel opened by one of the given calls, nothing signed on it yet.\<close>

definition opened_by :: "crypto \<Rightarrow> ext_call list \<Rightarrow> virtual_payment_channel \<Rightarrow> bool" where
  "opened_by C calls ch \<longleftrightarrow> LastAmount ch = 0 \<and>
     (\<exists>caps. CallOpenVirtual (PublicKey C (vcKey ch)) caps \<in> set calls \<and> caps \<noteq> [] \<and> last caps = vcCapacity ch)"

text \<open>A signed state handed to the payment service is covered by the channel it spends from.\<close>

definition covered :: "crypto \<Rightarrow> (virtual_payment_channel \<Rightarrow> bool) \<Rightarrow> ext_call list \<Rightarrow> ext_call \<Rightarrow> bool" where
  "covered C known calls c \<longleftrightarrow> (\<forall>pub st. c = CallAddResolve pub st \<longrightarrow>
     (\<exists>ch. pub = PublicKey C (vcKey ch) \<and> LastAmount ch \<le> Amount st \<and> Amount st \<le> vcCapacity ch \<and> (known ch \<or> opened_by C calls ch)))"

lemma covered_other [simp]: "covered C known calls (CallOpenVirtual pub caps)"
  by (simp add: covered_def)

lemma opened_by_mono: "opened_by C calls ch \<Longrightarrow> set calls \<subseteq> set calls' \<Longrightarrow> opened_by C calls' ch"
  by (auto simp: opened_by_def)

lemma covered_mono:
  assumes "covered C known calls c" "set calls \<subseteq> set calls'" "\<And>ch. known ch \<Longrightarrow> known' ch"
  shows "covered C known' calls' c"
  using assms(1) opened_by_mono [OF _ assms(2)] assms(3) unfolding covered_def by blast

text \<open>The parts of a payer that paying never changes.\<close>

definition same_payer :: "payer \<Rightarrow> payer \<Rightarrow> bool" where
  "same_payer p q \<longleftrightarrow> PricePerPacket q = PricePerPacket p \<and> PaymentTunnel q = PaymentTunnel p \<and>
     LatestPaidOnSeqno q = LatestPaidOnSeqno p \<and> LatestPacketsPaid q = LatestPacketsPaid p \<and>
     LatestChannelDeadline q = LatestChannelDeadline p"

lemma same_payer_refl [simp]: "same_payer p p"
  by (simp add: same_payer_def)

lemma openVirtualChannel_outcome:
  assumes "openVirtualChannel P C p capacity s = (s', p', res)"
  shows "\<exists>calls. s' = s\<lparr>outputs := outputs s @ calls\<rparr> \<and> (\<forall>c \<in> set calls. \<exists>pub caps. c = CallOpenVirtual pub caps) \<and>
     (\<exists>f. p' = p\<lparr>PaidChannelFee := f\<rparr>) \<and>
     (\<forall>ch. res = Inr ch \<longrightarrow> 0 \<le> vcCapacity ch \<and> vcCapacity ch \<le> capacity \<and> opened_by C calls ch)"
proof (cases "buildTunnelPaymentsChain (nano_now P) (PaymentTunnel p) capacity hour (min_safe_ttl P)")
  case (Inl e)
  with assms show ?thesis by (intro exI [of _ "[]"]) (auto simp: openVirtualChannel_def intro: exI [of _ "PaidChannelFee p"])
next
  case (Inr chain)
  note cap = chain_last_capacity [OF Inr]
  have same: "\<exists>f. p = p\<lparr>PaidChannelFee := f\<rparr>" by (rule exI [of _ "PaidChannelFee p"]) simp
  show ?thesis
  proof (cases "channel_key P (outputs s)")
    case None
    with assms Inr same show ?thesis by (intro exI [of _ "[]"]) (auto simp: openVirtualChannel_def)
  next
    case (Some key)
    let ?c = "CallOpenVirtual (PublicKey C key) (map Capacity chain)"
    consider "s' = s" "p' = p" "\<exists>e. res = Inl e" | "s' = emit ?c s" "\<exists>f. p' = p\<lparr>PaidChannelFee := f\<rparr>"
        "\<forall>ch. res = Inr ch \<longrightarrow> LastAmount ch = 0 \<and> vcKey ch = key \<and> vcCapacity ch = Capacity (last chain)"
      using assms Inr Some same
      by (fastforce simp: openVirtualChannel_def Let_def split: if_splits option.splits bool.splits)
    then show ?thesis
    proof cases
      case 1
      with same show ?thesis by (intro exI [of _ "[]"]) auto
    next
      case 2
      with cap show ?thesis by (intro exI [of _ "[?c]"]) (auto simp: emit_def opened_by_def last_map)
    qed
  qed
qed

lemma current_channel_outcome:
  assumes "current_channel P C tn p s = (s', p', res)" "payer_ok (packetsToPrepay tn) p"
  shows "\<exists>calls. s' = s\<lparr>outputs := outputs s @ calls\<rparr> \<and> (\<forall>c \<in> set calls. \<exists>pub caps. c = CallOpenVirtual pub caps) \<and>
     payer_ok (packetsToPrepay tn) p' \<and> same_payer p p' \<and> PaidPackets p' = PaidPackets p \<and> LatestInstruction p' = LatestInstruction p \<and>
     (\<forall>ch. res = Inr ch \<longrightarrow> CurrentChannel p' = Some ch \<and> (CurrentChannel p = Some ch \<or> opened_by C calls ch)) \<and>
     (\<forall>ch. CurrentChannel p' = Some ch \<longrightarrow> CurrentChannel p = Some ch \<or> opened_by C calls ch)"
proof (cases "\<exists>ch. CurrentChannel p = Some ch \<and> \<not> SafeDeadline ch < nano_now P")
  case True
  with assms show ?thesis by (intro exI [of _ "[]"]) (auto simp: current_channel_def)
next
  case False
  let ?cap = "packetsToPrepay tn * uint (PricePerPacket p) * ChannelCapacityForNumPayments"
  obtain s1 p1 r where o1: "openVirtualChannel P C p ?cap s = (s1, p1, r)" by (metis prod_cases3)
  with assms(1) False have e: "(s', p', res) = (case r of Inl e \<Rightarrow> (s1, p1\<lparr>CurrentChannel := None\<rparr>, Inl e)
      | Inr ch \<Rightarrow> (s1, p1\<lparr>CurrentChannel := Some ch\<rparr>, Inr ch))"
    by (auto simp: current_channel_def Let_def split: option.splits sum.splits if_splits)
  from openVirtualChannel_outcome [OF o1] obtain calls f where c: "s1 = s\<lparr>outputs := outputs s @ calls\<rparr>"
      "\<forall>c \<in> set calls. \<exists>pub caps. c = CallOpenVirtual pub caps" "p1 = p\<lparr>PaidChannelFee := f\<rparr>"
      "\<forall>ch. r = Inr ch \<longrightarrow> 0 \<le> vcCapacity ch \<and> vcCapacity ch \<le> ?cap \<and> opened_by C calls ch" by blast
  with e show ?thesis
    by (intro exI [of _ calls])
      (auto simp: payer_ok_def channel_fits_def same_payer_def opened_by_def split: sum.splits)
qed

text \<open>What a new payment promises of the channel it is paid from.\<close>

definition payment_valid :: "crypto \<Rightarrow> payer \<Rightarrow> ext_call list \<Rightarrow> new_payment \<Rightarrow> bool" where
  "payment_valid C p calls np \<longleftrightarrow> CurrentChannel p = Some (npChannel np) \<and> 0 \<le> npPayFor np \<and>
     npAmount np = LastAmount (npChannel np) + npPayFor np * uint (PricePerPacket p) \<and> npAmount np \<le> vcCapacity (npChannel np) \<and>
     (\<exists>st. CallAddResolve (PublicKey C (vcKey (npChannel np))) st \<in> set calls \<and> Amount st = npAmount np)"

lemma payment_valid_mono: "payment_valid C p calls np \<Longrightarrow> set calls \<subseteq> set calls' \<Longrightarrow> payment_valid C p calls' np"
  unfolding payment_valid_def by blast

lemma whole_packets:
  assumes "channel_fits n p ch" "0 < PricePerPacket p" "n * ChannelCapacityForNumPayments < 2 ^ 63"
  defines "q \<equiv> (vcCapacity ch - LastAmount ch) div uint (PricePerPacket p)"
  shows "i64 q = q" "0 \<le> q" "q * uint (PricePerPacket p) \<le> vcCapacity ch - LastAmount ch"
proof -
  let ?price = "uint (PricePerPacket p)"
  have pos: "0 < ?price" using assms(2) by (simp add: word_less_def)
  have left: "0 \<le> vcCapacity ch - LastAmount ch" "vcCapacity ch - LastAmount ch \<le> n * ChannelCapacityForNumPayments * ?price"
    using assms(1) by (simp_all add: channel_fits_def algebra_simps)
  show "0 \<le> q" using left(1) pos by (simp add: q_def pos_imp_zdiv_nonneg_iff)
  have "q \<le> n * ChannelCapacityForNumPayments * ?price div ?price" unfolding q_def using left(2) pos by (rule zdiv_mono1)
  then have "q < 2 ^ 63" using assms(3) pos by simp
  with \<open>0 \<le> q\<close> show "i64 q = q" by (intro i64_id) (simp add: is_i64_def)
  show "q * ?price \<le> vcCapacity ch - LastAmount ch"
    unfolding q_def using pos by (metis mult.commute mult_div_mod_eq le_add_same_cancel1 pos_mod_sign)
qed

lemma pay_from_outcome:
  assumes "pay_from P C E force tn i routeId prepay ch p s = (s', p', res)" "0 \<le> prepay" "CurrentChannel p = Some ch"
    and "channel_fits n p ch" "0 < PricePerPacket p" "n * ChannelCapacityForNumPayments < 2 ^ 63"
    and "\<And>k a. Amount (sign_state P k a) = a"
  shows "p' = p \<and> (\<exists>calls. s' = s\<lparr>outputs := outputs s @ calls\<rparr> \<and> (\<forall>c \<in> set calls. covered C (\<lambda>x. x = ch) [] c) \<and>
      (\<forall>ins np. res = Inr (ins, Some np) \<longrightarrow> payment_valid C p calls np))"
proof -
  let ?price = "uint (PricePerPacket p)" let ?whole = "i64 ((vcCapacity ch - LastAmount ch) div ?price)"
  define payFor where "payFor = (if prepay < ?whole then prepay else ?whole)"
  define amount where "amount = LastAmount ch + payFor * ?price"
  note w = whole_packets [OF assms(4-6)]
  have pf: "0 \<le> payFor" "payFor \<le> ?whole" using w assms(2) by (auto simp: payFor_def)
  then have "payFor * ?price \<le> ?whole * ?price" by (intro mult_right_mono) simp_all
  with w pf have am: "LastAmount ch \<le> amount" "amount \<le> vcCapacity ch" by (simp_all add: amount_def)
  let ?call = "CallAddResolve (PublicKey C (vcKey ch)) (sign_state P (vcKey ch) amount)"
  have cov: "covered C (\<lambda>x. x = ch) [] ?call" using am assms(7) by (auto simp: covered_def)
  have e: "(s', p', res) = (case state_cell P (sign_state P (vcKey ch) amount) of
      None \<Rightarrow> (s, p, Inl ErrStateCell)
    | Some pcs \<Rightarrow> let s1 = emit ?call s in if \<not> add_resolve_ok E (outputs s1) then (s1, p, Inl ErrResolve)
        else let pi = PaymentInstruction (PublicKey C (vcKey ch)) pcs (purpose_of (length (chainTo tn)) i routeId) (\<not> prepay < ?whole)
             in (s1, p, Inr ((case LatestInstruction p of
                            Some ins \<Rightarrow> if force \<and> nano_now P < LatestChannelDeadline p \<and> LatestChannelDeadline p \<noteq> SafeDeadline ch
                                        then [ins] else []
                          | None \<Rightarrow> []) @ [pi], Some \<lparr>npChannel = ch, npPayFor = payFor, npAmount = amount,
                              npInstruction = pi, npFinal = (\<not> prepay < ?whole)\<rparr>)))"
    unfolding assms(1) [symmetric] pay_from_def Let_def payFor_def amount_def by (rule refl)
  have ps: "p' = p" using e by (auto simp: Let_def split: option.splits if_splits)
  consider "s' = s" "\<exists>x. res = Inl x" | "s' = emit ?call s" using e by (auto simp: Let_def split: option.splits if_splits)
  then show ?thesis
  proof cases
    case 1
    with ps show ?thesis by (auto intro: exI [of _ "[]"])
  next
    case 2
    have "payment_valid C p [?call] np" if "res = Inr (ins, Some np)" for ins np
      using e that assms(3,7) pf am by (auto simp: payment_valid_def amount_def Let_def split: option.splits if_splits)
    with 2 ps cov show ?thesis by (intro conjI exI [of _ "[?call]"]) (auto simp: emit_def)
  qed
qed

text \<open>What paying one node may do: \<open>calls\<close> are the calls to the payment service it makes.\<close>

definition payer_step :: "crypto \<Rightarrow> int \<Rightarrow> payer \<Rightarrow> ext_call list \<Rightarrow> payer \<Rightarrow> bool" where
  "payer_step C n p calls q \<longleftrightarrow> payer_ok n q \<and> same_payer p q \<and>
     PaidPackets q \<in> {PaidPackets p, i64 (PaidPackets p - LatestPacketsPaid p)} \<and>
     (\<forall>ch. CurrentChannel q = Some ch \<longrightarrow> CurrentChannel p = Some ch \<or> opened_by C calls ch)"

lemma payer_step_refl: "payer_ok n p \<Longrightarrow> payer_step C n p calls p"
  by (simp add: payer_step_def)

lemma payer_step_mono: "payer_step C n p calls q \<Longrightarrow> set calls \<subseteq> set calls' \<Longrightarrow> payer_step C n p calls' q"
  unfolding payer_step_def using opened_by_mono by blast

definition has_channel :: "payer option \<Rightarrow> virtual_payment_channel \<Rightarrow> bool" where
  "has_channel info ch \<longleftrightarrow> (\<exists>p. info = Some p \<and> CurrentChannel p = Some ch)"

lemma has_channel_Some [simp]: "has_channel (Some p) ch \<longleftrightarrow> CurrentChannel p = Some ch"
  by (simp add: has_channel_def)

lemma pay_new_outcome:
  assumes "pay_new P C E force tn i routeId p s = (s', p', res)" "payer_ok (packetsToPrepay tn) p"
    and "0 < PricePerPacket p" "packetsToPrepay tn * ChannelCapacityForNumPayments < 2 ^ 63"
    and "\<And>k a. Amount (sign_state P k a) = a"
  shows "\<exists>calls. s' = s\<lparr>outputs := outputs s @ calls\<rparr> \<and> payer_step C (packetsToPrepay tn) p calls p' \<and> PaidPackets p' = PaidPackets p \<and>
     (\<forall>c \<in> set calls. covered C (has_channel (Some p)) calls c) \<and>
     (\<forall>ins np. res = Inr (ins, Some np) \<longrightarrow> payment_valid C p' calls np)"
proof (cases "balance_of tn i p \<le> half (packetsToPrepay tn) \<or> force")
  case False
  with assms(1,2) show ?thesis by (intro exI [of _ "[]"]) (auto simp: pay_new_def payer_step_refl Let_def)
next
  case True
  let ?n = "packetsToPrepay tn"
  define prepay where "prepay = (if i64 (?n - balance_of tn i p) < 0 then 0 else i64 (?n - balance_of tn i p))"
  obtain s1 p1 r where c: "current_channel P C tn p s = (s1, p1, r)" by (metis prod_cases3)
  from current_channel_outcome [OF c assms(2)] obtain calls where o1: "s1 = s\<lparr>outputs := outputs s @ calls\<rparr>"
      "\<forall>c \<in> set calls. \<exists>pub caps. c = CallOpenVirtual pub caps" "payer_ok ?n p1" "same_payer p p1" "PaidPackets p1 = PaidPackets p"
      "\<And>ch. r = Inr ch \<Longrightarrow> CurrentChannel p1 = Some ch \<and> (CurrentChannel p = Some ch \<or> opened_by C calls ch)"
      "\<forall>ch. CurrentChannel p1 = Some ch \<longrightarrow> CurrentChannel p = Some ch \<or> opened_by C calls ch" by blast
  have pp: "payer_step C ?n p calls p1" using o1 by (simp add: payer_step_def)
  have co: "covered C (has_channel (Some p)) (calls @ calls') c" if "c \<in> set calls" for c calls' using o1(2) that by fastforce
  show ?thesis
  proof (cases r)
    case (Inl e)
    with assms(1) True c have "s' = s1" "p' = p1" "res = Inl e" by (simp_all add: pay_new_def Let_def)
    with o1 pp co [of _ "[]"] show ?thesis by (intro exI [of _ calls]) simp
  next
    case (Inr ch)
    with assms(1) True c have f: "pay_from P C E force tn i routeId prepay ch p1 s1 = (s', p', res)"
      by (simp add: pay_new_def Let_def prepay_def)
    have ch: "CurrentChannel p1 = Some ch" "CurrentChannel p = Some ch \<or> opened_by C calls ch" using o1(6) Inr by blast+
    have pre: "0 \<le> prepay" "channel_fits ?n p1 ch" "0 < PricePerPacket p1"
      using o1(3,4) ch(1) assms(3) by (simp_all add: prepay_def payer_ok_def same_payer_def)
    from pay_from_outcome [OF f pre(1) ch(1) pre(2,3) assms(4,5)] obtain calls' where o2: "p' = p1" "s' = s1\<lparr>outputs := outputs s1 @ calls'\<rparr>"
        "\<And>c. c \<in> set calls' \<Longrightarrow> covered C (\<lambda>x. x = ch) [] c" "\<forall>ins np. res = Inr (ins, Some np) \<longrightarrow> payment_valid C p1 calls' np" by blast
    have "covered C (has_channel (Some p)) (calls @ calls') c" if "c \<in> set calls'" for c
    proof -
      from o2(3) [OF that] ch(2) have "covered C (has_channel (Some p)) calls c"
        unfolding covered_def opened_by_def by auto
      then show ?thesis by (rule covered_mono) auto
    qed
    with co have "\<forall>c \<in> set (calls @ calls'). covered C (has_channel (Some p)) (calls @ calls') c" by auto
    moreover have "payer_step C ?n p (calls @ calls') p1" using pp by (rule payer_step_mono) simp
    moreover have "payment_valid C p1 (calls @ calls') np" if "res = Inr (ins, Some np)" for ins np
      using o2(4) that payment_valid_mono [of C p1 calls' np "calls @ calls'"] by simp
    ultimately show ?thesis using o1 o2 by (intro exI [of _ "calls @ calls'"]) simp
  qed
qed

lemma pay_node_outcome:
  assumes "pay_node P C E force tn i routeId p s = (s', p', res)" "payer_ok (packetsToPrepay tn) p"
    and "0 < PricePerPacket p" "packetsToPrepay tn * ChannelCapacityForNumPayments < 2 ^ 63"
    and "\<And>k a. Amount (sign_state P k a) = a"
  shows "\<exists>calls. s' = s\<lparr>outputs := outputs s @ calls\<rparr> \<and> payer_step C (packetsToPrepay tn) p calls p' \<and>
     (\<forall>c \<in> set calls. covered C (has_channel (Some p)) calls c) \<and>
     (\<forall>ins np. res = Inr (ins, Some np) \<longrightarrow> payment_valid C p' calls np)"
proof -
  let ?q = "p\<lparr>LatestInstruction := None, PaidPackets := i64 (PaidPackets p - LatestPacketsPaid p)\<rparr>"
  consider "s' = s" "p' = p" "\<exists>ins. res = Inr (ins, None)" | "pay_new P C E force tn i routeId p s = (s', p', res)"
    | "pay_new P C E force tn i routeId ?q s = (s', p', res)"
    using assms(1) by (auto simp: pay_node_def split: option.splits if_splits)
  then show ?thesis
  proof cases
    case 1
    with assms(2) show ?thesis by (intro exI [of _ "[]"]) (auto simp: payer_step_refl)
  next
    case 2
    from pay_new_outcome [OF this assms(2-5)] show ?thesis by blast
  next
    case 3
    have "payer_ok (packetsToPrepay tn) ?q" using assms(2) by (simp add: payer_ok_def channel_fits_def)
    from pay_new_outcome [OF 3 this _ assms(4,5)] assms(3) obtain calls where o:
        "s' = s\<lparr>outputs := outputs s @ calls\<rparr>" "payer_step C (packetsToPrepay tn) ?q calls p'"
        "PaidPackets p' = i64 (PaidPackets p - LatestPacketsPaid p)"
        "\<forall>c \<in> set calls. covered C (has_channel (Some ?q)) calls c"
        "\<forall>ins np. res = Inr (ins, Some np) \<longrightarrow> payment_valid C p' calls np" by auto
    then have "payer_step C (packetsToPrepay tn) p calls p'" by (simp add: payer_step_def same_payer_def)
    moreover have "has_channel (Some ?q) = has_channel (Some p)" by (simp add: fun_eq_iff)
    ultimately show ?thesis using o by (intro exI [of _ calls]) simp
  qed
qed

section \<open>The whole chain\<close>

definition node_ok :: "int \<Rightarrow> section_info \<Rightarrow> bool" where
  "node_ok n nd \<longleftrightarrow> (\<forall>p \<in> set_option (PaymentInfo nd). payer_ok n p)"

definition node_pays :: "crypto \<Rightarrow> int \<Rightarrow> ext_call list \<Rightarrow> section_info \<Rightarrow> section_info \<Rightarrow> bool" where
  "node_pays C n calls nd nd' \<longleftrightarrow> rel_option (\<lambda>p q. payer_step C n p calls q) (PaymentInfo nd) (PaymentInfo nd')"

lemma node_pays_mono:
  assumes "node_pays C n calls nd nd'" "set calls \<subseteq> set calls'"
  shows "node_pays C n calls' nd nd'"
  using assms(1) unfolding node_pays_def by (rule option.rel_mono_strong) (rule payer_step_mono [OF _ assms(2)])

lemma node_pays_refl: "node_ok n nd \<Longrightarrow> node_pays C n calls nd nd"
  by (cases "PaymentInfo nd") (simp_all add: node_pays_def node_ok_def payer_step_refl)

definition node_valid :: "crypto \<Rightarrow> ext_call list \<Rightarrow> section_info \<Rightarrow> new_payment option \<Rightarrow> bool" where
  "node_valid C calls nd np \<longleftrightarrow> (\<forall>x \<in> set_option np. \<exists>q. PaymentInfo nd = Some q \<and> payment_valid C q calls x)"

lemma encrypt_with_info [simp]: "encrypt_with C T rnd cur msg ins = (cur', res) \<Longrightarrow> PaymentInfo cur' = PaymentInfo cur"
  by (auto simp: encrypt_with_def split: prod.splits)

lemma control_node_outcome:
  assumes "control_node P C T E wp force tn i cur nds msg s = (s', cur', res)" "node_ok (packetsToPrepay tn) cur"
    and "packetsToPrepay tn * ChannelCapacityForNumPayments < 2 ^ 63" "\<And>k a. Amount (sign_state P k a) = a"
  shows "\<exists>calls. s' = s\<lparr>outputs := outputs s @ calls\<rparr> \<and> node_pays C (packetsToPrepay tn) calls cur cur' \<and>
     (\<forall>c \<in> set calls. covered C (has_channel (PaymentInfo cur)) calls c) \<and>
     (\<forall>m np. res = Inr (m, np) \<longrightarrow> node_valid C calls cur' np)"
proof -
  let ?n = "packetsToPrepay tn"
  have idle: ?thesis if "s' = s" "PaymentInfo cur' = PaymentInfo cur" "\<forall>m np. res = Inr (m, np) \<longrightarrow> np = None"
    using that node_pays_refl [OF assms(2), of C "[]"] by (intro exI [of _ "[]"]) (auto simp: node_pays_def node_valid_def)
  consider "s' = s" "PaymentInfo cur' = PaymentInfo cur" "\<forall>m np. res = Inr (m, np) \<longrightarrow> np = None"
    | p p1 routeId r where "PaymentInfo cur = Some p" "0 < PricePerPacket p" "pay_node P C E force tn i routeId p s = (s', p1, r)"
        "PaymentInfo cur' = Some p1" "\<forall>m np. res = Inr (m, np) \<longrightarrow> (\<exists>ins. r = Inr (ins, np))"
    using assms(1)
    by (fastforce simp: control_node_def split: list.splits sum.splits option.splits prod.splits if_splits dest: encrypt_with_info)
  then show ?thesis
  proof cases
    case 1
    then show ?thesis by (rule idle)
  next
    case (2 p p1 routeId r)
    with assms(2) have "payer_ok ?n p" by (simp add: node_ok_def)
    from pay_node_outcome [OF 2(3) this 2(2) assms(3,4)] obtain calls where o: "s' = s\<lparr>outputs := outputs s @ calls\<rparr>"
        "payer_step C ?n p calls p1" "\<forall>c \<in> set calls. covered C (has_channel (Some p)) calls c"
        "\<forall>ins np. r = Inr (ins, Some np) \<longrightarrow> payment_valid C p1 calls np" by blast
    have "node_valid C calls cur' np" if "res = Inr (m, np)" for m np
      using 2(4,5) o(4) that unfolding node_valid_def by (cases np) auto
    with 2 o show ?thesis by (intro exI [of _ calls]) (simp add: node_pays_def)
  qed
qed

lemma control_loop_outcome:
  assumes "control_loop P C T E wp force tn i nds s = (s', nds', res)" "\<forall>nd \<in> set nds. node_ok (packetsToPrepay tn) nd"
    and "packetsToPrepay tn * ChannelCapacityForNumPayments < 2 ^ 63" "\<And>k a. Amount (sign_state P k a) = a"
  shows "\<exists>calls. s' = s\<lparr>outputs := outputs s @ calls\<rparr> \<and> list_all2 (node_pays C (packetsToPrepay tn) calls) nds nds' \<and>
     (\<forall>c \<in> set calls. covered C (\<lambda>ch. \<exists>nd \<in> set nds. has_channel (PaymentInfo nd) ch) calls c) \<and>
     (\<forall>m nps. res = Inr (m, nps) \<longrightarrow> list_all2 (node_valid C calls) nds' nps)"
  using assms(1,2)
proof (induction nds arbitrary: i s' nds' res)
  case Nil
  then show ?case by (auto intro: exI [of _ "[]"])
next
  case (Cons nd nds)
  let ?n = "packetsToPrepay tn" let ?known = "\<lambda>nds ch. \<exists>nd \<in> set nds. has_channel (PaymentInfo nd) ch"
  obtain s1 nds1 r1 where l: "control_loop P C T E wp force tn (Suc i) nds s = (s1, nds1, r1)" by (metis prod_cases3)
  from Cons.IH [OF l] Cons.prems(2) obtain calls where o1: "s1 = s\<lparr>outputs := outputs s @ calls\<rparr>"
      "list_all2 (node_pays C ?n calls) nds nds1" "\<And>c. c \<in> set calls \<Longrightarrow> covered C (?known nds) calls c"
      "\<forall>m nps. r1 = Inr (m, nps) \<longrightarrow> list_all2 (node_valid C calls) nds1 nps" by auto
  have grow1: "list_all2 (node_pays C ?n (calls @ more_calls)) nds nds1" for more_calls
    using o1(2) by (auto elim!: list_all2_mono node_pays_mono)
  have grow2: "covered C (?known (nd # nds)) (calls @ more_calls) c" if "c \<in> set calls" for more_calls c
    using o1(3) [OF that] by (rule covered_mono) auto
  show ?case
  proof (cases r1)
    case (Inl e)
    with Cons.prems(1) l have "s' = s1" "nds' = nd # nds1" "res = Inl e" by simp_all
    with o1 grow2 [of _ "[]"] node_pays_refl [of ?n nd C calls] Cons.prems(2) show ?thesis by (intro exI [of _ calls]) simp
  next
    case (Inr x)
    then obtain msg nps where r1: "r1 = Inr (msg, nps)" by (cases x) auto
    obtain s2 nd' r2 where n: "control_node P C T E wp force tn i nd nds msg s1 = (s2, nd', r2)" by (metis prod_cases3)
    from control_node_outcome [OF n _ assms(3,4)] Cons.prems(2) obtain calls' where o2: "s2 = s1\<lparr>outputs := outputs s1 @ calls'\<rparr>"
        "node_pays C ?n calls' nd nd'" "\<And>c. c \<in> set calls' \<Longrightarrow> covered C (has_channel (PaymentInfo nd)) calls' c"
        "\<forall>m np. r2 = Inr (m, np) \<longrightarrow> node_valid C calls' nd' np" by auto
    have nd: "node_pays C ?n (calls @ calls') nd nd'" using o2(2) by (rule node_pays_mono) simp
    have cov: "covered C (?known (nd # nds)) (calls @ calls') c" if "c \<in> set calls'" for c
      using o2(3) [OF that] by (rule covered_mono) auto
    have e: "s' = s2" "nds' = nd' # nds1" using Cons.prems(1) l r1 n by (auto split: sum.splits)
    have "list_all2 (node_valid C (calls @ calls')) nds' nps'" if "res = Inr (m, nps')" for m nps'
    proof -
      from that Cons.prems(1) l r1 n obtain np where np: "r2 = Inr (m, np)" "nps' = np # nps" by (auto split: sum.splits)
      have mono: "node_valid C cs x y \<Longrightarrow> set cs \<subseteq> set (calls @ calls') \<Longrightarrow> node_valid C (calls @ calls') x y" for cs x y
        unfolding node_valid_def using payment_valid_mono by meson
      have "list_all2 (node_valid C (calls @ calls')) nds1 nps"
        using o1(4) r1 mono [of calls] by (auto elim: list_all2_mono)
      then show ?thesis using o2(4) np e mono [of calls'] by simp
    qed
    with e o1(1) o2(1) nd grow1 grow2 cov show ?thesis by (intro exI [of _ "calls @ calls'"]) auto
  qed
qed

text \<open>Settling a valid payment keeps the channel within its capacity and counts exactly what was paid.\<close>

definition settles :: "crypto \<Rightarrow> int \<Rightarrow> u64 \<Rightarrow> ext_call list \<Rightarrow> payer \<Rightarrow> payer \<Rightarrow> bool" where
  "settles C n seqno calls p q \<longleftrightarrow> payer_step C n p calls q \<or>
     (\<exists>base ch st. base \<in> {PaidPackets p, i64 (PaidPackets p - LatestPacketsPaid p)} \<and>
        (CurrentChannel p = Some ch \<or> opened_by C calls ch) \<and>
        CallAddResolve (PublicKey C (vcKey ch)) st \<in> set calls \<and>
        LatestPaidOnSeqno q = seqno \<and> 0 \<le> LatestPacketsPaid q \<and> PaidPackets q = i64 (base + LatestPacketsPaid q) \<and>
        Amount st = LastAmount ch + LatestPacketsPaid q * uint (PricePerPacket p) \<and> Amount st \<le> vcCapacity ch \<and>
        PricePerPacket q = PricePerPacket p \<and> CurrentChannel q \<in> {None, Some (ch\<lparr>LastAmount := Amount st\<rparr>)})"

lemma settles_step: "payer_step C n p calls q \<Longrightarrow> settles C n seqno calls p q"
  by (simp add: settles_def)

lemma settle_ok:
  assumes "payer_step C n p calls q" "payment_valid C q calls np" "payer_ok n p"
  shows "settles C n seqno calls p (apply_payment seqno np q)" "payer_ok n (apply_payment seqno np q)"
proof -
  from assms(2) obtain st where st: "CurrentChannel q = Some (npChannel np)" "0 \<le> npPayFor np"
      "npAmount np = LastAmount (npChannel np) + npPayFor np * uint (PricePerPacket q)" "npAmount np \<le> vcCapacity (npChannel np)"
      "CallAddResolve (PublicKey C (vcKey (npChannel np))) st \<in> set calls" "Amount st = npAmount np"
    unfolding payment_valid_def by blast
  have q: "payer_ok n q" "PricePerPacket q = PricePerPacket p" "PaidPackets q \<in> {PaidPackets p, i64 (PaidPackets p - LatestPacketsPaid p)}"
      "CurrentChannel p = Some (npChannel np) \<or> opened_by C calls (npChannel np)"
    using assms(1) st(1) by (auto simp: payer_step_def same_payer_def)
  then have fits: "channel_fits n q (npChannel np)" using st(1) by (simp add: payer_ok_def)
  have "LastAmount (npChannel np) \<le> npAmount np" using st(2,3) by simp
  with fits st(4) show "payer_ok n (apply_payment seqno np q)" by (simp add: payer_ok_def channel_fits_def apply_payment_def)
  show "settles C n seqno calls p (apply_payment seqno np q)"
    unfolding settles_def using st q
    by (intro disjI2 exI [of _ "PaidPackets q"] exI [of _ "npChannel np"] exI [of _ st]) (simp add: apply_payment_def)
qed

lemma settle_node_ok:
  assumes "node_pays C n calls nd nd'" "node_valid C calls nd' np" "node_ok n nd"
  shows "rel_option (settles C n seqno calls) (PaymentInfo nd) (PaymentInfo (settle_node seqno nd' np))"
    "node_ok n (settle_node seqno nd' np)"
proof -
  show "rel_option (settles C n seqno calls) (PaymentInfo nd) (PaymentInfo (settle_node seqno nd' np))"
    using assms by (cases "PaymentInfo nd"; cases np)
      (auto simp: node_pays_def node_valid_def node_ok_def settle_node_def option_rel_Some1 intro: settle_ok settles_step)
  show "node_ok n (settle_node seqno nd' np)"
    using assms by (cases "PaymentInfo nd"; cases np)
      (auto simp: node_pays_def node_valid_def node_ok_def settle_node_def option_rel_Some1 payer_step_def [of C n _ calls] intro: settle_ok(2) [of C n _ calls])
qed

lemma list_all2_set2: "list_all2 R xs ys \<Longrightarrow> y \<in> set ys \<Longrightarrow> \<exists>x \<in> set xs. R x y"
  by (metis in_set_conv_nth list_all2_conv_all_nth)

lemma set_nodes_append [simp]:
  "length nds = length (chainTo tn) + k \<Longrightarrow> chainTo (set_nodes nds tn) @ chainFrom (set_nodes nds tn) = nds"
  by (simp add: set_nodes_def)

lemma settle_all:
  assumes "list_all2 (node_pays C n calls) nds nds'" "list_all2 (node_valid C calls) nds' nps" "\<forall>nd \<in> set nds. node_ok n nd"
  shows "list_all2 (\<lambda>nd nd'. rel_option (settles C n seqno calls) (PaymentInfo nd) (PaymentInfo nd') \<and> node_ok n nd')
     nds (map2 (settle_node seqno) nds' nps)"
  using assms
proof (induction nds arbitrary: nds' nps)
  case (Cons nd nds)
  then obtain nd' ms np mps where e: "nds' = nd' # ms" "nps = np # mps" by (auto simp: list_all2_Cons1)
  with Cons show ?case by (simp add: settle_node_ok [of C n calls nd nd' np])
qed (simp add: list_all2_Nil)

text \<open>Both outcomes of \<open>prepareTunnelControlMessage\<close>, in terms of the nodes before and after.\<close>

lemma control_message_outcome:
  assumes "prepareTunnelControlMessage P C T E wp force t s = (s', res)" "t < length (tuns s)"
    and "\<forall>nd \<in> set (chainTo (tuns s ! t) @ chainFrom (tuns s ! t)). node_ok (packetsToPrepay (tuns s ! t)) nd"
    and "packetsToPrepay (tuns s ! t) * ChannelCapacityForNumPayments < 2 ^ 63" "\<And>k a. Amount (sign_state P k a) = a"
  defines "tn \<equiv> tuns s ! t" and "tn' \<equiv> tuns s' ! t"
  defines "nodes \<equiv> chainTo tn @ chainFrom tn" and "nodes' \<equiv> chainTo tn' @ chainFrom tn'"
  shows "\<exists>calls. outputs s' = outputs s @ calls \<and>
     (\<forall>c \<in> set calls. covered C (\<lambda>ch. \<exists>nd \<in> set nodes. has_channel (PaymentInfo nd) ch) calls c) \<and>
     (\<forall>nd \<in> set nodes'. node_ok (packetsToPrepay tn) nd) \<and> length (chainTo tn') = length (chainTo tn) \<and>
     (case res of
        Inl e \<Rightarrow> tn' = tn\<lparr>chainTo := chainTo tn', chainFrom := chainFrom tn'\<rparr> \<and> list_all2 (node_pays C (packetsToPrepay tn) calls) nodes nodes'
      | Inr m \<Rightarrow> controlSeqno tn' = controlSeqno tn + 1 \<and> (packetsMinPaidIn tn', packetsMinPaidOut tn') = min_paid (length (chainTo tn)) nodes' \<and>
          list_all2 (\<lambda>nd nd'. rel_option (settles C (packetsToPrepay tn) (controlSeqno tn + 1) calls) (PaymentInfo nd) (PaymentInfo nd')) nodes nodes')"
proof -
  let ?n = "packetsToPrepay tn"
  obtain s1 nds r where l: "control_loop P C T E wp force tn 0 nodes s = (s1, nds, r)" by (metis prod_cases3)
  have ok: "\<forall>nd \<in> set nodes. node_ok ?n nd" using assms(3) by (simp add: tn_def nodes_def)
  from control_loop_outcome [OF l ok _ assms(5)] assms(4) obtain calls where o: "s1 = s\<lparr>outputs := outputs s @ calls\<rparr>"
      "list_all2 (node_pays C ?n calls) nodes nds"
      "\<forall>c \<in> set calls. covered C (\<lambda>ch. \<exists>nd \<in> set nodes. has_channel (PaymentInfo nd) ch) calls c"
      "\<forall>m nps. r = Inr (m, nps) \<longrightarrow> list_all2 (node_valid C calls) nds nps" unfolding tn_def by blast
  from o(2) have len: "length nds = length (chainTo tn) + length (chainFrom tn)" by (simp add: nodes_def list_all2_lengthD [symmetric])
  show ?thesis
  proof (cases r)
    case (Inl e)
    with assms(1) l have "s' = upd_tun t (\<lambda>_. set_nodes nds tn) s1" "res = Inl e"
      by (simp_all add: prepareTunnelControlMessage_def Let_def tn_def nodes_def)
    moreover from this have t': "tn' = set_nodes nds tn" using o(1) assms(2) by (simp add: tn'_def upd_tun_def hupd_def)
    moreover have "\<forall>nd \<in> set nds. node_ok ?n nd"
      using o(2) by (auto simp: node_pays_def node_ok_def payer_step_def option_rel_Some2 dest: list_all2_set2)
    ultimately show ?thesis using o len
      by (intro exI [of _ calls]) (simp add: nodes'_def, simp add: set_nodes_def upd_tun_def)
  next
    case (Inr x)
    then obtain msg nps where r: "r = Inr (msg, nps)" by (cases x) auto
    let ?nds = "map2 (settle_node (controlSeqno tn + 1)) nds nps"
    obtain mi mo where mm: "min_paid (length (chainTo tn)) ?nds = (mi, mo)" by fastforce
    have se: "list_all2 (\<lambda>nd nd'. rel_option (settles C ?n (controlSeqno tn + 1) calls) (PaymentInfo nd) (PaymentInfo nd') \<and> node_ok ?n nd') nodes ?nds"
      using settle_all [OF o(2) _ ok] o(4) r by blast
    have len': "length ?nds = length (chainTo tn) + length (chainFrom tn)" using se by (simp only: nodes_def list_all2_lengthD [symmetric] length_append)
    from assms(1) l r mm have s': "s' = upd_tun t (\<lambda>_. (set_nodes ?nds tn)\<lparr>controlSeqno := controlSeqno tn + 1, packetsMinPaidIn := mi,
        packetsMinPaidOut := mo\<rparr>) s1" "res = Inr msg"
      by (simp_all add: prepareTunnelControlMessage_def Let_def tn_def nodes_def)
    then have t': "tn' = (set_nodes ?nds tn)\<lparr>controlSeqno := controlSeqno tn + 1, packetsMinPaidIn := mi, packetsMinPaidOut := mo\<rparr>"
      using o(1) assms(2) by (simp add: tn'_def upd_tun_def hupd_def)
    then have n': "nodes' = ?nds" using len' by (simp add: nodes'_def set_nodes_def)
    have "\<forall>nd \<in> set ?nds. node_ok ?n nd" using se by (blast dest: list_all2_set2)
    moreover have "length (chainTo tn') = length (chainTo tn)" using t' len' by (simp add: set_nodes_def)
    moreover have "list_all2 (\<lambda>nd nd'. rel_option (settles C ?n (controlSeqno tn + 1) calls) (PaymentInfo nd) (PaymentInfo nd')) nodes nodes'"
      using se n' by (auto elim: list_all2_mono)
    ultimately show ?thesis using o s' t' n' mm by (intro exI [of _ calls]) (simp add: upd_tun_def)
  qed
qed

text \<open>The limits are lower bounds of what the nodes of each direction are paid for.\<close>

lemma min_paid_le:
  assumes "min_paid nTo nds = (mi, mo)" "Suc j < length nds" "PaymentInfo (nds ! j) = Some q"
  shows "j < nTo \<Longrightarrow> mo \<le> PaidPackets q" "nTo \<le> Suc j \<Longrightarrow> mi \<le> PaidPackets q"
proof -
  let ?f = "\<lambda>(minIn, minOut) (i, nd). case PaymentInfo nd of None \<Rightarrow> (minIn, minOut)
     | Some p \<Rightarrow> if nTo \<le> i then (min minIn (PaidPackets p), minOut)
         else if Suc i = nTo then (min minIn (PaidPackets p), min minOut (PaidPackets p)) else (minIn, min minOut (PaidPackets p))"
  define good where "good zs = (\<forall>mi0 mo0 mi mo. foldl ?f (mi0, mo0) zs = (mi, mo) \<longrightarrow> mi \<le> mi0 \<and> mo \<le> mo0 \<and>
     (\<forall>(i, nd) \<in> set zs. \<forall>p. PaymentInfo nd = Some p \<longrightarrow> (i < nTo \<longrightarrow> mo \<le> PaidPackets p) \<and> (nTo \<le> Suc i \<longrightarrow> mi \<le> PaidPackets p)))"
    for zs :: "(nat \<times> section_info) list"
  have "good zs" for zs
  proof (induction zs)
    case (Cons z zs)
    obtain i nd where z: "z = (i, nd)" by fastforce
    show ?case unfolding good_def
    proof (intro allI impI)
      fix mi0 mo0 mi mo
      assume a: "foldl ?f (mi0, mo0) (z # zs) = (mi, mo)"
      obtain mi1 mo1 where f: "?f (mi0, mo0) z = (mi1, mo1)" by fastforce
      from a f Cons have "mi \<le> mi1" "mo \<le> mo1"
        "\<forall>(i, nd) \<in> set zs. \<forall>p. PaymentInfo nd = Some p \<longrightarrow> (i < nTo \<longrightarrow> mo \<le> PaidPackets p) \<and> (nTo \<le> Suc i \<longrightarrow> mi \<le> PaidPackets p)"
        unfolding good_def by (simp_all only: foldl_Cons) blast+
      moreover have "mi1 \<le> mi0 \<and> mo1 \<le> mo0 \<and> (\<forall>p. PaymentInfo nd = Some p \<longrightarrow> (i < nTo \<longrightarrow> mo1 \<le> PaidPackets p) \<and> (nTo \<le> Suc i \<longrightarrow> mi1 \<le> PaidPackets p))"
        using f by (auto simp: z split: option.splits if_splits)
      ultimately show "mi \<le> mi0 \<and> mo \<le> mo0 \<and> (\<forall>(i, nd) \<in> set (z # zs). \<forall>p. PaymentInfo nd = Some p \<longrightarrow>
          (i < nTo \<longrightarrow> mo \<le> PaidPackets p) \<and> (nTo \<le> Suc i \<longrightarrow> mi \<le> PaidPackets p))" by (fastforce simp: z)
    qed
  qed (simp add: good_def)
  note all = this [of "zip [0..<length nds - 1] nds", unfolded good_def, rule_format]
  have "zip [0..<length nds - 1] nds ! j = (j, nds ! j)" "j < length (zip [0..<length nds - 1] nds)" using assms(2) by simp_all
  then have "(j, nds ! j) \<in> set (zip [0..<length nds - 1] nds)" by (metis nth_mem)
  with all [of MaxInt64 MaxInt64 mi mo] assms(1,3) show "j < nTo \<Longrightarrow> mo \<le> PaidPackets q" "nTo \<le> Suc j \<Longrightarrow> mi \<le> PaidPackets q"
    unfolding min_paid_def by fastforce+
qed

section \<open>Properties\<close>

text \<open>
  C5. A control message never overspends a channel. Whether it succeeds or fails half way, every
  state it signs and hands to the payment service lies between the amount already signed and the
  capacity of a channel that a node of the tunnel had, or that was opened during this very call
  with that capacity; and afterwards all channels of the tunnel again have their last amount
  within their capacity, so that the next call starts from the same premise.
\<close>

theorem control_payments_covered:
  assumes "prepareTunnelControlMessage P C T E wp force t s = (s', res)" "t < length (tuns s)"
    and "\<forall>nd \<in> set (chainTo (tuns s ! t) @ chainFrom (tuns s ! t)). node_ok (packetsToPrepay (tuns s ! t)) nd"
    and "packetsToPrepay (tuns s ! t) * ChannelCapacityForNumPayments < 2 ^ 63" "\<And>k a. Amount (sign_state P k a) = a"
  shows "(\<forall>nd \<in> set (chainTo (tuns s' ! t) @ chainFrom (tuns s' ! t)). node_ok (packetsToPrepay (tuns s ! t)) nd) \<and>
     (\<exists>calls. outputs s' = outputs s @ calls \<and>
        (\<forall>pub st. CallAddResolve pub st \<in> set calls \<longrightarrow>
          (\<exists>ch. pub = PublicKey C (vcKey ch) \<and> LastAmount ch \<le> Amount st \<and> Amount st \<le> vcCapacity ch \<and>
             ((\<exists>nd \<in> set (chainTo (tuns s ! t) @ chainFrom (tuns s ! t)). has_channel (PaymentInfo nd) ch) \<or> opened_by C calls ch))))"
proof -
  from control_message_outcome [OF assms] obtain calls where o: "outputs s' = outputs s @ calls"
      "\<forall>c \<in> set calls. covered C (\<lambda>ch. \<exists>nd \<in> set (chainTo (tuns s ! t) @ chainFrom (tuns s ! t)). has_channel (PaymentInfo nd) ch) calls c"
      "\<forall>nd \<in> set (chainTo (tuns s' ! t) @ chainFrom (tuns s' ! t)). node_ok (packetsToPrepay (tuns s ! t)) nd" by blast
  then show ?thesis unfolding covered_def by blast
qed

text \<open>A tunnel whose first node is paid from an open channel with room for 20 packets.\<close>

definition demo_payer :: payer where
  "demo_payer = \<lparr>PaymentTunnel = demo_hops, PricePerPacket = 2, JettonMaster = None, ExtraCurrencyID = 0, PaidPackets = 10,
     CurrentChannel = Some \<lparr>vcKey = [3], LastAmount = 20, vcCapacity = 60, SafeDeadline = 900\<rparr>, PaidChannelFee = Some 7,
     LatestChannelDeadline = 0, LatestPaidOnSeqno = 0, LatestInstruction = None, LatestPacketsPaid = 0\<rparr>"

definition paid_tun :: out_tunnel where
  "paid_tun = (new_tunnel demo_env 33 0 [(demo_info 1)\<lparr>PaymentInfo := Some demo_payer\<rparr>, demo_info 2] [demo_info 9] (demo_key 3))
     \<lparr>tunnelState := StateTypeOptimized, usePayments := True\<rparr>"

definition paid_gw :: tun_gateway where
  "paid_gw = gateway.extend demo_gw (tun_gateway.fields [paid_tun])"

definition demo_pay_host :: pay_host where
  "demo_pay_host = host.extend demo_host (pay_host.fields 800 50 (\<lambda>_. Some [4]) (\<lambda>_. True) (\<lambda>_. True) (\<lambda>_. Some True)
     (\<lambda>k a. \<lparr>Amount = a, Signature = k\<rparr>) (\<lambda>st. Some (Signature st)))"

lemma paid_gw_fields [simp]: "tuns paid_gw = [paid_tun]" "outputs paid_gw = []"
  by (simp_all add: paid_gw_def gateway.defs tun_gateway.defs demo_gw_def NewGateway_def new_peer_def)

lemma paid_tun_fields [simp]:
  "chainTo paid_tun = [(demo_info 1)\<lparr>PaymentInfo := Some demo_payer\<rparr>, demo_info 2]" "chainFrom paid_tun = [demo_info 9]"
  "packetsToPrepay paid_tun = 200000" "packetsConsumedOut paid_tun = 0" "packetsConsumedIn paid_tun = 0"
  by (simp_all add: paid_tun_def new_tunnel_def ChannelPacketsToPrepay_def)

lemma demo_pay_host_fields [simp]: "nano_now demo_pay_host = 800" "sign_state demo_pay_host k a = \<lparr>Amount = a, Signature = k\<rparr>"
  "state_cell demo_pay_host st = Some (Signature st)" "layer_nonce demo_pay_host b i = Some (of_nat i)"
  by (simp_all add: demo_pay_host_def host.defs pay_host.defs demo_host_def)

lemma paid_premises:
  "0 < length (tuns paid_gw)"
  "\<forall>nd \<in> set (chainTo (tuns paid_gw ! 0) @ chainFrom (tuns paid_gw ! 0)). node_ok (packetsToPrepay (tuns paid_gw ! 0)) nd"
  "packetsToPrepay (tuns paid_gw ! 0) * ChannelCapacityForNumPayments < 2 ^ 63" "Amount (sign_state demo_pay_host k a) = a"
  by (simp_all add: node_ok_def payer_ok_def channel_fits_def demo_info_def demo_payer_def ChannelCapacityForNumPayments_def)

theorem control_payments_covered_witness:
  "\<exists>s' res. prepareTunnelControlMessage demo_pay_host demo_crypto full_tl demo_env True False 0 paid_gw = (s', res) \<and>
     (\<forall>nd \<in> set (chainTo (tuns s' ! 0) @ chainFrom (tuns s' ! 0)). node_ok 200000 nd)"
proof -
  obtain s' res where m: "prepareTunnelControlMessage demo_pay_host demo_crypto full_tl demo_env True False 0 paid_gw = (s', res)"
    by fastforce
  from conjunct1 [OF control_payments_covered [OF m paid_premises]]
  have "\<forall>nd \<in> set (chainTo (tuns s' ! 0) @ chainFrom (tuns s' ! 0)). node_ok 200000 nd" by simp
  with m show ?thesis by blast
qed


lemma paid_message: "\<exists>s' msg. prepareTunnelControlMessage demo_pay_host demo_crypto full_tl demo_env True False 0 paid_gw = (s', Inr msg)"
  by (simp add: prepareTunnelControlMessage_def control_node_def pay_node_def pay_new_def pay_from_def current_channel_def
      balance_of_def half_def demo_payer_def encrypt_with_def Uint32_def Let_def demo_env_def
      EncryptInstructionsMessage_def InstructionsContainer_Serialize_def encryptStream_def demo_info_def
      demo_crypto_def full_tl_def demo_tl_def split: prod.splits)


section \<open>The total spent\<close>

text \<open>What a node adds to the total of which coin; the amount is missing when no channel was opened for it yet.\<close>

definition bill :: "coin_service \<Rightarrow> section_info \<Rightarrow> (string \<times> int option) option" where
  "bill K nd = (case PaymentInfo nd of None \<Rightarrow> None
     | Some p \<Rightarrow> map_option (\<lambda>(coin, dec). (coin, map_option (\<lambda>fee. PaidPackets p * uint (PricePerPacket p) + fee) (PaidChannelFee p)))
                  (ResolveCoinConfig K (JettonMaster p) (ExtraCurrencyID p)))"

definition spent_on :: "coin_service \<Rightarrow> string \<Rightarrow> section_info \<Rightarrow> int" where
  "spent_on K coin nd = (case bill K nd of Some (y, Some a) \<Rightarrow> if y = coin then a else 0 | _ \<Rightarrow> 0)"

definition amount_of :: "(string \<rightharpoonup> int) \<Rightarrow> string \<Rightarrow> int" where
  "amount_of m coin = (case m coin of None \<Rightarrow> 0 | Some a \<Rightarrow> a)"

lemma paid_loop_panics: "paid_loop K nds m = Inl e \<Longrightarrow> is_panic e"
  by (induction nds arbitrary: m) (auto simp: is_panic_def Let_def split: option.splits if_splits)

lemma paid_loop_total:
  "paid_loop K nds m = Inr m' \<Longrightarrow> amount_of m' coin = amount_of m coin + (\<Sum>nd \<leftarrow> nds. spent_on K coin nd) \<and>
     (\<forall>nd \<in> set nds. \<forall>y. bill K nd \<noteq> Some (y, None))"
proof (induction nds arbitrary: m)
  case (Cons nd nds)
  show ?case
  proof (cases "bill K nd")
    case None
    with Cons.prems have "paid_loop K nds m = Inr m'" by (auto simp: bill_def split: option.splits)
    from Cons.IH [OF this] None show ?thesis by (simp add: spent_on_def)
  next
    case (Some b)
    then obtain y a where b: "bill K nd = Some (y, a)" by (cases b) auto
    with Cons.prems obtain x where x: "a = Some x" "paid_loop K nds (m(y \<mapsto> amount_of m y + x)) = Inr m'"
      by (auto simp: bill_def Let_def amount_of_def split: option.splits if_splits)
    from Cons.IH [OF x(2)] b x(1) show ?thesis by (auto simp: spent_on_def amount_of_def)
  qed
qed simp

text \<open>
  \<open>CalcPaidAmount\<close> sums, per coin, the price of the packets paid for and the channel fees of
  every node whose coin is known. It returns only when every such node has had a channel opened:
  for a tunnel one of whose payers has not opened a channel yet the fee is a nil pointer and the
  call panics.
\<close>

lemma CalcPaidAmount_total:
  fixes K :: coin_service and tn :: out_tunnel
  defines "nodes \<equiv> chainTo tn @ chainFrom tn"
  shows "(case CalcPaidAmount K tn of
       Inr m \<Rightarrow> \<forall>coin. amount_of m coin = (\<Sum>nd \<leftarrow> nodes. spent_on K coin nd)
     | Inl e \<Rightarrow> is_panic e) \<and>
     ((\<exists>nd \<in> set nodes. \<exists>y. bill K nd = Some (y, None)) \<longrightarrow> (\<exists>e. CalcPaidAmount K tn = Inl e \<and> is_panic e))"
proof (cases "CalcPaidAmount K tn")
  case (Inl e)
  then show ?thesis by (auto simp: CalcPaidAmount_def dest: paid_loop_panics)
next
  case (Inr m)
  then have l: "paid_loop K nodes Map.empty = Inr m" by (simp add: CalcPaidAmount_def nodes_def)
  have "amount_of m coin = (\<Sum>nd \<leftarrow> nodes. spent_on K coin nd)" for coin
    using paid_loop_total [OF l, of coin] by (simp add: amount_of_def)
  with paid_loop_total [OF l] Inr show ?thesis by auto
qed

definition demo_coins :: coin_service where
  "demo_coins = \<lparr>ResolveCoinConfig = (\<lambda>_ _. Some (''TON'', 9)), nano_fits = (\<lambda>n _. 0 \<le> n)\<rparr>"

lemma CalcPaidAmount_total_witness:
  "(\<exists>m. CalcPaidAmount demo_coins paid_tun = Inr m \<and> amount_of m ''TON'' = 27) \<and>
   (\<exists>e. CalcPaidAmount demo_coins (paid_tun\<lparr>chainTo := [(demo_info 1)\<lparr>PaymentInfo := Some (demo_payer\<lparr>PaidChannelFee := None\<rparr>)\<rparr>]\<rparr>) = Inl e)"
proof -
  obtain m where m: "CalcPaidAmount demo_coins paid_tun = Inr m"
    by (simp add: CalcPaidAmount_def demo_coins_def demo_info_def demo_payer_def)
  with CalcPaidAmount_total [of demo_coins paid_tun] have "amount_of m ''TON'' = 27"
    by (simp add: spent_on_def bill_def demo_coins_def demo_info_def demo_payer_def)
  moreover have "\<exists>e. CalcPaidAmount demo_coins (paid_tun\<lparr>chainTo := [(demo_info 1)\<lparr>PaymentInfo := Some (demo_payer\<lparr>PaidChannelFee := None\<rparr>)\<rparr>]\<rparr>) = Inl e"
    using CalcPaidAmount_total [of demo_coins "paid_tun\<lparr>chainTo := [(demo_info 1)\<lparr>PaymentInfo := Some (demo_payer\<lparr>PaidChannelFee := None\<rparr>)\<rparr>]\<rparr>"]
    by (auto simp: bill_def demo_coins_def)
  ultimately show ?thesis using m by blast
qed

end
