(* ===== verification/Route_Setup.thy ===== *)
theory Route_Setup
  imports Out_Tunnel_Safety "HOL-Library.Multiset"
begin

text \<open>
  How a client chooses and configures a route: \<open>tunnel/setup.go\<close>, with the pool configuration of
  \<open>config/config.go\<close>. Random choices (\<open>rand.Shuffle\<close>, generated keys), the payment service, the
  chain client and the user's \<open>Acceptor\<close> are parameters. What a client starts around it and the wait
  for the tunnel are in \<open>Tunnel_Runner\<close>.
\<close>

section \<open>Configuration\<close>

record payment_chain =
  pcNodeKey :: bytes
  MaxCapacityPerVirtualChannel :: string
  PercentFeePerVirtualChannel :: rat \<comment> \<open>a float64\<close>
  MinFeePerVirtualChannel :: string

record tunnel_section_payment =
  payChain :: "payment_chain list"
  payJettonMaster :: "string option"
  payExtraCurrencyID :: u32
  PricePerPacketRouteNano :: u64
  PricePerPacketOutNano :: u64

record tunnel_route_section =
  tsKey :: bytes
  tsPayment :: "tunnel_section_payment option"

record client_config =
  TunnelSectionsNum :: nat
  PaymentsEnabled :: bool

definition PublicKeySize :: nat where "PublicKeySize = 32"

text \<open>Which section of a route a key is generated for.\<close>

datatype key_use = KeyTo nat | KeyBack | KeyFrom nat | KeyGate | KeyUs | KeyPayload

text \<open>
  The environment of one call: addresses and amounts are parsed by the address and \<open>tlb\<close> packages,
  the decimals of a coin come from the payment service, and each attempt has its own keys and
  shuffles. \<open>shuffle k 0\<close> permutes the whole pool, \<open>shuffle k 1\<close> the pool without the gate.
\<close>

record setup_host =
  ParseAddr :: "string \<Rightarrow> bytes option"
  CoinDecimals :: "bytes option \<Rightarrow> u32 \<Rightarrow> nat option"
  FromDecimal :: "string \<Rightarrow> nat \<Rightarrow> int option"
  setup_key :: "nat \<Rightarrow> key_use \<Rightarrow> bytes option"
  seed_ok :: "nat \<Rightarrow> bool"
  shuffle :: "nat \<Rightarrow> nat \<Rightarrow> tunnel_route_section list \<Rightarrow> tunnel_route_section list"
  Acceptor :: "section_info list \<Rightarrow> section_info list \<Rightarrow> nat"

definition AcceptorDecisionCancel :: nat where "AcceptorDecisionCancel = 0"
definition AcceptorDecisionAccept :: nat where "AcceptorDecisionAccept = 1"

section \<open>From configuration to sections\<close>

primrec payment_tunnel :: "setup_host \<Rightarrow> nat \<Rightarrow> payment_chain list \<Rightarrow> go_error + payment_tunnel_section list" where
  "payment_tunnel H decimals [] = Inr []"
| "payment_tunnel H decimals (pc # pcs) =
     (if length (pcNodeKey pc) \<noteq> PublicKeySize then Inl (ErrSetup ErrKeySize)
      else case FromDecimal H (MinFeePerVirtualChannel pc) decimals of
        None \<Rightarrow> Inl (ErrSetup ErrPaymentFee)
      | Some minFee \<Rightarrow>
          (case FromDecimal H (MaxCapacityPerVirtualChannel pc) decimals of
             None \<Rightarrow> Inl (ErrSetup ErrPaymentCap)
           | Some maxCap \<Rightarrow>
               (case payment_tunnel H decimals pcs of
                  Inl e \<Rightarrow> Inl e
                | Inr ptn \<Rightarrow> Inr (\<lparr>ptKey = pcNodeKey pc, MinFee = minFee,
                                  PercentFee = \<lparr>prec = 53, val = PercentFeePerVirtualChannel pc\<rparr>, MaxCapacity = maxCap\<rparr> # ptn))))"

definition new_payer :: "setup_host \<Rightarrow> tunnel_section_payment \<Rightarrow> bool \<Rightarrow> go_error + payer" where
  "new_payer H pm isOut =
     (case (case payJettonMaster pm of None \<Rightarrow> Inr None
              | Some a \<Rightarrow> (case ParseAddr H a of None \<Rightarrow> Inl (ErrSetup ErrJettonMaster) | Some j \<Rightarrow> Inr (Some j))) of
        Inl e \<Rightarrow> Inl e
      | Inr jetton \<Rightarrow>
          (case CoinDecimals H jetton (payExtraCurrencyID pm) of
             None \<Rightarrow> Inl (ErrSetup ErrCoinConfig)
           | Some decimals \<Rightarrow>
               (case payment_tunnel H decimals (payChain pm) of
                  Inl e \<Rightarrow> Inl e
                | Inr ptn \<Rightarrow>
                    Inr \<lparr>PaymentTunnel = ptn,
                         PricePerPacket = (if isOut then PricePerPacketOutNano pm else PricePerPacketRouteNano pm),
                         JettonMaster = jetton, ExtraCurrencyID = payExtraCurrencyID pm, PaidPackets = 0,
                         CurrentChannel = None, PaidChannelFee = None, LatestChannelDeadline = 0,
                         LatestPaidOnSeqno = 0, LatestInstruction = None, LatestPacketsPaid = 0\<rparr>)))"

definition paymentConfigToSections ::
  "setup_host \<Rightarrow> crypto \<Rightarrow> bytes option \<Rightarrow> tunnel_route_section \<Rightarrow> bool \<Rightarrow> bool \<Rightarrow> go_error + section_info" where
  "paymentConfigToSections H C generated s isOut pay =
     (if length (tsKey s) \<noteq> PublicKeySize then Inl (ErrSetup ErrKeySize)
      else case GenerateEncryptionKeys C generated (tsKey s) of
        Inl e \<Rightarrow> Inl e
      | Inr k \<Rightarrow>
          (case tsPayment s of
             Some pm \<Rightarrow>
               if pay then (case new_payer H pm isOut of Inl e \<Rightarrow> Inl e | Inr p \<Rightarrow> Inr \<lparr>Keys = k, PaymentInfo = Some p\<rparr>)
               else Inr \<lparr>Keys = k, PaymentInfo = None\<rparr>
           | None \<Rightarrow> Inr \<lparr>Keys = k, PaymentInfo = None\<rparr>))"

section \<open>Assembling a route\<close>

text \<open>The loop over the outbound relays; the first relay is converted twice, for the way out and for the way back.\<close>

fun out_loop ::
  "(key_use \<Rightarrow> tunnel_route_section \<Rightarrow> go_error + section_info) \<Rightarrow> tunnel_route_section list \<Rightarrow> nat \<Rightarrow> nat
   \<Rightarrow> section_info list \<Rightarrow> section_info option \<Rightarrow> go_error + section_info list \<times> section_info option" where
  "out_loop conv pool i 0 to siBack = Inr (to, siBack)"
| "out_loop conv pool i (Suc m) to siBack =
     (if length pool \<le> i then Inl PanicIndex
      else case conv (KeyTo i) (pool ! i) of
        Inl e \<Rightarrow> Inl e
      | Inr si \<Rightarrow>
          (case siBack of
             Some b \<Rightarrow> out_loop conv pool (Suc i) m (to @ [si]) siBack
           | None \<Rightarrow>
               (case conv KeyBack (pool ! i) of
                  Inl e \<Rightarrow> Inl e
                | Inr b \<Rightarrow> out_loop conv pool (Suc i) m (to @ [si]) (Some b))))"

fun in_loop ::
  "(key_use \<Rightarrow> tunnel_route_section \<Rightarrow> go_error + section_info) \<Rightarrow> tunnel_route_section list \<Rightarrow> nat \<Rightarrow> nat
   \<Rightarrow> section_info list \<Rightarrow> go_error + section_info list" where
  "in_loop conv pool i 0 from = Inr from"
| "in_loop conv pool i (Suc m) from =
     (if length pool \<le> i then Inl PanicIndex
      else case conv (KeyFrom i) (pool ! i) of Inl e \<Rightarrow> Inl e | Inr si \<Rightarrow> in_loop conv pool (Suc i) m (from @ [si]))"

fun find_receiver :: "bytes \<Rightarrow> nat \<Rightarrow> section_info list \<Rightarrow> nat option" where
  "find_receiver key i [] = None"
| "find_receiver key i (nd # nds) = (if ReceiverPubKey (Keys nd) = key then Some i else find_receiver key (Suc i) nds)"

text \<open>The way back must end at the entry node: move it to the end, or put it there.\<close>

definition end_at_entry :: "section_info option \<Rightarrow> section_info list \<Rightarrow> section_info list" where
  "end_at_entry siBack from =
     (case siBack of
        Some b \<Rightarrow>
          if from = [] then from
          else (case find_receiver (ReceiverPubKey (Keys b)) 0 from of
                  Some i \<Rightarrow> from[i := last from, length from - 1 := from ! i]
                | None \<Rightarrow> from[length from - 1 := b])
      | None \<Rightarrow> from)"

definition assemble ::
  "(key_use \<Rightarrow> bool \<Rightarrow> tunnel_route_section \<Rightarrow> go_error + section_info) \<Rightarrow> nat
   \<Rightarrow> (tunnel_route_section list \<Rightarrow> tunnel_route_section list) \<Rightarrow> tunnel_route_section list
   \<Rightarrow> tunnel_route_section list \<times> (go_error + section_info list \<times> section_info list \<times> tunnel_route_section list)" where
  "assemble conv num reshuffle nodes =
     (case nodes of
        [] \<Rightarrow> (nodes, Inl PanicIndex)
      | out # pool \<Rightarrow>
          (if 1 < num
           then (case out_loop (\<lambda>u. conv u False) pool 0 (num - 1) [] None of
                   Inl e \<Rightarrow> (nodes, Inl e)
                 | Inr (to, siBack) \<Rightarrow>
                     let pool' = reshuffle pool
                     in case in_loop (\<lambda>u. conv u False) pool' 0 (num - 1) [] of
                          Inl e \<Rightarrow> (out # pool', Inl e)
                        | Inr from \<Rightarrow>
                            (case conv KeyGate True out of
                               Inl e \<Rightarrow> (out # pool', Inl e)
                             | Inr siGate \<Rightarrow>
                                 (out # pool', Inr (to @ [siGate], end_at_entry siBack from, out # take (num - 1) pool @ take (num - 1) pool'))))
           else (case conv KeyGate True out of
                   Inl e \<Rightarrow> (nodes, Inl e)
                 | Inr siGate \<Rightarrow> (nodes, Inr ([siGate], [], [out])))))"

text \<open>
  The string that names a route joins the base64 receiver keys of both chains with arrows; it is
  the list of these keys here.
\<close>

definition route_name :: "section_info list \<Rightarrow> section_info list \<Rightarrow> bytes list" where
  "route_name to from = map (\<lambda>nd. ReceiverPubKey (Keys nd)) (to @ from)"

text \<open>
  Routes are assembled until one was not tried before, at most 51 times. The result carries the
  pool as the shuffles left it, the attempts, and an error with the flag that allows a retry.
\<close>

function choose_route ::
  "setup_host \<Rightarrow> crypto \<Rightarrow> client_config \<Rightarrow> bool \<Rightarrow> nat \<Rightarrow> tunnel_route_section list \<Rightarrow> bytes list set
   \<Rightarrow> tunnel_route_section list \<times> bytes list set \<times> ((go_error \<times> bool) + nat \<times> section_info list \<times> section_info list \<times> tunnel_route_section list)" where
  "choose_route H C cfg pay tries nodes attempts =
     (if 50 < tries then (nodes, attempts, Inl (ErrSetup ErrNoMoreRoutes, True))
      else if \<not> seed_ok H tries then (nodes, attempts, Inl (ErrRand, False))
      else case assemble (\<lambda>u isOut s. paymentConfigToSections H C (setup_key H tries u) s isOut pay) (TunnelSectionsNum cfg)
                  (shuffle H tries 1) (shuffle H tries 0 nodes) of
        (nodes', Inl e) \<Rightarrow> (nodes', attempts, Inl (e, False))
      | (nodes', Inr (to, from, acting)) \<Rightarrow>
          if route_name to from \<in> attempts then choose_route H C cfg pay (tries + 1) nodes' attempts
          else let attempts' = insert (route_name to from) attempts; den = Acceptor H to from
               in if den \<noteq> AcceptorDecisionAccept
                  then (nodes', attempts', if den = AcceptorDecisionCancel then Inl (ErrSetup ErrRouteCanceled, False)
                                           else Inl (ErrSetup ErrRouteNotAccepted, True))
                  else (nodes', attempts', Inr (tries, to, from, acting)))"
  by pat_completeness auto
termination choose_route
  by (relation "measure (\<lambda>(H, C, cfg, pay, tries, nodes, attempts). 51 - tries)") auto

declare choose_route.simps [simp del]

section \<open>Payment channels for a route\<close>

text \<open>
  What the chain and the payment service answer: the active channels (key of the other side and
  address) or an error; for an address, an error, or whether an open channel was found there;
  whether a channel can be deployed, and whether it gets ready.
\<close>

record chain_view =
  ListChannels :: "(bytes \<times> bytes) list option"
  account_open :: "bytes \<Rightarrow> bool option"
  OpenChannelWithNode :: "bytes \<Rightarrow> bytes option \<Rightarrow> u32 \<Rightarrow> bool"
  gets_ready :: "bytes \<Rightarrow> bytes option \<Rightarrow> u32 \<Rightarrow> bool"

type_synonym deployment = "bytes \<times> bytes option \<times> u32"

primrec open_channel_loop :: "chain_view \<Rightarrow> bytes \<Rightarrow> (bytes \<times> bytes) list \<Rightarrow> go_error + bytes option" where
  "open_channel_loop V ch [] = Inr None"
| "open_channel_loop V ch (c # cs) =
     (if fst c = ch
      then (case account_open V (snd c) of
              None \<Rightarrow> Inl (ErrSetup ErrAccount)
            | Some True \<Rightarrow> Inr (Some (fst c))
            | Some False \<Rightarrow> open_channel_loop V ch cs)
      else open_channel_loop V ch cs)"

definition deploy_channel :: "chain_view \<Rightarrow> bytes \<Rightarrow> bytes option \<Rightarrow> u32 \<Rightarrow> deployment list \<Rightarrow> deployment list \<times> (go_error + bytes)" where
  "deploy_channel V ch jetton ecID ds =
     (if \<not> OpenChannelWithNode V ch jetton ecID then (ds, Inl (ErrSetup ErrDeploy))
      else (ds @ [(ch, jetton, ecID)], if gets_ready V ch jetton ecID then Inr ch else Inl (ErrSetup ErrGetChannel)))"

definition preparePayerPaymentChannel ::
  "chain_view \<Rightarrow> bytes \<Rightarrow> bytes option \<Rightarrow> u32 \<Rightarrow> deployment list \<Rightarrow> deployment list \<times> (go_error + bytes)" where
  "preparePayerPaymentChannel V ch jetton ecID ds =
     (case ListChannels V of
        None \<Rightarrow> (ds, Inl (ErrSetup ErrListChannels))
      | Some cs \<Rightarrow>
          (case open_channel_loop V ch cs of
             Inl e \<Rightarrow> (ds, Inl e)
           | Inr (Some key) \<Rightarrow> (ds, Inr key)
           | Inr None \<Rightarrow> deploy_channel V ch jetton ecID ds))"

text \<open>\<open>requiredChannels\<close> holds the node key, the extra currency and the jetton of what was checked.\<close>

primrec check_loop ::
  "setup_host \<Rightarrow> chain_view \<Rightarrow> tunnel_route_section list \<Rightarrow> (bytes \<times> u32 \<times> string option) set \<Rightarrow> deployment list
   \<Rightarrow> deployment list \<times> go_error option" where
  "check_loop H V [] required ds = (ds, None)"
| "check_loop H V (s # ss) required ds =
     (case tsPayment s of
        None \<Rightarrow> check_loop H V ss required ds
      | Some pm \<Rightarrow>
          (case payChain pm of
             [] \<Rightarrow> (ds, Some (ErrSetup ErrNoPaymentNodes))
           | pc # _ \<Rightarrow>
               (case (case payJettonMaster pm of None \<Rightarrow> Some None | Some a \<Rightarrow> map_option Some (ParseAddr H a)) of
                  None \<Rightarrow> (ds, Some PanicMust)
                | Some jetton \<Rightarrow>
                    let key = (pcNodeKey pc, payExtraCurrencyID pm, payJettonMaster pm)
                    in if key \<in> required then check_loop H V ss required ds
                       else case preparePayerPaymentChannel V (pcNodeKey pc) jetton (payExtraCurrencyID pm) ds of
                              (ds', Inl e) \<Rightarrow> (ds', Some e)
                            | (ds', Inr _) \<Rightarrow> check_loop H V ss (insert key required) ds')))"

definition checkAndDeployPaymentChannels ::
  "setup_host \<Rightarrow> chain_view \<Rightarrow> tunnel_route_section list \<Rightarrow> deployment list \<Rightarrow> deployment list \<times> go_error option" where
  "checkAndDeployPaymentChannels H V nodes ds = check_loop H V nodes {} ds"

section \<open>Configuring the tunnel\<close>

text \<open>\<open>configureRoute\<close> up to the creation of the tunnel, whose confirmation the caller then waits for.\<close>

definition configureRoute ::
  "setup_host \<Rightarrow> host \<Rightarrow> crypto \<Rightarrow> env \<Rightarrow> chain_view \<Rightarrow> client_config \<Rightarrow> tunnel_route_section list \<Rightarrow> bytes list set
   \<Rightarrow> deployment list \<Rightarrow> 'a tun_gateway_scheme
   \<Rightarrow> tunnel_route_section list \<times> bytes list set \<times> deployment list \<times> 'a tun_gateway_scheme \<times> ((go_error \<times> bool) + ptr)" where
  "configureRoute H HT C E V cfg nodes attempts ds s =
     (case choose_route H C cfg (payService s) 0 nodes attempts of
        (nodes', attempts', Inl e) \<Rightarrow> (nodes', attempts', ds, s, Inl e)
      | (nodes', attempts', Inr (k, to, from, acting)) \<Rightarrow>
          (case GenerateEncryptionKeys C (setup_key H k KeyUs) (PublicKey C (gwKey s)) of
             Inl e \<Rightarrow> (nodes', attempts', ds, s, Inl (e, False))
           | Inr toUs \<Rightarrow>
               let from' = from @ [\<lparr>Keys = toUs, PaymentInfo = None\<rparr>];
                   (ds', err) = (if payService s then checkAndDeployPaymentChannels H V acting ds else (ds, None))
               in case err of
                    Some e \<Rightarrow> (nodes', attempts', ds', s, Inl (e, False))
                  | None \<Rightarrow>
                      (case CreateRegularOutTunnel HT C E (setup_key H k KeyPayload) to from' s of
                         (s', Inl e) \<Rightarrow> (nodes', attempts', ds', s', Inl (e, True))
                       | (s', Inr t) \<Rightarrow> (nodes', attempts', ds', s', Inr t))))"

text \<open>The start of \<open>RunTunnel\<close>: the nodes that match the payment settings.\<close>

definition usable_nodes :: "client_config \<Rightarrow> tunnel_route_section list \<Rightarrow> go_error + tunnel_route_section list" where
  "usable_nodes cfg pool =
     (let nodes = (if PaymentsEnabled cfg then pool else filter (\<lambda>sec. tsPayment sec = None) pool)
      in if nodes = [] then Inl (ErrSetup ErrNoNodes)
         else if length nodes < TunnelSectionsNum cfg then Inl (ErrSetup ErrNotEnoughNodes) else Inr nodes)"

text \<open>What \<open>RunTunnel\<close> does with a failure: forget the attempts, and give up or retry.\<close>

definition after_failure :: "go_error \<times> bool \<Rightarrow> bytes list set \<Rightarrow> bytes list set \<times> bool" where
  "after_failure res attempts = (if fst res = ErrSetup ErrNoMoreRoutes then {} else attempts, snd res)"

text \<open>The check every five seconds whether to ask for another route.\<close>

definition ask_reroute :: "int \<Rightarrow> int \<Rightarrow> int \<Rightarrow> bool" where
  "ask_reroute tm lastFullyChecked lastAsk \<longleftrightarrow> 45 < tm - lastFullyChecked \<and> 60 < tm - lastAsk"

section \<open>Sections of a route\<close>

definition receiver :: "section_info \<Rightarrow> bytes" where
  "receiver nd = ReceiverPubKey (Keys nd)"

lemma keys_receiver: "GenerateEncryptionKeys C g pub = Inr k \<Longrightarrow> ReceiverPubKey k = pub"
  by (auto simp: GenerateEncryptionKeys_def NewEncryptionKeys_def split: option.splits)

lemma keys_no_panic: "GenerateEncryptionKeys C g pub = Inl e \<Longrightarrow> \<not> is_panic e"
  by (auto simp: GenerateEncryptionKeys_def NewEncryptionKeys_def is_panic_def split: option.splits)

lemma payment_tunnel_no_panic: "payment_tunnel H d pcs = Inl e \<Longrightarrow> \<not> is_panic e"
  by (induction pcs) (auto simp: is_panic_def split: if_splits option.splits sum.splits)

lemma new_payer_no_panic: "new_payer H pm isOut = Inl e \<Longrightarrow> \<not> is_panic e"
  by (auto simp: new_payer_def is_panic_def split: option.splits sum.splits dest: payment_tunnel_no_panic [unfolded is_panic_def])

text \<open>The contract of the conversion the route is assembled with.\<close>

locale conversion =
  fixes conv :: "key_use \<Rightarrow> tunnel_route_section \<Rightarrow> go_error + section_info"
  assumes conv_receiver: "conv u s = Inr si \<Longrightarrow> receiver si = tsKey s"
    and conv_no_panic: "conv u s = Inl e \<Longrightarrow> \<not> is_panic e"
begin

lemma out_loop_sections:
  assumes "out_loop conv pool i m to back0 = Inr (to', b)" "i + m \<le> length pool"
  shows "map receiver to' = map receiver to @ map tsKey (take m (drop i pool)) \<and>
    (case back0 of Some x \<Rightarrow> b = back0 | None \<Rightarrow> 0 < m \<longrightarrow> (\<exists>x. b = Some x \<and> receiver x = tsKey (pool ! i)))"
  using assms
proof (induction m arbitrary: i to back0)
  case (Suc m)
  have t: "take (Suc m) (drop i pool) = pool ! i # take m (drop (Suc i) pool)"
    using Suc.prems(2) by (simp add: Cons_nth_drop_Suc [symmetric])
  from Suc.prems obtain si where si: "conv (KeyTo i) (pool ! i) = Inr si" by (auto split: sum.splits if_splits)
  show ?case
  proof (cases back0)
    case None
    with Suc.prems si obtain x where x: "conv KeyBack (pool ! i) = Inr x" "out_loop conv pool (Suc i) m (to @ [si]) (Some x) = Inr (to', b)"
      by (auto split: sum.splits if_splits)
    from Suc.IH [OF x(2)] Suc.prems(2) None t conv_receiver [OF si] conv_receiver [OF x(1)] show ?thesis by simp
  next
    case (Some x)
    with Suc.prems si have "out_loop conv pool (Suc i) m (to @ [si]) (Some x) = Inr (to', b)" by (auto split: if_splits)
    from Suc.IH [OF this] Suc.prems(2) Some t conv_receiver [OF si] show ?thesis by simp
  qed
qed (auto split: option.splits)

lemma out_loop_no_panic:
  assumes "out_loop conv pool i m to back0 = Inl e" "i + m \<le> length pool"
  shows "\<not> is_panic e"
  using assms
proof (induction m arbitrary: i to back0)
  case (Suc m)
  then show ?case by (auto split: sum.splits option.splits if_splits dest: conv_no_panic)
qed simp

lemma in_loop_sections:
  assumes "in_loop conv pool i m from = Inr from'" "i + m \<le> length pool"
  shows "map receiver from' = map receiver from @ map tsKey (take m (drop i pool))"
  using assms
proof (induction m arbitrary: i "from")
  case (Suc m)
  have t: "take (Suc m) (drop i pool) = pool ! i # take m (drop (Suc i) pool)"
    using Suc.prems(2) by (simp add: Cons_nth_drop_Suc [symmetric])
  from Suc.prems obtain si where si: "conv (KeyFrom i) (pool ! i) = Inr si" "in_loop conv pool (Suc i) m (from @ [si]) = Inr from'"
    by (auto split: sum.splits if_splits)
  from Suc.IH [OF si(2)] Suc.prems(2) t conv_receiver [OF si(1)] show ?case by simp
qed simp

lemma in_loop_no_panic:
  assumes "in_loop conv pool i m from = Inl e" "i + m \<le> length pool"
  shows "\<not> is_panic e"
  using assms
proof (induction m arbitrary: i "from")
  case (Suc m)
  then show ?case by (auto split: sum.splits if_splits dest: conv_no_panic)
qed simp

end

interpretation sections: conversion "\<lambda>u s. paymentConfigToSections H C (g u) s isOut pay" for H C g isOut pay
proof
  fix u s si e
  show "paymentConfigToSections H C (g u) s isOut pay = Inr si \<Longrightarrow> receiver si = tsKey s"
    by (auto simp: paymentConfigToSections_def receiver_def split: if_splits sum.splits option.splits dest: keys_receiver)
  show "paymentConfigToSections H C (g u) s isOut pay = Inl e \<Longrightarrow> \<not> is_panic e"
    by (auto simp: paymentConfigToSections_def split: if_splits sum.splits option.splits dest: keys_no_panic new_payer_no_panic)
       (simp add: is_panic_def)
qed

lemma find_receiver_Some: "find_receiver key i nds = Some j \<Longrightarrow> i \<le> j \<and> j < i + length nds \<and> receiver (nds ! (j - i)) = key"
proof (induction nds arbitrary: i)
  case (Cons nd nds)
  show ?case
  proof (cases "ReceiverPubKey (Keys nd) = key")
    case False
    with Cons.prems have "find_receiver key (Suc i) nds = Some j" by simp
    from Cons.IH [OF this] show ?thesis by (auto simp: nth_Cons' Suc_diff_le not_le)
  qed (use Cons.prems in \<open>simp add: receiver_def\<close>)
qed simp

lemma find_receiver_None: "find_receiver key i nds = None \<Longrightarrow> key \<notin> receiver ` set nds"
  by (induction nds arbitrary: i) (auto simp: receiver_def split: if_splits)

text \<open>The way back keeps its length and its nodes differ, and it ends at the entry node.\<close>

lemma end_at_entry:
  fixes b :: section_info
  assumes "nds \<noteq> []" "distinct (map receiver nds)"
  defines "r \<equiv> end_at_entry (Some b) nds"
  shows "length r = length nds" "receiver (last r) = receiver b" "distinct (map receiver r)"
    "receiver ` set r \<subseteq> insert (receiver b) (receiver ` set nds)"
proof -
  let ?n = "length nds - 1"
  have "length r = length nds \<and> receiver (last r) = receiver b \<and> distinct (map receiver r) \<and>
      receiver ` set r \<subseteq> insert (receiver b) (receiver ` set nds)"
  proof (cases "find_receiver (receiver b) 0 nds")
    case (Some i)
    from find_receiver_Some [OF Some] have i: "i < length nds" "receiver (nds ! i) = receiver b" by simp_all
    have r: "r = nds[i := nds ! ?n, ?n := nds ! i]"
      using Some assms(1) by (simp add: r_def end_at_entry_def receiver_def last_conv_nth)
    have m: "mset r = mset nds" unfolding r using i(1) assms(1) by (intro mset_swap) simp_all
    then have "set r = set nds" by (rule mset_eq_setD)
    moreover from m have "mset (map receiver r) = mset (map receiver nds)" by simp
    then have "distinct (map receiver r)" using assms(2) by (metis mset_eq_imp_distinct_iff)
    moreover have "last r = nds ! i" using assms(1) by (simp add: r last_conv_nth)
    ultimately show ?thesis using i(2) by (auto simp: r)
  next
    case None
    then have nb: "receiver b \<notin> receiver ` set nds" by (rule find_receiver_None)
    have "r = nds[?n := b]" using None assms(1) by (simp add: r_def end_at_entry_def receiver_def)
    then have r: "r = butlast nds @ [b]" using assms(1) by (metis append_butlast_last_id length_butlast list_update_length)
    have "distinct (map receiver (butlast nds))" using assms(2) by (simp add: map_butlast distinct_butlast)
    moreover have "set (butlast nds) \<subseteq> set nds" by (meson in_set_butlastD subsetI)
    ultimately show ?thesis using nb assms(1) by (auto simp: r)
  qed
  then show "length r = length nds" "receiver (last r) = receiver b" "distinct (map receiver r)"
    "receiver ` set r \<subseteq> insert (receiver b) (receiver ` set nds)" by blast+
qed

lemma permuted_pool:
  fixes xs ys :: "tunnel_route_section list"
  assumes "mset xs = mset ys"
  shows "xs = [] \<longleftrightarrow> ys = []" "length xs = length ys" "set xs = set ys" "distinct (map tsKey xs) \<longleftrightarrow> distinct (map tsKey ys)"
proof -
  from assms show "length xs = length ys" "set xs = set ys" by (rule mset_eq_length, rule mset_eq_setD)
  then show "xs = [] \<longleftrightarrow> ys = []" by auto
  from assms have "mset (map tsKey xs) = mset (map tsKey ys)" by simp
  then show "distinct (map tsKey xs) \<longleftrightarrow> distinct (map tsKey ys)" by (rule mset_eq_imp_distinct_iff)
qed

text \<open>
  A good route of \<open>num\<close> sections: no node twice in one direction, the gate not on the way back, all
  nodes from the pool, and the way back ends at the node where the way out begins.
\<close>

definition route_ok :: "nat \<Rightarrow> tunnel_route_section list \<Rightarrow> section_info list \<Rightarrow> section_info list \<Rightarrow> bool" where
  "route_ok num pool to fr \<longleftrightarrow> length to = max 1 num \<and> length fr = max 1 num - 1 \<and>
     distinct (map receiver to) \<and> distinct (map receiver fr) \<and> receiver (last to) \<notin> receiver ` set fr \<and>
     receiver ` set (to @ fr) \<subseteq> tsKey ` set pool \<and> (1 < num \<longrightarrow> receiver (last fr) = receiver (hd to))"

lemma two_ways_ok:
  assumes "distinct (map tsKey (g # pool))" "mset pool' = mset pool" "1 < num" "num \<le> length (g # pool)"
    and to: "map receiver to = map tsKey (take (num - 1) pool)" and fr: "map receiver fr = map tsKey (take (num - 1) pool')"
    and x: "receiver x = tsKey (pool ! 0)" and gate: "receiver si = tsKey g"
  shows "route_ok num (g # pool) (to @ [si]) (end_at_entry (Some x) fr)"
proof -
  note len = permuted_pool(2,3) [OF assms(2)]
  have d': "distinct (map tsKey pool')" using assms(1) permuted_pool(4) [OF assms(2)] by simp
  have "num - 1 \<le> length pool" using assms(4) by simp
  then have l: "length to = num - 1" "length fr = num - 1"
    using arg_cong [OF to, of length] arg_cong [OF fr, of length] len(1) by (simp_all add: min_absorb2)
  with assms(3) have ne: "fr \<noteq> []" "to \<noteq> []" "pool \<noteq> []" using assms(4) by auto
  have df: "distinct (map receiver fr)" unfolding fr take_map [symmetric] using d' by (rule distinct_take)
  have dt: "distinct (map receiver to)" unfolding to take_map [symmetric] using assms(1) by (intro distinct_take) simp
  note e = end_at_entry [OF ne(1) df, of x]
  have sub: "receiver ` set to \<subseteq> tsKey ` set pool" "receiver ` set fr \<subseteq> tsKey ` set pool"
    using arg_cong [OF to, of set] arg_cong [OF fr, of set] len(2) set_take_subset [of "num - 1" pool] set_take_subset [of "num - 1" pool']
    by (simp_all add: image_mono)
  moreover have "receiver x \<in> tsKey ` set pool" using x ne(3) by simp
  ultimately have "insert (receiver x) (receiver ` set fr) \<subseteq> tsKey ` set pool" by simp
  with e(4) have sub': "receiver ` set (end_at_entry (Some x) fr) \<subseteq> tsKey ` set pool" by (rule subset_trans)
  have g: "tsKey g \<notin> tsKey ` set pool" using assms(1) by auto
  have "map receiver to ! 0 = map tsKey (take (num - 1) pool) ! 0" using to by simp
  then have "receiver (hd to) = tsKey (pool ! 0)" using ne assms(3) by (simp add: hd_conv_nth)
  then have h: "receiver (hd (to @ [si])) = receiver x" using ne(2) x by simp
  have "receiver ` set ((to @ [si]) @ end_at_entry (Some x) fr) \<subseteq> tsKey ` set (g # pool)"
    unfolding set_append image_Un using sub(1) sub' gate by auto
  moreover have "distinct (map receiver (to @ [si]))" using dt sub(1) g gate by auto
  moreover have "receiver (last (to @ [si])) \<notin> receiver ` set (end_at_entry (Some x) fr)" using sub' g gate by auto
  ultimately show ?thesis using h e(1-3) l assms(3) by (simp add: route_ok_def)
qed

lemma assemble_route:
  assumes "\<And>isOut. conversion (\<lambda>u. conv u isOut)" "\<And>xs. mset (reshuffle xs) = mset xs"
    and "nodes \<noteq> []" "num \<le> length nodes" "distinct (map tsKey nodes)" "assemble conv num reshuffle nodes = (nodes', res)"
  shows "mset nodes' = mset nodes \<and> (case res of Inl e \<Rightarrow> \<not> is_panic e | Inr (to, fr, acting) \<Rightarrow> route_ok num nodes to fr \<and> set acting \<subseteq> set nodes)"
proof -
  obtain g pool where n: "nodes = g # pool" using assms(3) by (cases nodes) auto
  note cv = conversion.conv_receiver [OF assms(1)] conversion.conv_no_panic [OF assms(1)]
  show ?thesis
  proof (cases "1 < num")
    case False
    then show ?thesis using assms(6) n cv(1) [of KeyGate True g] cv(2) [of KeyGate True g]
      by (auto simp: assemble_def route_ok_def max_def split: sum.splits if_splits)
  next
    case True
    let ?pool = "reshuffle pool"
    have le: "0 + (num - 1) \<le> length pool" "0 + (num - 1) \<le> length ?pool"
      using assms(4) n mset_eq_length [OF assms(2) [of pool]] by auto
    show ?thesis
    proof (cases "out_loop (\<lambda>u. conv u False) pool 0 (num - 1) [] None")
      case (Inl e)
      with assms(6) n True conversion.out_loop_no_panic [OF assms(1) Inl le(1)] show ?thesis by (auto simp: assemble_def)
    next
      case (Inr r)
      obtain to b where r: "r = (to, b)" by fastforce
      from conversion.out_loop_sections [OF assms(1) Inr [unfolded r] le(1)] True obtain x where
        to: "map receiver to = map tsKey (take (num - 1) pool)" and x: "b = Some x" "receiver x = tsKey (pool ! 0)" by auto
      show ?thesis
      proof (cases "in_loop (\<lambda>u. conv u False) ?pool 0 (num - 1) []")
        case (Inl e)
        with assms(2,6) n True Inr r conversion.in_loop_no_panic [OF assms(1) Inl le(2)] show ?thesis by (auto simp: assemble_def Let_def)
      next
        case i: (Inr fr)
        from conversion.in_loop_sections [OF assms(1) i le(2)] have fr: "map receiver fr = map tsKey (take (num - 1) ?pool)" by simp
        have "route_ok num nodes (to @ [si]) (end_at_entry (Some x) fr)" if "conv KeyGate True g = Inr si" for si
          using two_ways_ok [OF _ assms(2) True _ to fr x(2) cv(1) [OF that]] assms(4,5) n by simp
        moreover have "set (take (num - 1) pool) \<subseteq> set nodes" "set (take (num - 1) ?pool) \<subseteq> set nodes"
          using n mset_eq_setD [OF assms(2) [of pool]] by (auto dest: in_set_takeD)
        ultimately show ?thesis using assms(2,6) n True Inr r x(1) i cv(2) [of KeyGate True g]
          by (auto simp: assemble_def Let_def split: sum.splits)
      qed
    qed
  qed
qed

section \<open>Properties\<close>

lemma choose_route_ok:
  assumes "\<And>k i xs. mset (shuffle H k i xs) = mset xs" "choose_route H C cfg pay tries nodes attempts = (nodes', attempts', res)"
    and "nodes \<noteq> []" "TunnelSectionsNum cfg \<le> length nodes" "distinct (map tsKey nodes)"
  shows "mset nodes' = mset nodes \<and>
    (case res of
       Inl (e, retry) \<Rightarrow> \<not> is_panic e
     | Inr (k, to, fr, acting) \<Rightarrow> tries \<le> k \<and> k \<le> 50 \<and> route_ok (TunnelSectionsNum cfg) nodes to fr \<and> set acting \<subseteq> set nodes \<and>
         route_name to fr \<notin> attempts \<and> attempts' = insert (route_name to fr) attempts)"
  using assms(2-5)
proof (induction "51 - tries" arbitrary: tries nodes rule: less_induct)
  case less
  let ?conv = "\<lambda>u isOut s. paymentConfigToSections H C (setup_key H tries u) s isOut pay"
  show ?case
  proof (cases "50 < tries \<or> \<not> seed_ok H tries")
    case True
    with less.prems(1) show ?thesis by (auto simp: choose_route.simps [of H C cfg pay tries] is_panic_def split: if_splits)
  next
    case False
    obtain nds r where a: "assemble ?conv (TunnelSectionsNum cfg) (shuffle H tries 1) (shuffle H tries 0 nodes) = (nds, r)" by fastforce
    have m: "mset (shuffle H tries 0 nodes) = mset nodes" by (rule assms(1))
    have sh: "shuffle H tries 0 nodes \<noteq> []" "TunnelSectionsNum cfg \<le> length (shuffle H tries 0 nodes)"
        "distinct (map tsKey (shuffle H tries 0 nodes))" "set (shuffle H tries 0 nodes) = set nodes"
      using less.prems(2-4) permuted_pool [OF m] by simp_all
    have ar: "mset nds = mset nodes" "case r of Inl e \<Rightarrow> \<not> is_panic e | Inr (to, fr, acting) \<Rightarrow>
        route_ok (TunnelSectionsNum cfg) nodes to fr \<and> set acting \<subseteq> set nodes"
      using assemble_route [OF sections.conversion_axioms assms(1) sh(1-3) a] m sh(4)
      by (auto simp: route_ok_def split: sum.splits)
    then have nd: "nds \<noteq> []" "TunnelSectionsNum cfg \<le> length nds" "distinct (map tsKey nds)" "set nds = set nodes"
      using less.prems(2-4) permuted_pool [OF ar(1)] by simp_all
    show ?thesis
    proof (cases r)
      case (Inl e)
      with less.prems(1) False a ar show ?thesis by (auto simp: choose_route.simps [of H C cfg pay tries])
    next
      case (Inr x)
      obtain to fr acting where x: "x = (to, fr, acting)" by (metis prod_cases3)
      show ?thesis
      proof (cases "route_name to fr \<in> attempts")
        case True
        then have c: "choose_route H C cfg pay (tries + 1) nds attempts = (nodes', attempts', res)"
          using less.prems(1) False a Inr x by (simp add: choose_route.simps [of H C cfg pay tries])
        have k: "51 - (tries + 1) < 51 - tries" using False by arith
        have "route_ok num nds = route_ok num nodes" for num by (simp add: route_ok_def fun_eq_iff nd(4))
        with less.hyps [OF k c nd(1-3)] ar(1) nd(4) show ?thesis by (auto split: sum.splits)
      next
        case new: False
        with less.prems(1) False a ar Inr x show ?thesis
          by (auto simp: choose_route.simps [of H C cfg pay tries] Let_def is_panic_def split: if_splits)
      qed
    qed
  qed
qed

lemma usable_nodes_enough:
  assumes "usable_nodes cfg pool = Inr nodes"
  shows "nodes \<noteq> []" "TunnelSectionsNum cfg \<le> length nodes" "set nodes \<subseteq> set pool"
    "\<not> PaymentsEnabled cfg \<Longrightarrow> s \<in> set nodes \<Longrightarrow> tsPayment s = None"
  using assms by (auto simp: usable_nodes_def Let_def split: if_splits)

lemma CreateRegularOutTunnel_created:
  assumes "CreateRegularOutTunnel HT C E g to fr s = (s', Inr t)"
  shows "tuns s' = tuns s @ [tuns s' ! t]" "t = length (tuns s)" "chainTo (tuns s' ! t) = to" "chainFrom (tuns s' ! t) = fr"
proof -
  have "tuns (AddReference p (snd (addPeer E adnl None s))) = tuns s" for p adnl
    by (simp add: addPeer_def AddReference_def lookup_or_new_def Let_def upd_peer_def spawn_def split: option.splits prod.splits)
  then have a: "addPeer E adnl None s = (p, s1) \<Longrightarrow> tuns (AddReference p s1) = tuns s" for p s1 adnl by (metis snd_conv)
  show "tuns s' = tuns s @ [tuns s' ! t]" "t = length (tuns s)" "chainTo (tuns s' ! t) = to" "chainFrom (tuns s' ! t) = fr"
    using assms by (auto simp: CreateRegularOutTunnel_def Let_def new_tunnel_def a split: if_splits option.splits sum.splits prod.splits)
qed

text \<open>
  C7. A tunnel is only configured over a good route. From a pool that passes the initial checks,
  whose keys differ, and with shuffles that only permute, the tunnel that \<open>configureRoute\<close> creates
  has as many sections as configured in each direction, no node twice in one direction, the gate
  not on the way back, all of them from the pool; the way back passes the entry node last and then
  the initiator itself, and this route was not tried before. The pool keeps its nodes.
\<close>

theorem configured_route_ok:
  assumes "\<And>k i xs. mset (shuffle H k i xs) = mset xs" "usable_nodes cfg pool = Inr nodes" "distinct (map tsKey nodes)"
    and "configureRoute H HT C E V cfg nodes attempts ds s = (nodes', attempts', ds', s', res)"
  shows "mset nodes' = mset nodes \<and>
    (\<forall>t. res = Inr t \<longrightarrow> t = length (tuns s) \<and> tuns s' = tuns s @ [tuns s' ! t] \<and>
       (\<exists>fr us. chainFrom (tuns s' ! t) = fr @ [us] \<and> receiver us = PublicKey C (gwKey s) \<and>
          route_ok (TunnelSectionsNum cfg) nodes (chainTo (tuns s' ! t)) fr \<and>
          route_name (chainTo (tuns s' ! t)) fr \<notin> attempts \<and>
          attempts' = insert (route_name (chainTo (tuns s' ! t)) fr) attempts))"
proof -
  note u = usable_nodes_enough [OF assms(2)]
  obtain nds ats r where c: "choose_route H C cfg (payService s) 0 nodes attempts = (nds, ats, r)" by (metis prod_cases3)
  note ok = choose_route_ok [OF assms(1) c u(1,2) assms(3)]
  have n: "nodes' = nds" "attempts' = ats"
    using assms(4) c by (auto simp: configureRoute_def Let_def split: sum.splits option.splits prod.splits if_splits)
  have "t = length (tuns s) \<and> tuns s' = tuns s @ [tuns s' ! t] \<and>
       (\<exists>fr us. chainFrom (tuns s' ! t) = fr @ [us] \<and> receiver us = PublicKey C (gwKey s) \<and>
          route_ok (TunnelSectionsNum cfg) nodes (chainTo (tuns s' ! t)) fr \<and>
          route_name (chainTo (tuns s' ! t)) fr \<notin> attempts \<and>
          attempts' = insert (route_name (chainTo (tuns s' ! t)) fr) attempts)" if "res = Inr t" for t
  proof -
    from assms(4) c that obtain k to fr acting toUs where x: "r = Inr (k, to, fr, acting)"
        "GenerateEncryptionKeys C (setup_key H k KeyUs) (PublicKey C (gwKey s)) = Inr toUs"
        "CreateRegularOutTunnel HT C E (setup_key H k KeyPayload) to (fr @ [\<lparr>Keys = toUs, PaymentInfo = None\<rparr>]) s = (s', Inr t)"
      by (auto simp: configureRoute_def Let_def split: sum.splits option.splits prod.splits if_splits)
    note t = CreateRegularOutTunnel_created [OF x(3)]
    have "receiver \<lparr>Keys = toUs, PaymentInfo = None\<rparr> = PublicKey C (gwKey s)" using keys_receiver [OF x(2)] by (simp add: receiver_def)
    with t ok x(1) n show ?thesis by auto
  qed
  with ok n show ?thesis by blast
qed

text \<open>A pool of three nodes and a route of two sections in each direction.\<close>

definition demo_setup :: setup_host where
  "demo_setup = \<lparr>ParseAddr = (\<lambda>a. Some [1]), CoinDecimals = (\<lambda>_ _. Some 9), FromDecimal = (\<lambda>_ _. Some 5),
     setup_key = (\<lambda>k u. Some [1, 2, 3, 4, 5]), seed_ok = (\<lambda>_. True), shuffle = (\<lambda>_ _ xs. rev xs), Acceptor = (\<lambda>_ _. 1)\<rparr>"

definition demo_pool :: "tunnel_route_section list" where
  "demo_pool = [\<lparr>tsKey = replicate 32 1, tsPayment = None\<rparr>, \<lparr>tsKey = replicate 32 2, tsPayment = None\<rparr>,
                \<lparr>tsKey = replicate 32 3, tsPayment = None\<rparr>]"

definition demo_chain_view :: chain_view where
  "demo_chain_view = \<lparr>ListChannels = Some [], account_open = (\<lambda>_. Some True), OpenChannelWithNode = (\<lambda>_ _ _. True), gets_ready = (\<lambda>_ _ _. True)\<rparr>"

lemma tun_gw_host [simp]: "gwKey tun_gw = [9]" "payService tun_gw"
  by (simp_all add: tun_gw_def gateway.defs tun_gateway.defs)

lemma demo_configured:
  "\<exists>nodes' attempts' ds' s' t. configureRoute demo_setup demo_host demo_crypto demo_env demo_chain_view \<lparr>TunnelSectionsNum = 2, PaymentsEnabled = False\<rparr>
     demo_pool {} [] tun_gw = (nodes', attempts', ds', s', Inr t)"
  by (simp add: configureRoute_def choose_route.simps assemble_def end_at_entry_def demo_setup_def demo_pool_def demo_host_def
      paymentConfigToSections_def PublicKeySize_def GenerateEncryptionKeys_def NewEncryptionKeys_def demo_crypto_def
      CreateRegularOutTunnel_def checkAndDeployPaymentChannels_def Uint32_def Let_def AcceptorDecisionAccept_def
      route_name_def split: prod.splits)

theorem configured_route_ok_witness:
  "\<exists>nodes' attempts' ds' s' t. configureRoute demo_setup demo_host demo_crypto demo_env demo_chain_view
       \<lparr>TunnelSectionsNum = 2, PaymentsEnabled = False\<rparr> demo_pool {} [] tun_gw = (nodes', attempts', ds', s', Inr t) \<and>
     length (chainTo (tuns s' ! t)) = 2 \<and> length (chainFrom (tuns s' ! t)) = 2"
proof -
  let ?cfg = "\<lparr>TunnelSectionsNum = 2, PaymentsEnabled = False\<rparr>"
  obtain nodes' attempts' ds' s' t where c: "configureRoute demo_setup demo_host demo_crypto demo_env demo_chain_view ?cfg demo_pool {} [] tun_gw
      = (nodes', attempts', ds', s', Inr t)" using demo_configured by blast
  have p: "mset (shuffle demo_setup k i xs) = mset xs" for k i xs by (simp add: demo_setup_def)
  have u: "usable_nodes ?cfg demo_pool = Inr demo_pool" "distinct (map tsKey demo_pool)" by (simp_all add: usable_nodes_def demo_pool_def)
  from configured_route_ok [OF p u c] have "length (chainTo (tuns s' ! t)) = 2 \<and> length (chainFrom (tuns s' ! t)) = 2"
    by (auto simp: route_ok_def)
  with c show ?thesis by blast
qed

text \<open>
  A channel with the payment node counts for every coin: an open channel in one coin is accepted
  where one in another coin is required, and nothing is deployed.
\<close>

lemma open_channel_found:
  assumes "(ch, a) \<in> set cs" "\<forall>c \<in> set cs. account_open V (snd c) = Some True"
  shows "open_channel_loop V ch cs = Inr (Some ch)"
  using assms by (induction cs) auto

lemma channel_of_any_coin_accepted:
  assumes "ListChannels V = Some cs" "(ch, a) \<in> set cs" "\<forall>c \<in> set cs. account_open V (snd c) = Some True"
  shows "preparePayerPaymentChannel V ch jetton ecID ds = (ds, Inr ch)"
  using assms by (simp add: preparePayerPaymentChannel_def open_channel_found)

text \<open>
  When the check of the payment channels succeeds, every node of the route that wants to be
  paid names a first payment node, and for that node there is an open channel or one was deployed
  in the coin of the section; what had been deployed before is kept.
\<close>

definition channel_ready :: "setup_host \<Rightarrow> chain_view \<Rightarrow> deployment list \<Rightarrow> tunnel_section_payment \<Rightarrow> bool" where
  "channel_ready H V ds pm \<longleftrightarrow> (\<exists>pc rest. payChain pm = pc # rest \<and>
     ((\<exists>cs. ListChannels V = Some cs \<and> open_channel_loop V (pcNodeKey pc) cs = Inr (Some (pcNodeKey pc))) \<or>
      (\<exists>jetton. (case payJettonMaster pm of None \<Rightarrow> jetton = None | Some a \<Rightarrow> jetton = ParseAddr H a \<and> jetton \<noteq> None) \<and>
         (pcNodeKey pc, jetton, payExtraCurrencyID pm) \<in> set ds)))"

lemma open_channel_key: "open_channel_loop V ch cs = Inr (Some key) \<Longrightarrow> key = ch"
  by (induction cs) (auto split: if_splits option.splits bool.splits)

lemma prepared:
  assumes "preparePayerPaymentChannel V ch jetton ecID ds = (ds', Inr key)"
  shows "set ds \<subseteq> set ds' \<and> ((\<exists>cs. ListChannels V = Some cs \<and> open_channel_loop V ch cs = Inr (Some ch)) \<or> (ch, jetton, ecID) \<in> set ds')"
  using assms by (auto simp: preparePayerPaymentChannel_def deploy_channel_def split: option.splits sum.splits if_splits dest: open_channel_key)

lemma channel_ready_mono: "channel_ready H V ds pm \<Longrightarrow> set ds \<subseteq> set ds' \<Longrightarrow> channel_ready H V ds' pm"
  unfolding channel_ready_def by blast

text \<open>What one node of the route needs: its channel is in the set of those checked before, or is prepared now.\<close>

lemma check_loop_Cons:
  assumes "check_loop H V (s # ss) required ds = (ds', None)" "tsPayment s = Some pm"
  obtains pc rest jetton where "payChain pm = pc # rest"
    "case payJettonMaster pm of None \<Rightarrow> jetton = None | Some a \<Rightarrow> jetton = ParseAddr H a \<and> jetton \<noteq> None"
    "let key = (pcNodeKey pc, payExtraCurrencyID pm, payJettonMaster pm)
     in if key \<in> required then check_loop H V ss required ds = (ds', None)
        else \<exists>ds1 k. preparePayerPaymentChannel V (pcNodeKey pc) jetton (payExtraCurrencyID pm) ds = (ds1, Inr k) \<and>
               check_loop H V ss (insert key required) ds1 = (ds', None)"
proof -
  from assms obtain pc rest where pc: "payChain pm = pc # rest" by (auto split: list.splits)
  from assms pc obtain jetton where jt:
      "(case payJettonMaster pm of None \<Rightarrow> Some None | Some a \<Rightarrow> map_option Some (ParseAddr H a)) = Some jetton"
    by (auto simp: Let_def split: option.splits)
  then have j: "case payJettonMaster pm of None \<Rightarrow> jetton = None | Some a \<Rightarrow> jetton = ParseAddr H a \<and> jetton \<noteq> None"
    by (auto split: option.splits)
  show thesis using assms pc jt by (intro that [OF pc j]) (auto simp: Let_def split: prod.splits sum.splits if_splits)
qed

lemma check_loop_ready:
  assumes "check_loop H V nodes required ds = (ds', None)"
    and "\<And>pm pc rest. payChain pm = pc # rest \<Longrightarrow> (pcNodeKey pc, payExtraCurrencyID pm, payJettonMaster pm) \<in> required \<Longrightarrow> channel_ready H V ds pm"
  shows "set ds \<subseteq> set ds' \<and> (\<forall>s \<in> set nodes. \<forall>pm. tsPayment s = Some pm \<longrightarrow> channel_ready H V ds' pm)"
  using assms
proof (induction nodes arbitrary: required ds)
  case (Cons s ss)
  show ?case
  proof (cases "tsPayment s")
    case None
    with Cons show ?thesis by auto
  next
    case (Some pm)
    from check_loop_Cons [OF Cons.prems(1) Some] obtain pc rest jetton where pc: "payChain pm = pc # rest"
      and j: "case payJettonMaster pm of None \<Rightarrow> jetton = None | Some a \<Rightarrow> jetton = ParseAddr H a \<and> jetton \<noteq> None"
      and j2: "let key = (pcNodeKey pc, payExtraCurrencyID pm, payJettonMaster pm)
         in if key \<in> required then check_loop H V ss required ds = (ds', None)
            else \<exists>ds1 k. preparePayerPaymentChannel V (pcNodeKey pc) jetton (payExtraCurrencyID pm) ds = (ds1, Inr k) \<and>
                   check_loop H V ss (insert key required) ds1 = (ds', None)" by blast
    let ?key = "(pcNodeKey pc, payExtraCurrencyID pm, payJettonMaster pm)"
    show ?thesis
    proof (cases "?key \<in> required")
      case True
      with j2 have "check_loop H V ss required ds = (ds', None)" by simp
      then have "set ds \<subseteq> set ds' \<and> (\<forall>s \<in> set ss. \<forall>pm. tsPayment s = Some pm \<longrightarrow> channel_ready H V ds' pm)"
        by (rule Cons.IH) (rule Cons.prems(2))
      with Cons.prems(2) [OF pc True] Some show ?thesis by (auto intro: channel_ready_mono)
    next
      case False
      with j2 obtain ds1 k where p: "preparePayerPaymentChannel V (pcNodeKey pc) jetton (payExtraCurrencyID pm) ds = (ds1, Inr k)"
        and l: "check_loop H V ss (insert ?key required) ds1 = (ds', None)" by (auto simp: Let_def)
      note r = prepared [OF p]
      have ready: "channel_ready H V ds1 pm'" if "payChain pm' = pc' # rest'"
        "(pcNodeKey pc', payExtraCurrencyID pm', payJettonMaster pm') \<in> insert ?key required" for pm' pc' rest'
        using that(2)
      proof (rule insertE)
        assume "(pcNodeKey pc', payExtraCurrencyID pm', payJettonMaster pm') = ?key"
        with r j that(1) show ?thesis unfolding channel_ready_def by (intro exI [of _ pc'] exI [of _ rest']) (auto split: option.splits)
      next
        assume "(pcNodeKey pc', payExtraCurrencyID pm', payJettonMaster pm') \<in> required"
        from channel_ready_mono [OF Cons.prems(2) [OF that(1) this]] r show ?thesis by blast
      qed
      have "set ds1 \<subseteq> set ds' \<and> (\<forall>s \<in> set ss. \<forall>pm. tsPayment s = Some pm \<longrightarrow> channel_ready H V ds' pm)"
        using l by (rule Cons.IH) (rule ready)
      with ready [OF pc insertI1] r Some show ?thesis by (auto intro: channel_ready_mono)
    qed
  qed
qed simp

lemma channels_prepared:
  assumes "checkAndDeployPaymentChannels H V nodes ds = (ds', None)"
  shows "set ds \<subseteq> set ds' \<and> (\<forall>s \<in> set nodes. \<forall>pm. tsPayment s = Some pm \<longrightarrow> channel_ready H V ds' pm)"
  using assms unfolding checkAndDeployPaymentChannels_def by (rule check_loop_ready) simp

definition paid_section :: "byte \<Rightarrow> tunnel_route_section" where
  "paid_section b = \<lparr>tsKey = replicate 32 b, tsPayment = Some \<lparr>payChain = [\<lparr>pcNodeKey = replicate 32 8, MaxCapacityPerVirtualChannel = ''3'',
     PercentFeePerVirtualChannel = 0, MinFeePerVirtualChannel = ''0''\<rparr>], payJettonMaster = None, payExtraCurrencyID = 0,
     PricePerPacketRouteNano = 2, PricePerPacketOutNano = 3\<rparr>\<rparr>"

lemma channels_prepared_witness:
  "\<exists>ds'. checkAndDeployPaymentChannels demo_setup demo_chain_view [paid_section 1, paid_section 2] [] = (ds', None) \<and>
     length ds' = 1 \<and> channel_ready demo_setup demo_chain_view ds' (the (tsPayment (paid_section 2)))"
proof -
  obtain ds' where d: "checkAndDeployPaymentChannels demo_setup demo_chain_view [paid_section 1, paid_section 2] [] = (ds', None)" "length ds' = 1"
    by (simp add: checkAndDeployPaymentChannels_def paid_section_def demo_chain_view_def preparePayerPaymentChannel_def deploy_channel_def Let_def)
  with channels_prepared [OF d(1)] show ?thesis by (auto simp: paid_section_def)
qed

end
