(* ===== verification/Client_Safety.thy ===== *)
theory Client_Safety
  imports Tunnel_Payments_Safety Route_Setup
begin

text \<open>
  A gateway together with the tunnels that start at it: the steps of \<open>Gateway\<close> with \<open>Process\<close> as the
  registered tunnel, and the calls of the client and of the tunnels' own goroutines, interleaved in
  any order.
\<close>

section \<open>The relay operations leave the tunnels alone\<close>

named_theorems relay_simps \<open>the relay's operations keep the tunnels and the number of peers\<close>

lemma relay_net: "net_step s s' \<Longrightarrow> tunnels s' = tunnels s \<and> tuns s' = tuns s" for s :: "'a tun_gateway_scheme"
  by (auto simp: net_step_def)

lemma relay_nets [relay_simps]:
  fixes s :: "'a tun_gateway_scheme"
  shows "tunnels (emit c s) = tunnels s" "tunnels (spawn t s) = tunnels s" "tunnels (upd_peer p f s) = tunnels s"
    "tunnels (closeConn p cmp s) = tunnels s" "tunnels (AddReference p s) = tunnels s" "tunnels (Dereference p s) = tunnels s"
    "tunnels (kill p s) = tunnels s" "tunnels (fst (SendCustomMessage E p m s)) = tunnels s"
    "tunnels (snd (addPeer E adnl conn s)) = tunnels s" "tunnels (discover_start p s) = tunnels s"
    "tunnels (fst (discover_finish E p s)) = tunnels s"
    "tuns (emit c s) = tuns s" "tuns (spawn t s) = tuns s" "tuns (upd_peer p f s) = tuns s"
    "tuns (closeConn p cmp s) = tuns s" "tuns (AddReference p s) = tuns s" "tuns (Dereference p s) = tuns s"
    "tuns (kill p s) = tuns s" "tuns (fst (SendCustomMessage E p m s)) = tuns s"
    "tuns (snd (addPeer E adnl conn s)) = tuns s" "tuns (discover_start p s) = tuns s"
    "tuns (fst (discover_finish E p s)) = tuns s"
  by (simp_all add: relay_net)

lemma relay_peers [relay_simps]:
  "length (peers (discover_start p s)) = length (peers s)" "length (peers (fst (discover_finish E p s))) = length (peers s)"
  by (simp_all add: discover_start_def discover_finish_def Let_def peer_simps split: option.split list.split)

lemma relay_addPeer: "length (peers s) \<le> length (peers (snd (addPeer E adnl conn s)))"
  by (simp add: length_peers_addPeer)

lemma relay_upds [relay_simps]:
  fixes s :: "'a tun_gateway_scheme"
  shows "tunnels (upd_sec sp f s) = tunnels s" "tuns (upd_sec sp f s) = tuns s" "peers (upd_sec sp f s) = peers s"
    "tunnels (upd_chan v g s) = tunnels s" "tuns (upd_chan v g s) = tuns s" "peers (upd_chan v g s) = peers s"
    "tunnels (gauge_routes b d s) = tunnels s" "tuns (gauge_routes b d s) = tuns s" "peers (gauge_routes b d s) = peers s"
    "tunnels (gauge_outs b d s) = tunnels s" "tuns (gauge_outs b d s) = tuns s" "peers (gauge_outs b d s) = peers s"
  by (simp_all add: upd_sec_def upd_chan_def gauge_routes_def gauge_outs_def)

definition kept :: "'a tun_gateway_scheme \<Rightarrow> 'a tun_gateway_scheme \<Rightarrow> bool" where
  "kept s s' \<longleftrightarrow> tunnels s' = tunnels s \<and> tuns s' = tuns s \<and> length (peers s) \<le> length (peers s')"

lemma kept_refl [simp]: "kept s s"
  by (simp add: kept_def)

lemma kept_trans [trans]: "kept s t \<Longrightarrow> kept t u \<Longrightarrow> kept s u"
  by (auto simp: kept_def)

lemma kept_fold: "(\<And>x t. kept t (f x t)) \<Longrightarrow> kept s (fold f xs s)"
  by (induction xs arbitrary: s) (auto intro: kept_trans)

lemma kept_closings: "kept s (closePaymentChannel v s)" "kept s (Route_Close r s)" "kept s (Out_Close sp ot s)"
  by (simp_all add: kept_def closePaymentChannel_def Route_Close_def Out_Close_def Let_def relay_simps peer_simps)

lemma kept_close_section: "kept s (close_section sp s)"
proof -
  let ?t = "fold Route_Close (map snd (routes (sec s sp))) (fold closePaymentChannel (map snd (sec_payments (sec s sp))) s)"
  have t: "kept s ?t" by (rule kept_trans [OF kept_fold [OF kept_closings(1)] kept_fold [OF kept_closings(2)]])
  have "kept ?t (close_section sp s)" using kept_closings(3) [of ?t sp]
    by (simp add: kept_def close_section_def Let_def split: option.split)
  with t show ?thesis by (rule kept_trans)
qed

lemma kept_drop_section: "kept s (drop_section E sp s)"
  using kept_close_section [of "emit c s" sp for c]
  by (simp add: kept_def drop_section_def closeIfNotLocked_def Let_def relay_simps peer_simps)

lemma kept_Send: "kept s (fst (SendCustomMessage E p m s))"
  by (simp add: kept_def relay_simps peer_simps)

lemma kept_Route: "kept s (fst (Route_Route E q rid pl c ins n s))"
  by (simp add: kept_def Route_Route_def charge_route_def Let_def split_def relay_simps peer_simps split: option.split)

lemma kept_BuildRoute: "kept s (fst (BuildRoute_Execute E q adnl key rid price s))"
  using relay_addPeer [of s E adnl None]
  by (simp add: kept_def BuildRoute_Execute_def retarget_def move_gauge_def Let_def split_def relay_simps peer_simps split: option.split)

lemma kept_Cache: "kept s (fst (Cache_Execute q ver l s))"
  by (simp add: kept_def Cache_Execute_def relay_simps split: sum.split)

lemma kept_Payment: "kept s (fst (Payment_Execute E q key state purpose final s))"
proof -
  have m: "kept t (fst (apply_mutation q amt m t))" for amt m and t :: "'a tun_gateway_scheme"
    by (simp add: kept_def apply_mutation_def Let_def relay_simps split: mutation.split option.split)
  have pr: "kept t (fst (process_payment E q key st purpose final v fresh t))" for st v fresh and t :: "'a tun_gateway_scheme"
    using m [of "emit (CallAddResolve key st) t"]
    by (simp add: kept_def process_payment_def Let_def split_def relay_simps peer_simps split: sum.split option.split)
  have "kept s (fst (load_channel E q key purpose s))"
    by (simp add: kept_def load_channel_def Let_def relay_simps peer_simps split: option.split)
  with pr show ?thesis
    by (auto simp: Payment_Execute_def split: option.split sum.split prod.split intro: kept_trans)
qed

lemma relay_sendBack [relay_simps]:
  fixes s :: "'a tun_gateway_scheme"
  shows "tunnels (fst (sendBack C T E q obj b s)) = tunnels s" "tuns (fst (sendBack C T E q obj b s)) = tuns s"
    "length (peers (fst (sendBack C T E q obj b s))) = length (peers s)"
  by (simp_all add: sendBack_def Let_def relay_simps peer_simps split: option.split sum.split)

lemma kept_bind_done: "kept s (bind_done C T E q s)"
  by (simp add: kept_def bind_done_def count_in_def Let_def relay_simps split: option.split)

lemma kept_BindOut: "kept s (fst (BindOut_Execute C T E q adnl key ins rc price s))"
proof -
  have r: "kept s (rebind_out E q ot adnl sk key ins pr s)" for ot sk pr
    using relay_addPeer [of "Dereference (inboundPeer ot) s" E adnl None]
    by (simp add: kept_def rebind_out_def Let_def split_def relay_simps peer_simps)
  have n: "kept s (AddReference p (gauge_outs b d (upd_sec q f (snd (addPeer E adnl None (emit CallListenPacket s))))))" for p b d f
    using relay_addPeer [of "emit CallListenPacket s" E adnl None] by (simp add: kept_def relay_simps peer_simps)
  have "kept s (emit c s)" for c by (simp add: kept_def relay_simps peer_simps)
  with kept_trans [OF r kept_bind_done] kept_trans [OF n kept_bind_done] show ?thesis
    by (simp add: BindOut_Execute_def Let_def split_def split: option.split)
qed

lemma kept_Out_Send: "kept (fst st) (fst (fst (Out_Send C T E q st)))"
  by (cases st) (simp add: kept_def Out_Send_def Let_def relay_simps peer_simps split: option.split prod.split sum.split payload.split)

lemma kept_Listen: "kept s (Listen_packet C T E q ip port data s)"
  by (simp add: kept_def Listen_packet_def count_in_def Let_def split_def relay_simps peer_simps split: option.split)

lemma kept_checkSeqno: "kept s (fst (checkSeqno q n b s))"
  by (simp add: kept_def checkSeqno_def relay_simps split: prod.split)

lemma kept_tick: "kept s (tick E s)"
proof -
  have p: "kept t (tick_peer E p t)" for p and t :: "'a tun_gateway_scheme"
    by (simp add: kept_def tick_peer_def Let_def relay_simps peer_simps)
  define s1 where "s1 = fold (tick_peer E) (map snd (activePeers s)) s"
  have s1: "kept s s1" unfolding s1_def by (rule kept_fold) (rule p)
  have q: "kept (fst st) (fst (tick_section E sp st))" for sp and st :: "'a tun_gateway_scheme \<times> ptr list \<times> ptr list"
    by (cases st) (simp add: kept_def tick_section_def Let_def relay_simps peer_simps)
  have "kept s1 (fst (fold (tick_section E) xs (s1, [], [])))" for xs
    by (rule fold_inv [where P = "\<lambda>st. kept s1 (fst st)"]) (use q kept_trans in blast, simp)
  then have "kept s1 (fold closePaymentChannel chans (fold (drop_section E) secs s2))"
    if "fold (tick_section E) xs (s1, [], []) = (s2, rest)" for xs s2 rest secs chans
    using that kept_trans [OF _ kept_trans [OF kept_fold [of "drop_section E", OF kept_drop_section] kept_fold [of closePaymentChannel, OF kept_closings(1)]]]
    by (metis fst_conv)
  with s1 show ?thesis by (auto simp: tick_def Let_def s1_def [symmetric] split: prod.split intro: kept_trans)
qed

lemma kept_run_task: "kept s (run_task E t s)"
  using kept_closings(1) [of s] by (cases t) (simp_all add: kept_def relay_simps peer_simps)

section \<open>What every tunnel satisfies\<close>

text \<open>
  A tunnel has both chains, the prepayment of the code, a peer among the first \<open>n\<close>, a read queue
  within its capacity, and channels whose last amount is within their capacity.
\<close>

definition tun_ok :: "nat \<Rightarrow> out_tunnel \<Rightarrow> bool" where
  "tun_ok n tn \<longleftrightarrow> chainTo tn \<noteq> [] \<and> chainFrom tn \<noteq> [] \<and> packetsToPrepay tn = ChannelPacketsToPrepay \<and> tunPeer tn < n \<and>
     length (readQueue tn) \<le> readCapacity \<and> (\<forall>nd \<in> set (chainTo tn @ chainFrom tn). node_ok ChannelPacketsToPrepay nd)"

definition client_inv :: "'a tun_gateway_scheme \<Rightarrow> bool" where
  "client_inv s \<longleftrightarrow> gw_inv s \<and> (\<forall>tn \<in> set (tuns s). tun_ok (length (peers s)) tn) \<and>
     (\<forall>k t. map_of (tunnels s) k = Some t \<longrightarrow> t < length (tuns s) \<and> localID (tuns s ! t) = k)"

lemma tun_ok_mono: "tun_ok n tn \<Longrightarrow> n \<le> m \<Longrightarrow> tun_ok m tn"
  by (simp add: tun_ok_def)

text \<open>What the steps of a tunnel other than a payment may change.\<close>

definition same_infos :: "section_info list \<Rightarrow> section_info list \<Rightarrow> bool" where
  "same_infos nds nds' \<longleftrightarrow> map PaymentInfo nds' = map PaymentInfo nds"

definition tun_step :: "out_tunnel \<Rightarrow> out_tunnel \<Rightarrow> bool" where
  "tun_step tn tn' \<longleftrightarrow> localID tn' = localID tn \<and> tunPeer tn' = tunPeer tn \<and> packetsToPrepay tn' = packetsToPrepay tn \<and>
     same_infos (chainTo tn) (chainTo tn') \<and> same_infos (chainFrom tn) (chainFrom tn') \<and>
     (length (readQueue tn) \<le> readCapacity \<longrightarrow> length (readQueue tn') \<le> readCapacity) \<and> (wantDestroy tn \<longrightarrow> wantDestroy tn')"

definition tended :: "'a tun_gateway_scheme \<Rightarrow> 'a tun_gateway_scheme \<Rightarrow> bool" where
  "tended s s' \<longleftrightarrow> tunnels s' = tunnels s \<and> length (peers s) \<le> length (peers s') \<and> list_all2 tun_step (tuns s) (tuns s')"

lemma same_infos_refl [simp]: "same_infos nds nds"
  by (simp add: same_infos_def)

lemma same_infos_ok:
  assumes "same_infos nds nds'"
  shows "nds' = [] \<longleftrightarrow> nds = []" "(\<forall>nd \<in> set nds'. node_ok n nd) \<longleftrightarrow> (\<forall>nd \<in> set nds. node_ok n nd)"
proof -
  have "(\<forall>nd \<in> set xs. node_ok n nd) \<longleftrightarrow> (\<forall>i \<in> set (map PaymentInfo xs). \<forall>p \<in> set_option i. payer_ok n p)" for xs
    by (simp add: node_ok_def)
  with assms show "(\<forall>nd \<in> set nds'. node_ok n nd) \<longleftrightarrow> (\<forall>nd \<in> set nds. node_ok n nd)" by (simp only: same_infos_def)
  show "nds' = [] \<longleftrightarrow> nds = []" using assms unfolding same_infos_def by (metis map_is_Nil_conv)
qed

lemma tun_step_refl [simp]: "tun_step tn tn"
  by (simp add: tun_step_def)

lemma tun_step_trans: "tun_step a b \<Longrightarrow> tun_step b c \<Longrightarrow> tun_step a c"
  by (simp add: tun_step_def same_infos_def)

lemma tun_step_ok: "tun_step tn tn' \<Longrightarrow> tun_ok n tn \<Longrightarrow> tun_ok n tn'"
  using same_infos_ok [of "chainTo tn" "chainTo tn'"] same_infos_ok [of "chainFrom tn" "chainFrom tn'"]
  by (simp add: tun_step_def tun_ok_def ball_Un)

lemma tended_refl [simp]: "tended s s"
  by (simp add: tended_def list_all2_refl)

lemma tended_trans [trans]: "tended s t \<Longrightarrow> tended t u \<Longrightarrow> tended s u"
  using list_all2_trans [of tun_step tun_step tun_step "tuns s" "tuns t" "tuns u", OF tun_step_trans] by (auto simp: tended_def)

lemma tended_kept: "kept s s' \<Longrightarrow> tended s s'"
  by (simp add: kept_def tended_def list_all2_refl)

lemma tended_upd_tun: "(\<And>q. q = tuns s ! t \<Longrightarrow> tun_step q (f q)) \<Longrightarrow> tended s (upd_tun t f s)"
  by (auto simp: tended_def list_all2_conv_all_nth nth_hupd)

lemma client_inv_tended:
  assumes "client_inv s" "tended s s'" "gw_inv s'"
  shows "client_inv s'"
proof -
  have "tun_ok (length (peers s')) tn'" if "tn' \<in> set (tuns s')" for tn'
  proof -
    from that assms(2) obtain tn where "tn \<in> set (tuns s)" "tun_step tn tn'" unfolding tended_def by (blast dest: list_all2_set2)
    then have "tun_ok (length (peers s)) tn'" using assms(1) by (auto simp: client_inv_def intro: tun_step_ok)
    then show ?thesis using assms(2) by (auto simp: tended_def intro: tun_ok_mono)
  qed
  moreover have "t < length (tuns s') \<and> localID (tuns s' ! t) = k" if "map_of (tunnels s') k = Some t" for k t
    using that assms(1,2) by (auto simp: client_inv_def tended_def list_all2_conv_all_nth tun_step_def)
  ultimately show ?thesis using assms(3) by (simp add: client_inv_def)
qed

section \<open>The tunnels' own operations\<close>

lemma encrypt_with_infos: "PaymentInfo (fst (encrypt_with C T rnd cur msg ins)) = PaymentInfo cur"
  by (simp add: encrypt_with_def split: prod.split)

lemma buildRoute_infos: "PaymentInfo (fst (buildRoute H C T rnd b msg cur nxt sys)) = PaymentInfo cur"
  by (simp add: buildRoute_def encrypt_with_infos split: option.split sum.split)

lemma layers_loop_infos:
  assumes "\<And>i nd nds msg. PaymentInfo (fst (body i nd nds msg)) = PaymentInfo nd"
  shows "same_infos nds (fst (layers_loop body i nds))"
proof (induction nds arbitrary: i)
  case (Cons nd nds)
  have "PaymentInfo nd' = PaymentInfo nd" if "body i nd nds msg = (nd', r)" for nd' r msg
    using assms [of i nd nds msg] that by simp
  with Cons [of "Suc i"] show ?case by (auto simp: same_infos_def split: prod.split sum.split)
qed simp

lemma layer_infos:
  "PaymentInfo (fst (back_layer H C T lid st y cur nds msg)) = PaymentInfo cur"
  "PaymentInfo (fst (forward_layer H C T st gate i cur nds msg)) = PaymentInfo cur"
  "PaymentInfo (fst (close_layer H C T lid i cur nds msg)) = PaymentInfo cur"
  by (simp_all add: back_layer_def forward_layer_def close_layer_def Let_def encrypt_with_infos buildRoute_infos
      split: list.split sum.split)

lemma layers_infos:
  "same_infos nds (fst (layers_loop (back_layer H C T lid st) i nds))"
  "same_infos nds (fst (layers_loop (forward_layer H C T st gate) i nds))"
  "same_infos nds (fst (layers_loop (close_layer H C T lid) i nds))"
  by (rule layers_loop_infos, rule layer_infos)+

lemma forward_loop_step: "tun_step tn (fst (forward_loop H C T st gate tn))"
  using layers_infos(2) [of "chainTo tn" H C T st gate 0]
  by (auto simp: forward_loop_def tun_step_def split: prod.split sum.split)

lemma prepareInit_step: "tun_step tn (fst (prepareInitMessage H C T st tn))"
proof -
  obtain cf r where l: "layers_loop (back_layer H C T (localID tn) st) 0 (chainFrom tn) = (cf, r)" by fastforce
  with layers_infos(1) [of "chainFrom tn" H C T "localID tn" st 0]
  have b: "tun_step tn (tn\<lparr>chainFrom := cf\<rparr>)" by (simp add: tun_step_def)
  with tun_step_trans [OF b forward_loop_step] forward_loop_step [of tn] show ?thesis
    by (simp add: prepareInitMessage_def l Let_def split: sum.split option.split) (simp add: tun_step_def)
qed

lemma prepareClose_step: "tun_step tn (fst (prepareTunnelCloseMessage H C T tn))"
proof -
  obtain nds r where l: "layers_loop (close_layer H C T (localID tn)) 0 (chainTo tn @ chainFrom tn) = (nds, r)" by fastforce
  with layers_infos(3) [of "chainTo tn @ chainFrom tn" H C T "localID tn" 0]
  have m: "map PaymentInfo nds = map PaymentInfo (chainTo tn) @ map PaymentInfo (chainFrom tn)" by (simp add: same_infos_def)
  then have "map PaymentInfo (take (length (chainTo tn)) nds) = map PaymentInfo (chainTo tn)"
      "map PaymentInfo (drop (length (chainTo tn)) nds) = map PaymentInfo (chainFrom tn)"
    by (simp_all add: take_map [symmetric] drop_map [symmetric])
  then show ?thesis by (simp add: prepareTunnelCloseMessage_def l tun_step_def same_infos_def set_nodes_def)
qed

lemma tended_Send: "tended s (fst (SendCustomMessage E p m s))"
  by (rule tended_kept [OF kept_Send])

lemma tended_send_init: "tended s (fst (send_init H C T E st t s))"
proof -
  obtain tn r where p: "prepareInitMessage H C T st (tuns s ! t) = (tn, r)" by fastforce
  with prepareInit_step [of "tuns s ! t" H C T st] have u: "tended s (upd_tun t (\<lambda>_. tn) s)" by (intro tended_upd_tun) simp
  with tended_trans [OF u tended_Send] show ?thesis by (simp add: send_init_def p split: sum.split)
qed

lemma tended_upd: "(\<And>q. tun_step q (f q)) \<Longrightarrow> tended s (upd_tun t f s)"
  by (rule tended_upd_tun)

lemma tended_advance: "tended s (fst (advance_state H C T E st t s))"
proof -
  obtain s1 e where i: "send_init H C T E StateTypeOptimizingRoutes t s = (s1, e)" by fastforce
  then have h: "tended s s1" using tended_send_init [of s H C T E StateTypeOptimizingRoutes t] by simp
  have c: "tended s' (upd_tun t (\<lambda>tn. tn\<lparr>lastFullyCheckedAt := now E\<rparr>) s')" for s' :: "'a tun_gateway_scheme"
    by (rule tended_upd) (simp add: tun_step_def)
  have "tended s (upd_tun t (\<lambda>tn. tn\<lparr>tunnelState := StateTypeOptimized\<rparr>) s)" by (rule tended_upd) (simp add: tun_step_def)
  with h c show ?thesis using tended_trans by (auto simp: advance_state_def Let_def i split: option.split)
qed

lemma receive_udp_step: "tun_step tn (fst (receive_udp seqno ip port pl tn))"
proof -
  have "tun_step tn (count_received seqno tn)" "readQueue (count_received seqno tn) = readQueue tn"
    by (simp_all add: count_received_def tun_step_def Let_def requestControlMessage_def)
  then show ?thesis by (simp add: receive_udp_def Let_def tun_step_def)
qed

lemma tended_bound: "tended s (receive_bound seqno ip port t s)"
proof -
  define s1 where "s1 = (if seqno < seqnoRecv (tuns s ! t) then upd_tun t (\<lambda>tn. tn\<lparr>seqnoRecv := seqno\<rparr>) s else s)"
  define s2 where "s2 = upd_tun t (\<lambda>tn. tn\<lparr>externalAddr := ip, externalPort := ucast port\<rparr>) s1"
  have 1: "tended s s1" by (simp add: s1_def tended_upd tun_step_def)
  have "tended s1 s2" unfolding s2_def by (rule tended_upd) (simp add: tun_step_def)
  with 1 have 2: "tended s s2" by (rule tended_trans)
  have "tended s2 (emit c s2)" for c by (rule tended_kept) (simp add: kept_def relay_simps peer_simps)
  with 2 have "tended s (emit c s2)" for c by (rule tended_trans)
  with 1 2 show ?thesis unfolding receive_bound_def Let_def s1_def [symmetric] s2_def [symmetric] by simp
qed

lemma tended_Process: "tended s (fst (Process H C T E t pl meta s))"
proof -
  have st: "tended s (fst (Process_state H C T E st data t s))" for st data
  proof -
    obtain s1 e where a: "advance_state H C T E st t s = (s1, e)" by fastforce
    with tended_advance [of s H C T E st t] have h: "tended s s1" by simp
    have "tended s1 (upd_tun t (\<lambda>_. tn) s1)" if "receive_udp seqno ip port d (tuns s1 ! t) = (tn, r)" for seqno ip port d tn r
      using receive_udp_step [of "tuns s1 ! t" seqno ip port d] that by (intro tended_upd_tun) simp
    moreover have "tended s (upd_tun t (\<lambda>tn. tn\<lparr>tunClosed := True\<rparr>) s)" by (rule tended_upd) (simp add: tun_step_def)
    ultimately show ?thesis using h tended_trans [OF h] tended_bound [of s1]
      by (simp add: Process_state_def a split: option.split payload.split prod.split)
  qed
  have "tended s (fst (Process_ping H C T E seqno wp t s))" for seqno wp
  proof -
    let ?s1 = "upd_tun t (\<lambda>tn. tn\<lparr>controlSeqnoReceived := seqno, lastFullyCheckedAt := now E\<rparr>) s"
    have 1: "tended s ?s1" by (rule tended_upd) (simp add: tun_step_def)
    have "tended ?s1 (upd_tun t (\<lambda>tn. tn\<lparr>paymentsConfirmed := True, controlPaidSeqnoReceived := seqno\<rparr>) ?s1)"
      by (rule tended_upd) (simp add: tun_step_def)
    with 1 have "tended s (if wp then upd_tun t (\<lambda>tn. tn\<lparr>paymentsConfirmed := True, controlPaidSeqnoReceived := seqno\<rparr>) ?s1 else ?s1)"
      by (auto intro: tended_trans)
    with tended_trans [OF this tended_send_init] show ?thesis unfolding Process_ping_def Let_def by simp
  qed
  with st show ?thesis by (auto simp: Process_def split: metadata.split prod.split sum.split) (metis fst_conv)+
qed

section \<open>The gateway with its tunnels\<close>

definition tends :: "'a tun_gateway_ext tunnel_proc \<Rightarrow> bool" where
  "tends proc \<longleftrightarrow> (\<forall>t pl meta s. tended s (fst (proc t pl meta s)))"

lemma tended_deliver: "tends proc \<Longrightarrow> tended (fst st) (fst (fst (deliver proc t meta st)))"
  unfolding tends_def deliver_def by (auto split: prod.split) (metis fst_conv)

lemma tended_Execute: "tends proc \<Longrightarrow> tended (fst st) (fst (fst (Execute C T E proc q rest ins st)))"
  by (cases ins) (auto simp: fst_on_gateway Destroy_Execute_def RouteInstruction_Execute_def SendOut_Execute_def
      split: option.split
      intro: tended_deliver tended_kept kept_drop_section kept_Cache kept_BuildRoute kept_Payment kept_BindOut kept_Route kept_Out_Send)

lemma tended_Execute_cached: "tends proc \<Longrightarrow> tended (fst st) (fst (fst (Execute_cached C T E proc q n a st)))"
  by (cases a) (auto simp: fst_on_gateway RouteCachedAction_Execute_def SendOut_Execute_def
      intro: tended_deliver tended_kept kept_Route kept_Out_Send)

interpretation tended_loop: fallible_loop "Execute C T E proc sp rest" "\<lambda>_. tends proc" "\<lambda>st. tended s0 (fst st)"
  for C T E proc sp rest s0
  by unfold_locales (blast intro: tended_trans tended_Execute)

interpretation tended_cached_loop: fallible_loop "Execute_cached C T E proc sp n" "\<lambda>_. tends proc" "\<lambda>st. tended s0 (fst st)"
  for C T E proc sp n s0
  by unfold_locales (blast intro: tended_trans tended_Execute_cached)

lemma tended_finish: "tended s (fst (fst r)) \<Longrightarrow> tended s (fst (finish E p r))"
proof -
  assume "tended s (fst (fst r))"
  moreover have "tended t (touch E p t)" for t :: "'a tun_gateway_scheme"
    by (rule tended_kept) (simp add: kept_def touch_def relay_simps peer_simps)
  ultimately show ?thesis by (auto simp: finish_def split: prod.splits option.split intro: tended_trans)
qed

lemma tended_mark: "tended s (mark_packet E sp s)"
  by (rule tended_kept) (simp add: kept_def mark_packet_def relay_simps)

lemma tended_handle_cached:
  assumes "tends proc"
  shows "tended s (fst (handle_cached C T E proc p m s))"
proof (cases "map_of (inboundSections s) (cSectionPubKey m)")
  case (Some sp)
  obtain s1 ok where c: "checkSeqno sp (cSeqno m) True s = (s1, ok)" by fastforce
  with tended_kept [OF kept_checkSeqno [of s sp "cSeqno m" True]] have h: "tended s s1" by simp
  have "tended s (fst (fst (run_until_err (Execute_cached C T E proc sp (cSeqno m)) as (mark_packet E sp s1, cPayload m))))" for as
    using assms tended_trans [OF h tended_mark] by (intro tended_cached_loop.run_inv) (simp_all add: list_all_iff)
  then show ?thesis using h by (auto simp: handle_cached_def Some c split: bool.split intro: tended_finish)
qed (simp add: handle_cached_def)

lemma tended_handle_encrypted:
  assumes "tends proc"
  shows "tended s (fst (handle_encrypted C T E proc p m s))"
proof -
  obtain s1 res where g: "get_section C E p (msgSectionPubKey m) s = (s1, res)" by fastforce
  then have h: "tended s s1" by (intro tended_kept) (auto simp: kept_def get_section_def split: option.splits if_splits)
  have run: "tended s (fst (fst (run_until_err (Execute C T E proc sp rest) xs (mark_packet E sp s2, msgPayload m)))) \<and> tended s s2"
    if "checkSeqno sp n False s1 = (s2, ok)" for sp n s2 ok rest xs
  proof -
    from that tended_kept [OF kept_checkSeqno [of s1 sp n False]] have "tended s s2" using tended_trans [OF h] by simp
    with assms tended_trans [OF this tended_mark] show ?thesis by (auto simp: list_all_iff intro!: tended_loop.run_inv)
  qed
  show ?thesis using h run
    by (auto simp: handle_encrypted_def g split: sum.split prod.split bool.split intro!: tended_finish)
qed

lemma tended_messageHandler:
  assumes "tends proc"
  shows "tended s (fst (messageHandler C T E proc p m s))"
proof -
  have t: "tended s' (touch E p (upd_peer p f s'))" "tended s' (touch E p s')" for f and s' :: "'a tun_gateway_scheme"
    by (rule tended_kept; simp add: kept_def touch_def relay_simps peer_simps)+
  have "tended s (fst (case SendCustomMessage E p (MsgPong n) s of (s1, Some e) \<Rightarrow> (s1, Some e) | (s1, None) \<Rightarrow> (touch E p s1, None)))" for n
    using tended_Send [of s E p "MsgPong n"] t(2) by (auto split: prod.split option.split intro: tended_trans)
  with t tended_handle_cached [OF assms] tended_handle_encrypted [OF assms] show ?thesis
    by (simp add: messageHandler_def split: net_msg.split)
qed

lemma tended_step: "tends (proc E) \<Longrightarrow> gw_step C T proc E ev s s' \<Longrightarrow> tended s s'"
proof (erule gw_step_cases)
  fix t
  assume "s' = run_task E t (s\<lparr>pending := remove1 t (pending s)\<rparr>)"
  moreover have "kept s (s\<lparr>pending := remove1 t (pending s)\<rparr>)" by (simp add: kept_def)
  ultimately show "tended s s'" using kept_run_task kept_trans tended_kept by blast
qed (simp_all add: tended_messageHandler tended_kept kept_tick kept_Listen,
    simp_all add: tended_kept kept_def relay_simps peer_simps relay_addPeer)

section \<open>Calls of the client\<close>

lemma tended_WriteTo: "tended s (fst (WriteTo C T E t p addr s))"
proof -
  let ?tn = "tuns s ! t"
  define s1 where "s1 = (if usePayments ?tn
    then upd_tun t (\<lambda>q. (if i64 (packetsMinPaidOut ?tn - i64 (packetsConsumedOut ?tn + 1)) < half (packetsToPrepay ?tn)
           then requestControlMessage q else q)\<lparr>packetsConsumedOut := i64 (packetsConsumedOut ?tn + 1)\<rparr>) s else s)"
  have u: "tended s1 s1" "tended s (upd_tun t f s')" if "tended s s'" "\<And>q. tun_step q (f q)" for f s'
    using tended_trans [OF that(1) tended_upd [OF that(2)]] by simp_all
  have 1: "tended s s1" by (auto simp: s1_def tun_step_def requestControlMessage_def intro!: tended_upd)
  have 2: "tended s (upd_tun t (\<lambda>q. q\<lparr>seqnoSend := n\<rparr>) s1)" for n by (rule u(2) [OF 1]) (simp add: tun_step_def)
  have 3: "tended s (upd_tun t (\<lambda>q. q\<lparr>seqnoForward := k\<rparr>) (upd_tun t (\<lambda>q. q\<lparr>seqnoSend := n\<rparr>) s1))" for n k
    by (rule u(2) [OF 2]) (simp add: tun_step_def)
  have 4: "tended s s4" if "SendCustomMessage E pp m (upd_tun t (\<lambda>q. q\<lparr>seqnoForward := k\<rparr>) (upd_tun t (\<lambda>q. q\<lparr>seqnoSend := n\<rparr>) s1)) = (s4, e)"
    for pp m k n s4 e
    using tended_trans [OF 3 tended_Send] that by (metis fst_conv)
  then have 5: "tended s (upd_tun t (\<lambda>q. q\<lparr>packetsSent := packetsSent q + 1\<rparr>) s4)"
    if "SendCustomMessage E pp m (upd_tun t (\<lambda>q. q\<lparr>seqnoForward := k\<rparr>) (upd_tun t (\<lambda>q. q\<lparr>seqnoSend := n\<rparr>) s1)) = (s4, e)" for pp m k n s4 e
    using that by (intro u(2)) (auto simp: tun_step_def)
  show ?thesis using 1 2 3 4 5 unfolding WriteTo_def Let_def s1_def [symmetric]
    by (auto split: net_addr.split option.split sum.split prod.split)
qed

lemma tended_ReadFrom: "ReadFrom n t s = Some (s', pl, addr) \<Longrightarrow> tended s s'"
  by (auto simp: ReadFrom_def tun_step_def split: list.splits intro!: tended_upd_tun)

lemma tended_stops:
  "tended s (stop_begin t s)" "tended s (fst (stop_pass H C T E t s))" "tended s (stop_end t s)"
proof -
  show "tended s (stop_begin t s)" unfolding stop_begin_def by (rule tended_upd) (simp add: tun_step_def)
  obtain tn r where p: "prepareTunnelCloseMessage H C T (tuns s ! t) = (tn, r)" by fastforce
  with prepareClose_step [of "tuns s ! t" H C T] have u: "tended s (upd_tun t (\<lambda>_. tn) s)" by (intro tended_upd_tun) simp
  with tended_trans [OF u tended_Send] show "tended s (fst (stop_pass H C T E t s))"
    by (auto simp: stop_pass_def p split: sum.split prod.split) (metis fst_conv)
  have "tended s (upd_tun t (\<lambda>tn. tn\<lparr>tunClosed := True\<rparr>) s)" by (rule tended_upd) (simp add: tun_step_def)
  then show "tended s (stop_end t s)" unfolding stop_end_def
    by (rule tended_trans) (rule tended_kept, simp add: kept_def relay_simps peer_simps)
qed

lemma gw_inv_client_calls:
  assumes "gw_inv s"
  shows "gw_inv (fst (WriteTo C T E t p addr s))" "ReadFrom n t s = Some (s', pl, a) \<Longrightarrow> gw_inv s'"
    "gw_inv (stop_begin t s)" "gw_inv (fst (stop_pass H C T E t s))" "gw_inv (stop_end t s)"
proof -
  show "gw_inv (fst (WriteTo C T E t p addr s))"
    using assms by (simp add: WriteTo_def Let_def split_def gw_inv_nets split: net_addr.split option.split sum.split)
  show "ReadFrom n t s = Some (s', pl, a) \<Longrightarrow> gw_inv s'" using assms by (auto simp: ReadFrom_def split: list.splits)
  show "gw_inv (stop_begin t s)" using assms by (simp add: stop_begin_def)
  show "gw_inv (fst (stop_pass H C T E t s))" using assms by (simp add: stop_pass_def split_def gw_inv_nets split: sum.split)
  show "gw_inv (stop_end t s)" unfolding stop_end_def by (rule gw_inv_nets) (simp add: assms)
qed

section \<open>Control messages\<close>

text \<open>A signed state carries the amount it was asked to carry.\<close>

definition sign_law :: "pay_host \<Rightarrow> bool" where
  "sign_law P \<longleftrightarrow> (\<forall>k a. Amount (sign_state P k a) = a)"

lemma prepayment_fits: "tun_ok n tn \<Longrightarrow> packetsToPrepay tn * ChannelCapacityForNumPayments < 2 ^ 63"
  by (simp add: tun_ok_def ChannelPacketsToPrepay_def ChannelCapacityForNumPayments_def)

lemma control_message_frame:
  assumes "prepareTunnelControlMessage P C T E wp force t s = (s', res)" "t < length (tuns s)"
    and "tun_ok n (tuns s ! t)" "sign_law P"
  obtains calls tn' where "s' = upd_tun t (\<lambda>_. tn') (s\<lparr>outputs := outputs s @ calls\<rparr>)" "tun_ok n tn'"
    "localID tn' = localID (tuns s ! t)" "wantDestroy tn' = wantDestroy (tuns s ! t)"
proof -
  let ?tn = "tuns s ! t"
  have ok: "\<forall>nd \<in> set (chainTo ?tn @ chainFrom ?tn). node_ok (packetsToPrepay ?tn) nd" using assms(3) by (simp add: tun_ok_def)
  have sg: "Amount (sign_state P k a) = a" for k a using assms(4) by (simp add: sign_law_def)
  obtain s1 nds r where l: "control_loop P C T E wp force ?tn 0 (chainTo ?tn @ chainFrom ?tn) s = (s1, nds, r)" by (metis prod_cases3)
  from control_loop_outcome [OF l ok prepayment_fits [OF assms(3)] sg] obtain calls where
    o: "s1 = s\<lparr>outputs := outputs s @ calls\<rparr>" "list_all2 (node_pays C (packetsToPrepay ?tn) calls) (chainTo ?tn @ chainFrom ?tn) nds"
      "\<forall>m nps. r = Inr (m, nps) \<longrightarrow> list_all2 (node_valid C calls) nds nps" by blast
  then have len: "length nds = length (chainTo ?tn) + length (chainFrom ?tn)" by (simp add: list_all2_lengthD [symmetric])
  have np: "length nps = length nds" if "r = Inr (m, nps)" for m nps using o(3) that by (metis list_all2_lengthD)
  define tn' where "tn' = tuns s' ! t"
  have s': "s' = upd_tun t (\<lambda>_. tn') s1" and f: "localID tn' = localID ?tn" "tunPeer tn' = tunPeer ?tn"
      "packetsToPrepay tn' = packetsToPrepay ?tn" "readQueue tn' = readQueue ?tn" "wantDestroy tn' = wantDestroy ?tn"
      "length (chainTo tn') = length (chainTo ?tn)" "length (chainFrom tn') = length (chainFrom ?tn)"
    using assms(1,2) l o(1) len np
    by (auto simp: prepareTunnelControlMessage_def Let_def tn'_def upd_tun_def hupd_def set_nodes_def
        split: sum.splits prod.splits)
  from control_message_outcome [OF assms(1,2) ok prepayment_fits [OF assms(3)] sg]
  have "\<forall>nd \<in> set (chainTo tn' @ chainFrom tn'). node_ok (packetsToPrepay ?tn) nd" unfolding tn'_def by blast
  with f assms(3) have "tun_ok n tn'" by (auto simp: tun_ok_def)
  with that s' o(1) f(1,5) show thesis by blast
qed

lemma client_inv_control_message:
  assumes "prepareTunnelControlMessage P C T E wp force t s = (s', res)" "t < length (tuns s)" "client_inv s" "sign_law P"
  shows "client_inv s'"
proof -
  have "tun_ok (length (peers s)) (tuns s ! t)" using assms(2,3) by (simp add: client_inv_def)
  from control_message_frame [OF assms(1,2) this assms(4)] obtain calls tn' where
    f: "s' = upd_tun t (\<lambda>_. tn') (s\<lparr>outputs := outputs s @ calls\<rparr>)" "tun_ok (length (peers s)) tn'" "localID tn' = localID (tuns s ! t)" by blast
  have "gw_inv (s\<lparr>outputs := outputs s @ calls\<rparr>)"
    using assms(3) by (simp add: client_inv_def gw_inv_def sec_valid_def table_wf_def peer_valid_def peer_ids_def)
  then show ?thesis using assms(2,3) f
    by (auto simp: client_inv_def hupd_def nth_list_update dest!: set_update_subset_insert [THEN subsetD])
qed

lemma client_inv_control_pass:
  assumes "client_inv s" "t < length (tuns s)" "sign_law P"
  shows "client_inv (control_pass P C T E t s)"
proof -
  have u: "client_inv (upd_tun t f s')" if "client_inv s'" "\<And>q. tun_step q (f q)" for f and s' :: "'a tun_gateway_scheme"
    using client_inv_tended [OF that(1) tended_upd [OF that(2)]] that(1) by (simp add: client_inv_def)
  define s1 where "s1 = upd_tun t (\<lambda>tn. tn\<lparr>controlSignal := False\<rparr>) s"
  have 1: "client_inv s1" unfolding s1_def by (rule u [OF assms(1)]) (simp add: tun_step_def)
  have i: "client_inv (fst (send_init H C T E st t s1))" for H st
    using client_inv_tended [OF 1 tended_send_init] harmless_send_init [of s1] 1 by (simp add: client_inv_def harmless_def)
  have r: "client_inv (upd_tun t (\<lambda>q. requestControlMessage (q\<lparr>paymentsConfirmed := (if usePayments q then False else paymentsConfirmed q),
      tunnelState := StateTypeConfiguring\<rparr>)) s1)"
    by (rule u [OF 1]) (simp add: tun_step_def requestControlMessage_def)
  have m: "client_inv s2" if "prepareTunnelControlMessage P C T E wp force t s1 = (s2, res)" for wp force s2 res
    using client_inv_control_message [OF that _ 1 assms(3)] assms(2) by (simp add: s1_def)
  have "client_inv (fst (SendCustomMessage E p msg s2))" if "client_inv s2" for p msg and s2 :: "'a tun_gateway_scheme"
    by (rule client_inv_tended [OF that tended_Send], rule gw_inv_nets(6)) (use that in \<open>simp add: client_inv_def\<close>)
  with 1 i r m show ?thesis unfolding control_pass_def Let_def s1_def [symmetric]
    by (auto split: prod.split sum.split)
qed

section \<open>New tunnels\<close>

text \<open>A section made from the configuration has no payment channel yet.\<close>

lemma new_section_ok: "paymentConfigToSections H C g sc isOut pay = Inr si \<Longrightarrow> node_ok n si"
  by (auto simp: paymentConfigToSections_def new_payer_def node_ok_def payer_ok_def split: if_splits sum.splits option.splits)

lemma out_loop_all:
  assumes "\<And>u sc si. conv u sc = Inr si \<Longrightarrow> Q si" "out_loop conv pool i m to b = Inr (to', b')" "list_all Q to" "pred_option Q b"
  shows "list_all Q to' \<and> pred_option Q b'"
  using assms(2-)
proof (induction m arbitrary: i to b)
  case (Suc m)
  from Suc.prems(1) obtain si where si: "conv (KeyTo i) (pool ! i) = Inr si" by (auto split: if_splits sum.splits)
  with Suc.prems(2) have to: "list_all Q (to @ [si])" by (simp add: assms(1))
  show ?case
  proof (cases b)
    case None
    with Suc.prems(1) si obtain x where x: "conv KeyBack (pool ! i) = Inr x" "out_loop conv pool (Suc i) m (to @ [si]) (Some x) = Inr (to', b')"
      by (auto split: if_splits sum.splits)
    from Suc.IH [OF x(2) to] show ?thesis by (simp add: assms(1) [OF x(1)])
  next
    case (Some x)
    with Suc.prems(1) si have "out_loop conv pool (Suc i) m (to @ [si]) b = Inr (to', b')" by (auto split: if_splits)
    from Suc.IH [OF this to Suc.prems(3)] show ?thesis .
  qed
qed simp

lemma in_loop_all:
  assumes "\<And>u sc si. conv u sc = Inr si \<Longrightarrow> Q si" "in_loop conv pool i m nds = Inr nds'" "list_all Q nds"
  shows "list_all Q nds'"
  using assms(2-)
proof (induction m arbitrary: i nds)
  case (Suc m)
  from Suc.prems(1) obtain si where si: "conv (KeyFrom i) (pool ! i) = Inr si" "in_loop conv pool (Suc i) m (nds @ [si]) = Inr nds'"
    by (auto split: if_splits sum.splits)
  from Suc.IH [OF si(2)] Suc.prems(2) show ?case by (simp add: assms(1) [OF si(1)])
qed simp

lemma end_at_entry_all:
  assumes "list_all Q nds" "pred_option Q b"
  shows "list_all Q (end_at_entry b nds)"
proof -
  have upd: "list_all Q (xs[i := x])" if "list_all Q xs" "Q x" for xs i x
    using that by (auto simp: list_all_iff dest: set_update_subset_insert [THEN subsetD])
  have "Q (nds ! i)" if "find_receiver k 0 nds = Some i" for k i
    using find_receiver_Some [OF that] assms(1) by (simp add: list_all_iff)
  moreover have "nds \<noteq> [] \<Longrightarrow> Q (last nds)" using assms(1) by (simp add: list_all_iff)
  ultimately show ?thesis using assms upd by (auto simp: end_at_entry_def split: option.split)
qed

lemma choose_route_all:
  assumes "choose_route H C cfg pay tries nodes attempts = (nodes', attempts', Inr (k, to, fr, acting))"
  shows "to \<noteq> [] \<and> list_all (node_ok n) to \<and> list_all (node_ok n) fr"
  using assms
proof (induction "51 - tries" arbitrary: tries nodes rule: less_induct)
  case less
  let ?conv = "\<lambda>u isOut sc. paymentConfigToSections H C (setup_key H tries u) sc isOut pay"
  obtain nds r where a: "assemble ?conv (TunnelSectionsNum cfg) (shuffle H tries 1) (shuffle H tries 0 nodes) = (nds, r)" by fastforce
  have r: "to' \<noteq> [] \<and> list_all (node_ok n) to' \<and> list_all (node_ok n) fr'" if "r = Inr (to', fr', ac)" for to' fr' ac
    using a that out_loop_all [of "\<lambda>u. ?conv u False" "node_ok n", OF new_section_ok]
      in_loop_all [of "\<lambda>u. ?conv u False" "node_ok n", OF new_section_ok] end_at_entry_all [of "node_ok n"]
    by (fastforce simp: assemble_def Let_def new_section_ok split: list.splits if_splits sum.splits prod.splits)
  note e = choose_route.simps [of H C cfg pay tries nodes attempts]
  from less.prems have nt: "\<not> 50 < tries" by (auto simp: e)
  show ?case
  proof (cases "choose_route H C cfg pay (tries + 1) nds attempts = (nodes', attempts', Inr (k, to, fr, acting))")
    case True
    show ?thesis by (rule less.hyps [OF _ True]) (use nt in arith)
  next
    case False
    with less.prems a r show ?thesis by (auto simp: e Let_def split: if_splits sum.splits)
  qed
qed

lemma client_inv_create:
  assumes "CreateRegularOutTunnel H C E g to fr s = (s', res)" "client_inv s"
    and "list_all (node_ok ChannelPacketsToPrepay) to" "list_all (node_ok ChannelPacketsToPrepay) fr"
  shows "client_inv s'"
proof -
  have i: "gw_inv s" using assms(2) by (simp add: client_inv_def)
  have a: "gw_inv (AddReference p s1)" "kept s (AddReference p s1)" "p < length (peers (AddReference p s1))"
    if "addPeer E adnl None s = (p, s1)" for adnl p s1
  proof -
    have s1: "s1 = snd (addPeer E adnl None s)" "p = fst (addPeer E adnl None s)" using that by simp_all
    show "gw_inv (AddReference p s1)" unfolding s1 by (intro gw_inv_nets(4) gw_inv_nets(7) i)
    show "kept s (AddReference p s1)" unfolding s1 by (simp add: kept_def relay_simps peer_simps relay_addPeer)
    have "map_of (activePeers s) adnl = Some q \<Longrightarrow> q < length (peers s)" for q
      using i by (auto simp: gw_inv_def table_wf_def peer_valid_def)
    then show "p < length (peers (AddReference p s1))"
      unfolding s1 by (simp add: addPeer_ptr peer_simps length_peers_addPeer split: option.split)
  qed
  have n: "client_inv (s2\<lparr>tuns := tuns s2 @ [(new_tunnel E lid p to fr pec)\<lparr>usePayments := u\<rparr>], tunnels := mput lid (length (tuns s2)) (tunnels s2)\<rparr>)"
    if "client_inv s2" "p < length (peers s2)" "to \<noteq> []" "fr \<noteq> []" for s2 :: "'a tun_gateway_scheme" and p lid pec u
  proof -
    have "tun_ok (length (peers s2)) ((new_tunnel E lid p to fr pec)\<lparr>usePayments := u\<rparr>)"
      using that(2-) assms(3,4) by (auto simp: tun_ok_def new_tunnel_def list_all_iff)
    moreover have "gw_inv (s2\<lparr>tuns := ts, tunnels := m\<rparr>)" for ts m
      using that(1) by (simp add: client_inv_def gw_inv_def sec_valid_def table_wf_def peer_valid_def peer_ids_def)
    moreover have "localID ((new_tunnel E lid p to fr pec)\<lparr>usePayments := u\<rparr>) = lid" by (simp add: new_tunnel_def)
    ultimately show ?thesis using that(1) by (auto simp: client_inv_def nth_append less_Suc_eq split: if_splits)
  qed
  have r: "client_inv (AddReference p s1)" if "addPeer E adnl None s = (p, s1)" for adnl p s1
    by (rule client_inv_tended [OF assms(2) tended_kept [OF a(2) [OF that]] a(1) [OF that]])
  have "client_inv (AddReference p s1\<lparr>tuns := tuns (AddReference p s1) @ [(new_tunnel E lid p to fr pec)\<lparr>usePayments := u\<rparr>],
      tunnels := mput lid (length (tuns (AddReference p s1))) (tunnels s1)\<rparr>)"
    if "addPeer E adnl None s = (p, s1)" "to \<noteq> []" "fr \<noteq> []" for adnl p s1 lid pec u
    using n [OF r [OF that(1)] a(3) [OF that(1)] that(2,3), of lid u pec] by simp
  with assms(1,2) r show ?thesis
    by (auto simp: CreateRegularOutTunnel_def Let_def split: if_splits option.splits sum.splits prod.splits)
qed

lemma client_inv_configure:
  assumes "configureRoute H HT C E V cfg nodes attempts ds s = (nodes', attempts', ds', s', res)" "client_inv s"
  shows "client_inv s'"
proof (cases "choose_route H C cfg (payService s) 0 nodes attempts")
  case (fields nds ats r)
  show ?thesis
  proof (cases r)
    case (Inr x)
    obtain k to fr acting where x: "x = (k, to, fr, acting)" by (metis prod_cases4)
    from choose_route_all [OF fields [unfolded Inr x], of ChannelPacketsToPrepay]
    have q: "list_all (node_ok ChannelPacketsToPrepay) to" "list_all (node_ok ChannelPacketsToPrepay) (fr @ [\<lparr>Keys = us, PaymentInfo = None\<rparr>])" for us
      by (simp_all add: node_ok_def)
    then show ?thesis using assms client_inv_create [OF _ assms(2) q]
      by (auto simp: configureRoute_def fields Inr x Let_def split: sum.splits option.splits prod.splits if_splits)
  qed (use assms fields in \<open>simp add: configureRoute_def\<close>)
qed

section \<open>Runs\<close>

datatype client_event =
    EvGateway gw_event
  | EvConfigure
  | EvWrite ptr bytes net_addr
  | EvRead ptr nat
  | EvControl ptr
  | EvRequest ptr
  | EvStopBegin ptr
  | EvStopPass ptr
  | EvStopEnd ptr

text \<open>
  Clock, network and payment service (\<open>P\<close>, \<open>E\<close>) may answer differently in every step. \<open>EvRequest\<close> is
  the signal to the control sender, which \<open>WaitForInit\<close> gives.
\<close>

inductive client_step ::
  "crypto \<Rightarrow> tlcodec \<Rightarrow> pay_host \<Rightarrow> env \<Rightarrow> client_event \<Rightarrow> tun_gateway \<Rightarrow> tun_gateway \<Rightarrow> bool"
  for C T P E where
  relay: "gw_step C T (Process (host.truncate P) C T) E ev s s' \<Longrightarrow> client_step C T P E (EvGateway ev) s s'"
| configure: "configureRoute H (host.truncate P) C E V cfg nodes attempts ds s = (nodes', attempts', ds', s', res) \<Longrightarrow>
    client_step C T P E EvConfigure s s'"
| written: "t < length (tuns s) \<Longrightarrow> client_step C T P E (EvWrite t p addr) s (fst (WriteTo C T E t p addr s))"
| received: "t < length (tuns s) \<Longrightarrow> ReadFrom n t s = Some (s', pl, addr) \<Longrightarrow> client_step C T P E (EvRead t n) s s'"
| control: "t < length (tuns s) \<Longrightarrow> sign_law P \<Longrightarrow> client_step C T P E (EvControl t) s (control_pass P C T E t s)"
| request: "t < length (tuns s) \<Longrightarrow> client_step C T P E (EvRequest t) s (upd_tun t requestControlMessage s)"
| stopping: "t < length (tuns s) \<Longrightarrow> client_step C T P E (EvStopBegin t) s (stop_begin t s)"
| closing: "t < length (tuns s) \<Longrightarrow> client_step C T P E (EvStopPass t) s (fst (stop_pass (host.truncate P) C T E t s))"
| stopped: "t < length (tuns s) \<Longrightarrow> client_step C T P E (EvStopEnd t) s (stop_end t s)"

inductive_cases client_step_cases: "client_step C T P E ev s s'"

inductive client_run :: "crypto \<Rightarrow> tlcodec \<Rightarrow> client_event list \<Rightarrow> tun_gateway \<Rightarrow> tun_gateway \<Rightarrow> bool" for C T where
  started: "client_run C T [] s s"
| continue: "client_run C T evs s t \<Longrightarrow> client_step C T P E ev t u \<Longrightarrow> client_run C T (evs @ [ev]) s u"

definition client_start :: "bytes \<Rightarrow> bool \<Rightarrow> u64 \<Rightarrow> u64 \<Rightarrow> tun_gateway" where
  "client_start key service minRoute minInOut = gateway.extend (NewGateway key service minRoute minInOut) (tun_gateway.fields [])"

lemma client_start_inv: "client_inv (client_start key service minRoute minInOut)"
  by (simp add: client_inv_def client_start_def gateway.defs tun_gateway.defs NewGateway_def gw_inv_def table_wf_def sec_valid_def)

lemma client_inv_step:
  assumes "client_step C T P E ev s s'" "client_inv s"
  shows "client_inv s'"
proof -
  have i: "gw_inv s" using assms(2) by (simp add: client_inv_def)
  note g = gw_inv_client_calls [OF i] and t = client_inv_tended [OF assms(2)]
  from assms(1) show ?thesis
  proof (rule client_step_cases)
    fix e
    assume st: "gw_step C T (Process (host.truncate P) C T) E e s s'"
    have "tends (Process (host.truncate P) C T E)" by (simp add: tends_def tended_Process)
    with st show ?thesis by (intro t tended_step [OF _ st] gw_inv_step [OF Process_contract st i])
  next
    fix k
    assume "s' = upd_tun k requestControlMessage s"
    then show ?thesis using i by (auto simp: tun_step_def requestControlMessage_def intro!: t tended_upd)
  qed (use assms(2) g in \<open>auto intro: t tended_WriteTo tended_ReadFrom tended_stops client_inv_configure client_inv_control_pass\<close>)
qed

lemma client_inv_run: "client_run C T evs s s' \<Longrightarrow> client_inv s \<Longrightarrow> client_inv s'"
  by (induction rule: client_run.induct) (auto intro: client_inv_step)

section \<open>A tunnel that is stopped stays stopped\<close>

definition lasting :: "'a tun_gateway_scheme \<Rightarrow> 'a tun_gateway_scheme \<Rightarrow> bool" where
  "lasting s s' \<longleftrightarrow> length (tuns s') = length (tuns s) \<and> (\<forall>t < length (tuns s). wantDestroy (tuns s ! t) \<longrightarrow> wantDestroy (tuns s' ! t))"

lemma lasting_trans [trans]: "lasting s t \<Longrightarrow> lasting t u \<Longrightarrow> lasting s u"
  by (simp add: lasting_def)

lemma lasting_tended: "tended s s' \<Longrightarrow> lasting s s'"
  by (auto simp: tended_def lasting_def tun_step_def list_all2_conv_all_nth)

lemma lasting_control_pass:
  assumes "client_inv s" "t < length (tuns s)" "sign_law P"
  shows "lasting s (control_pass P C T E t s)"
proof -
  define s1 where "s1 = upd_tun t (\<lambda>tn. tn\<lparr>controlSignal := False\<rparr>) s"
  have t1: "tended s s1" unfolding s1_def by (rule tended_upd) (simp add: tun_step_def)
  have i1: "client_inv s1" by (rule client_inv_tended [OF assms(1) t1]) (use assms(1) in \<open>simp add: s1_def client_inv_def\<close>)
  note l1 = lasting_tended [OF t1]
  have i: "lasting s (fst (send_init H C T E st t s1))" for H st
    by (rule lasting_trans [OF l1 lasting_tended [OF tended_send_init]])
  have r: "lasting s (upd_tun t (\<lambda>q. requestControlMessage (q\<lparr>paymentsConfirmed := (if usePayments q then False else paymentsConfirmed q),
      tunnelState := StateTypeConfiguring\<rparr>)) s1)"
    by (rule lasting_trans [OF l1 lasting_tended [OF tended_upd]]) (simp add: tun_step_def requestControlMessage_def)
  have m: "lasting s s2" if "prepareTunnelControlMessage P C T E wp force t s1 = (s2, res)" for wp force s2 res
  proof -
    have l: "t < length (tuns s1)" using assms(2) by (simp add: s1_def)
    with i1 have t: "t < length (tuns s1)" "tun_ok (length (peers s1)) (tuns s1 ! t)" by (simp_all add: client_inv_def)
    from control_message_frame [OF that t assms(3)] obtain calls tn' where
      "s2 = upd_tun t (\<lambda>_. tn') (s1\<lparr>outputs := outputs s1 @ calls\<rparr>)" "wantDestroy tn' = wantDestroy (tuns s1 ! t)" by blast
    then have "lasting s1 s2" by (auto simp: lasting_def nth_hupd)
    with l1 show ?thesis by (rule lasting_trans)
  qed
  have "lasting s (fst (SendCustomMessage E p msg s2))" if "lasting s s2" for p msg and s2 :: "'a tun_gateway_scheme"
    by (rule lasting_trans [OF that lasting_tended [OF tended_Send]])
  with l1 i r m show ?thesis unfolding control_pass_def Let_def s1_def [symmetric] by (auto split: prod.split sum.split)
qed

lemma client_step_lasting:
  assumes "client_step C T P E ev s s'" "client_inv s" "ev \<noteq> EvConfigure"
  shows "lasting s s'"
  using assms(1)
proof (rule client_step_cases)
  fix e
  assume st: "gw_step C T (Process (host.truncate P) C T) E e s s'"
  have "tends (Process (host.truncate P) C T E)" by (simp add: tends_def tended_Process)
  from lasting_tended [OF tended_step [OF this st]] show ?thesis .
next
  fix k
  assume "s' = upd_tun k requestControlMessage s"
  then show ?thesis by (auto simp: tun_step_def requestControlMessage_def intro!: lasting_tended tended_upd)
qed (use assms(2,3) in \<open>auto intro: lasting_tended tended_WriteTo tended_ReadFrom tended_stops lasting_control_pass\<close>)

end
