(* ===== verification/Switchable_Tunnel.thy ===== *)
theory Switchable_Tunnel
  imports Client_Safety
begin

text \<open>
  The tunnel that can be exchanged while it is used (\<open>tunnel/atomicTun.go\<close>) and the whole of \<open>Stop\<close>. The
  holder is the pointer it loads atomically, none before the first \<open>SwitchTo\<close>; every operation of the
  connection is one of the tunnel it points to. The fields of a tunnel that only the methods of
  \<open>net.PacketConn\<close> use, its local address and its deadlines, are kept beside the tunnels.
\<close>

section \<open>Stopping\<close>

text \<open>
  The loop of \<open>Stop\<close>: one entry per pass, with the environment of the pass and whether the timer of
  half a second fires before the tunnel is closed or the deadline has passed. The loop ends with the
  entries, when no message could be sent, or when the timer does not fire first.
\<close>

fun stop_passes ::
  "crypto \<Rightarrow> tlcodec \<Rightarrow> (host \<times> env \<times> bool) list \<Rightarrow> ptr \<Rightarrow> 'a tun_gateway_scheme \<Rightarrow> 'a tun_gateway_scheme" where
  "stop_passes C T [] t s = s"
| "stop_passes C T ((H, E, again) # ps) t s =
     (case stop_pass H C T E t s of (s', sent) \<Rightarrow> if sent \<and> again then stop_passes C T ps t s' else s')"

definition Stop :: "crypto \<Rightarrow> tlcodec \<Rightarrow> (host \<times> env \<times> bool) list \<Rightarrow> ptr \<Rightarrow> 'a tun_gateway_scheme \<Rightarrow> 'a tun_gateway_scheme" where
  "Stop C T passes t s = stop_end t (stop_passes C T passes t (stop_begin t s))"

section \<open>The switchable tunnel\<close>

type_synonym switchable = "ptr option"

definition SwitchTo :: "ptr option \<Rightarrow> switchable \<Rightarrow> switchable" where
  "SwitchTo tun a = tun"

definition Current :: "switchable \<Rightarrow> ptr option" where
  "Current a = a"

text \<open>A nil tunnel: an empty write returns before it looks at the tunnel, everything else panics.\<close>

definition sw_WriteTo ::
  "crypto \<Rightarrow> tlcodec \<Rightarrow> env \<Rightarrow> switchable \<Rightarrow> bytes \<Rightarrow> net_addr \<Rightarrow> 'a tun_gateway_scheme \<Rightarrow> 'a tun_gateway_scheme \<times> (go_error + nat)" where
  "sw_WriteTo C T E a p addr s =
     (case Current a of None \<Rightarrow> (s, if p = [] then Inr 0 else Inl PanicNil) | Some t \<Rightarrow> WriteTo C T E t p addr s)"

definition sw_ReadFrom :: "nat \<Rightarrow> switchable \<Rightarrow> 'a tun_gateway_scheme \<Rightarrow> go_error + ('a tun_gateway_scheme \<times> bytes \<times> net_addr) option" where
  "sw_ReadFrom n a s = (case Current a of None \<Rightarrow> Inl PanicNil | Some t \<Rightarrow> Inr (ReadFrom n t s))"

definition sw_Close :: "crypto \<Rightarrow> tlcodec \<Rightarrow> (host \<times> env \<times> bool) list \<Rightarrow> switchable \<Rightarrow> 'a tun_gateway_scheme \<Rightarrow> go_error + 'a tun_gateway_scheme" where
  "sw_Close C T passes a s = (case Current a of None \<Rightarrow> Inl PanicNil | Some t \<Rightarrow> Inr (Stop C T passes t s))"

section \<open>The rest of \<open>net.PacketConn\<close>\<close>

text \<open>
  The fields that no other operation of the tunnel reads: one entry per tunnel, in the order of
  \<open>tuns\<close>. Setting a deadline never fails, and neither \<open>ReadFrom\<close> nor \<open>WriteTo\<close> looks at it.
\<close>

record conn_fields =
  localAddr :: net_addr
  wDeadline :: int
  rDeadline :: int

text \<open>What \<open>CreateRegularOutTunnel\<close> puts there: every tunnel has the local address 255.0.0.0:1 and no deadline.\<close>

definition new_conn_fields :: conn_fields where
  "new_conn_fields = \<lparr>localAddr = UDPAddr [255, 0, 0, 0] 1, wDeadline = 0, rDeadline = 0\<rparr>"

definition LocalAddr :: "ptr \<Rightarrow> conn_fields list \<Rightarrow> net_addr" where
  "LocalAddr t cs = localAddr (cs ! t)"

definition SetDeadline :: "int \<Rightarrow> ptr \<Rightarrow> conn_fields list \<Rightarrow> conn_fields list" where
  "SetDeadline tm t = hupd t (\<lambda>c. c\<lparr>wDeadline := tm, rDeadline := tm\<rparr>)"

definition SetReadDeadline :: "int \<Rightarrow> ptr \<Rightarrow> conn_fields list \<Rightarrow> conn_fields list" where
  "SetReadDeadline tm t = hupd t (\<lambda>c. c\<lparr>rDeadline := tm\<rparr>)"

definition SetWriteDeadline :: "int \<Rightarrow> ptr \<Rightarrow> conn_fields list \<Rightarrow> conn_fields list" where
  "SetWriteDeadline tm t = hupd t (\<lambda>c. c\<lparr>wDeadline := tm\<rparr>)"

text \<open>The handler of a changed exit address, and the context that ends when the tunnel is closed.\<close>

definition SetOutAddressChangedHandler :: "bool \<Rightarrow> ptr \<Rightarrow> 'a tun_gateway_scheme \<Rightarrow> 'a tun_gateway_scheme" where
  "SetOutAddressChangedHandler f t = upd_tun t (\<lambda>tn. tn\<lparr>onOutAddressChanged := f\<rparr>)"

definition AliveCtx_done :: "ptr \<Rightarrow> 'a tun_gateway_scheme \<Rightarrow> bool" where
  "AliveCtx_done t s = tunClosed (tuns s ! t)"

definition sw_LocalAddr :: "switchable \<Rightarrow> conn_fields list \<Rightarrow> go_error + net_addr" where
  "sw_LocalAddr a cs = (case Current a of None \<Rightarrow> Inl PanicNil | Some t \<Rightarrow> Inr (LocalAddr t cs))"

definition sw_SetDeadline :: "int \<Rightarrow> switchable \<Rightarrow> conn_fields list \<Rightarrow> go_error + conn_fields list" where
  "sw_SetDeadline tm a cs = (case Current a of None \<Rightarrow> Inl PanicNil | Some t \<Rightarrow> Inr (SetDeadline tm t cs))"

definition sw_SetReadDeadline :: "int \<Rightarrow> switchable \<Rightarrow> conn_fields list \<Rightarrow> go_error + conn_fields list" where
  "sw_SetReadDeadline tm a cs = (case Current a of None \<Rightarrow> Inl PanicNil | Some t \<Rightarrow> Inr (SetReadDeadline tm t cs))"

definition sw_SetWriteDeadline :: "int \<Rightarrow> switchable \<Rightarrow> conn_fields list \<Rightarrow> go_error + conn_fields list" where
  "sw_SetWriteDeadline tm a cs = (case Current a of None \<Rightarrow> Inl PanicNil | Some t \<Rightarrow> Inr (SetWriteDeadline tm t cs))"

text \<open>
  The local address of a client is the same before and after every switch, whatever deadlines are set
  and however many tunnels are made.
\<close>

lemma fixed_local_addr:
  assumes "\<forall>c \<in> set cs. localAddr c = localAddr new_conn_fields" "t < length cs"
  shows "sw_LocalAddr (SwitchTo (Some t) a) cs = Inr (UDPAddr [255, 0, 0, 0] 1)"
    and "\<forall>c \<in> set (cs @ [new_conn_fields]). localAddr c = localAddr new_conn_fields"
    and "\<forall>c \<in> set (SetReadDeadline tm t cs) \<union> set (SetWriteDeadline tm t cs). localAddr c = localAddr new_conn_fields"
proof -
  have t: "localAddr (cs ! t) = localAddr new_conn_fields" using assms by simp
  then show "sw_LocalAddr (SwitchTo (Some t) a) cs = Inr (UDPAddr [255, 0, 0, 0] 1)"
    by (simp add: sw_LocalAddr_def SwitchTo_def Current_def LocalAddr_def new_conn_fields_def)
  show "\<forall>c \<in> set (cs @ [new_conn_fields]). localAddr c = localAddr new_conn_fields" using assms(1) by simp
  show "\<forall>c \<in> set (SetReadDeadline tm t cs) \<union> set (SetWriteDeadline tm t cs). localAddr c = localAddr new_conn_fields"
    unfolding SetReadDeadline_def SetWriteDeadline_def hupd_def
    using assms(1) t by (auto dest: subsetD [OF set_update_subset_insert])
qed

text \<open>
  Both halves of a deadline can be set together or one after the other, in either order, and the
  fields of the tunnels that are not in use stay as they are: a deadline set before a switch is not
  carried over to the new tunnel.
\<close>

lemma deadlines_of_current:
  assumes "t < length cs"
  shows "sw_SetDeadline tm (Some t) cs = Inr (SetReadDeadline tm t (SetWriteDeadline tm t cs))"
    and "sw_SetDeadline tm (Some t) cs = Inr (SetWriteDeadline tm t (SetReadDeadline tm t cs))"
    and "sw_SetDeadline tm (Some t) cs = Inr cs' \<Longrightarrow> t' \<noteq> t \<Longrightarrow> cs' ! t' = cs ! t'"
    and "sw_SetDeadline tm (Some t) cs = Inr cs' \<Longrightarrow> LocalAddr t' cs' = LocalAddr t' cs"
proof -
  have swap: "c\<lparr>rDeadline := tm, wDeadline := tm\<rparr> = c\<lparr>wDeadline := tm, rDeadline := tm\<rparr>" for c :: conn_fields by (cases c) simp
  show "sw_SetDeadline tm (Some t) cs = Inr (SetReadDeadline tm t (SetWriteDeadline tm t cs))"
    "sw_SetDeadline tm (Some t) cs = Inr (SetWriteDeadline tm t (SetReadDeadline tm t cs))"
    using assms by (simp_all add: sw_SetDeadline_def Current_def SetDeadline_def SetReadDeadline_def SetWriteDeadline_def hupd_def swap)
  show "sw_SetDeadline tm (Some t) cs = Inr cs' \<Longrightarrow> t' \<noteq> t \<Longrightarrow> cs' ! t' = cs ! t'"
    "sw_SetDeadline tm (Some t) cs = Inr cs' \<Longrightarrow> LocalAddr t' cs' = LocalAddr t' cs"
    using assms by (auto simp: sw_SetDeadline_def Current_def SetDeadline_def hupd_def LocalAddr_def nth_list_update)
qed

section \<open>What an operation touches\<close>

text \<open>Only tunnel \<open>t\<close> may differ, it keeps its peer, and no reference is taken or given back.\<close>

definition only_tun :: "ptr \<Rightarrow> 'a tun_gateway_scheme \<Rightarrow> 'a tun_gateway_scheme \<Rightarrow> bool" where
  "only_tun t s s' \<longleftrightarrow> length (tuns s') = length (tuns s) \<and> (\<forall>t'. t' \<noteq> t \<longrightarrow> tuns s' ! t' = tuns s ! t') \<and>
     tunPeer (tuns s' ! t) = tunPeer (tuns s ! t) \<and> length (peers s') = length (peers s) \<and>
     refs s' = refs s"

lemma only_tun_refl [simp]: "only_tun t s s"
  by (simp add: only_tun_def)

lemma only_tun_trans [trans]: "only_tun t s s1 \<Longrightarrow> only_tun t s1 s2 \<Longrightarrow> only_tun t s s2"
  by (simp add: only_tun_def)

lemma only_tun_upd:
  assumes "tunPeer (f (tuns s ! t)) = tunPeer (tuns s ! t)"
  shows "only_tun t s (upd_tun t f s)"
  using assms by (simp add: only_tun_def upd_tun_def refs_def fun_eq_iff)

lemma only_tun_Send: "only_tun t s (fst (SendCustomMessage E p m s))"
  by (simp add: only_tun_def tuns_Send peer_simps fun_eq_iff)

lemma only_tun_stop_pass: "only_tun t s (fst (stop_pass H C T E t s))"
proof -
  have keeps: "tunPeer (fst (prepareTunnelCloseMessage H C T tn)) = tunPeer tn" for tn
    by (simp add: prepareTunnelCloseMessage_def set_nodes_def split_def)
  show ?thesis
  proof (cases "prepareTunnelCloseMessage H C T (tuns s ! t)")
    case (Pair tn res)
    have u: "only_tun t s (upd_tun t (\<lambda>_. tn) s)" using keeps [of "tuns s ! t"] Pair by (intro only_tun_upd) simp
    then show ?thesis
      using only_tun_trans [OF u only_tun_Send] Pair by (cases res) (auto simp: stop_pass_def split_def)
  qed
qed

lemma only_tun_stop_passes: "only_tun t s (stop_passes C T ps t s)"
proof (induction C T ps t s rule: stop_passes.induct)
  case (2 C T H E again ps t s)
  then show ?case using only_tun_stop_pass [of t s H C T E] by (auto split: prod.split intro: only_tun_trans)
qed simp

lemma only_tun_stopping: "only_tun t s (stop_passes C T ps t (stop_begin t s))"
  unfolding stop_begin_def by (rule only_tun_trans [OF only_tun_upd only_tun_stop_passes]) simp

lemma only_tun_then:
  "only_tun t s x \<Longrightarrow> tunPeer (f (tuns x ! t)) = tunPeer (tuns x ! t) \<Longrightarrow> only_tun t s (upd_tun t f x)"
  "only_tun t s x \<Longrightarrow> SendCustomMessage E p m x = (s', e) \<Longrightarrow> only_tun t s s'"
proof -
  show "only_tun t s (upd_tun t f x)" if "only_tun t s x" "tunPeer (f (tuns x ! t)) = tunPeer (tuns x ! t)"
    by (rule only_tun_trans [OF that(1)], rule only_tun_upd, rule that(2))
  show "only_tun t s s'" if "only_tun t s x" "SendCustomMessage E p m x = (s', e)"
    using only_tun_trans [OF that(1) only_tun_Send [of t x E p m]] that(2) by simp
qed

lemma only_tun_WriteTo:
  assumes "WriteTo C T E t p addr s = (s', r)"
  shows "only_tun t s s'"
proof -
  define s1 where "s1 = (if usePayments (tuns s ! t)
      then upd_tun t (\<lambda>q. (if i64 (packetsMinPaidOut (tuns s ! t) - i64 (packetsConsumedOut (tuns s ! t) + 1)) < half (packetsToPrepay (tuns s ! t))
             then requestControlMessage q else q)\<lparr>packetsConsumedOut := i64 (packetsConsumedOut (tuns s ! t) + 1)\<rparr>) s
      else s)"
  have s1: "only_tun t s s1" unfolding s1_def
    by (cases "usePayments (tuns s ! t)") (simp_all add: only_tun_upd requestControlMessage_def)
  define s2 where "s2 = upd_tun t (\<lambda>q. q\<lparr>seqnoSend := seqnoSend (tuns s ! t) + 1\<rparr>) s1"
  have s2: "only_tun t s s2" unfolding s2_def by (rule only_tun_then(1) [OF s1]) simp
  define s3 where "s3 = upd_tun t (\<lambda>q. q\<lparr>seqnoForward := seqnoForward (tuns s ! t) + 1\<rparr>) s2"
  have s3: "only_tun t s s3" unfolding s3_def by (rule only_tun_then(1) [OF s2]) simp
  have up: "only_tun t s (upd_tun t (\<lambda>q. q\<lparr>packetsSent := packetsSent q + 1\<rparr>) s4)" if "SendCustomMessage E q m s3 = (s4, e)" for q m s4 e
    by (rule only_tun_then(1) [OF only_tun_then(2) [OF s3 that]]) simp
  from assms s1 s2 show ?thesis
    unfolding WriteTo_def Let_def s1_def [symmetric] s2_def [symmetric] s3_def [symmetric]
    by (auto split: if_splits net_addr.splits option.splits sum.splits prod.splits intro: up only_tun_then(2) [OF s3])
qed

lemma only_tun_ReadFrom: "ReadFrom n t s = Some (s', pl, addr) \<Longrightarrow> only_tun t s s'"
  by (auto simp: ReadFrom_def split: list.splits intro: only_tun_upd)

lemma stop_end_effect:
  assumes "tunPeer (tuns s ! t) < length (peers s)"
  shows "tuns (stop_end t s) = hupd t (\<lambda>tn. tn\<lparr>tunClosed := True\<rparr>) (tuns s)"
    and "refs (stop_end t s) (tunPeer (tuns s ! t)) = i64 (refs s (tunPeer (tuns s ! t)) - 1)"
    and "length (peers (stop_end t s)) = length (peers s)"
    and "i64 (refs s (tunPeer (tuns s ! t)) - 1) \<le> 0 \<Longrightarrow> getConn (tunPeer (tuns s ! t)) (stop_end t s) = None"
proof -
  let ?p = "tunPeer (tuns s ! t)"
  define u where "u = upd_tun t (\<lambda>tn. tn\<lparr>tunClosed := True\<rparr>) s"
  have u: "peers u = peers s" "refs u = refs s" "tuns u = hupd t (\<lambda>tn. tn\<lparr>tunClosed := True\<rparr>) (tuns s)" by (simp_all add: u_def upd_tun_def refs_def fun_eq_iff)
  have e: "stop_end t s = Dereference ?p u" by (simp add: stop_end_def u_def)
  show "tuns (stop_end t s) = hupd t (\<lambda>tn. tn\<lparr>tunClosed := True\<rparr>) (tuns s)" by (simp add: e relay_simps u)
  show "refs (stop_end t s) ?p = i64 (refs s ?p - 1)" using peer_refs.count_release [of u ?p ?p] assms by (simp add: e u peer_valid_def)
  show "length (peers (stop_end t s)) = length (peers s)" by (simp add: e u peer_simps)
  show "getConn ?p (stop_end t s) = None" if "i64 (refs s ?p - 1) \<le> 0"
  proof -
    let ?v = "upd_peer ?p (\<lambda>q. q\<lparr>references := i64 (references q - 1)\<rparr>) u"
    have "references (peers ?v ! ?p) \<le> 0" using that assms by (simp add: peer_simps u refs_def)
    then have "stop_end t s = remove_peer ?p (closeConn ?p None ?v)" by (simp add: e Dereference_def)
    moreover have "getConn ?p (closeConn ?p None ?v) = None" using assms u(1)
      by (auto simp: closeConn_def getConn_def peer_simps split: option.split)
    ultimately show ?thesis using assms by (simp add: remove_peer_def getConn_def peer_simps upd_peer_def)
  qed
qed

lemma Stop_effect:
  assumes "tunPeer (tuns s ! t) < length (peers s)"
  shows "t' \<noteq> t \<Longrightarrow> tuns (Stop C T ps t s) ! t' = tuns s ! t'" "tunPeer (tuns (Stop C T ps t s) ! t) = tunPeer (tuns s ! t)"
    and "length (peers (Stop C T ps t s)) = length (peers s)"
    and "refs (Stop C T ps t s) (tunPeer (tuns s ! t)) = i64 (refs s (tunPeer (tuns s ! t)) - 1)"
    and "i64 (refs s (tunPeer (tuns s ! t)) - 1) \<le> 0 \<Longrightarrow> getConn (tunPeer (tuns s ! t)) (Stop C T ps t s) = None"
proof -
  define u where "u = stop_passes C T ps t (stop_begin t s)"
  have o: "only_tun t s u" unfolding u_def by (rule only_tun_stopping)
  then have f: "tunPeer (tuns u ! t) = tunPeer (tuns s ! t)" "refs u = refs s" "length (peers u) = length (peers s)"
      "\<And>t'. t' \<noteq> t \<Longrightarrow> tuns u ! t' = tuns s ! t'" by (simp_all add: only_tun_def)
  have p: "tunPeer (tuns u ! t) < length (peers u)" using assms f by simp
  have st: "Stop C T ps t s = stop_end t u" by (simp add: Stop_def u_def)
  note eff = stop_end_effect [OF p]
  show "t' \<noteq> t \<Longrightarrow> tuns (Stop C T ps t s) ! t' = tuns s ! t'" "tunPeer (tuns (Stop C T ps t s) ! t) = tunPeer (tuns s ! t)"
    using f by (simp_all add: st eff(1))
  show "length (peers (Stop C T ps t s)) = length (peers s)" using eff(3) f(3) by (simp add: st)
  show "refs (Stop C T ps t s) (tunPeer (tuns s ! t)) = i64 (refs s (tunPeer (tuns s ! t)) - 1)" using eff(2) f(1,2) by (simp add: st)
  show "i64 (refs s (tunPeer (tuns s ! t)) - 1) \<le> 0 \<Longrightarrow> getConn (tunPeer (tuns s ! t)) (Stop C T ps t s) = None"
    using eff(4) f(1,2) by (simp add: st)
qed

text \<open>After \<open>Stop\<close> the context of the tunnel has ended, whatever happened while it was stopping.\<close>

lemma Stop_ends_context:
  assumes "t < length (tuns s)" "tunPeer (tuns s ! t) < length (peers s)"
  shows "AliveCtx_done t (Stop C T ps t s)"
proof -
  define u where "u = stop_passes C T ps t (stop_begin t s)"
  have "only_tun t s u" unfolding u_def by (rule only_tun_stopping)
  then have "t < length (tuns u)" "tunPeer (tuns u ! t) < length (peers u)" using assms by (simp_all add: only_tun_def)
  then show ?thesis using stop_end_effect(1) [of u t] by (simp add: AliveCtx_done_def Stop_def flip: u_def)
qed

section \<open>Properties\<close>

text \<open>
  After \<open>SwitchTo\<close> every operation works on the new tunnel only: writing, reading and closing leave
  the state of all other tunnels as it is, among them the tunnel that was in use before, which the
  switch neither stops nor empties.
\<close>

lemma switched_tunnel_only:
  assumes "a' = SwitchTo (Some t) a" "t' \<noteq> t" "tunPeer (tuns s ! t) < length (peers s)"
  shows "tuns (fst (sw_WriteTo C T E a' p addr s)) ! t' = tuns s ! t' \<and>
    (\<forall>n s' pl src. sw_ReadFrom n a' s = Inr (Some (s', pl, src)) \<longrightarrow> tuns s' ! t' = tuns s ! t') \<and>
    (\<exists>s'. sw_Close C T passes a' s = Inr s' \<and> tuns s' ! t' = tuns s ! t')"
proof -
  have c: "Current a' = Some t" using assms(1) by (simp add: Current_def SwitchTo_def)
  have "tuns (fst (WriteTo C T E t p addr s)) ! t' = tuns s ! t'"
    using only_tun_WriteTo [of C T E t p addr s] assms(2) by (cases "WriteTo C T E t p addr s") (simp add: only_tun_def)
  moreover have "tuns s' ! t' = tuns s ! t'" if "ReadFrom n t s = Some (s', pl, src)" for n s' pl src
    using only_tun_ReadFrom [OF that] assms(2) by (simp add: only_tun_def)
  ultimately show ?thesis using Stop_effect(1) [OF assms(3,2)] c by (auto simp: sw_WriteTo_def sw_ReadFrom_def sw_Close_def)
qed

definition two_tuns :: tun_gateway where
  "two_tuns = tun_gw\<lparr>tuns := [open_tun, open_tun], peers := map (\<lambda>q. q\<lparr>references := 2\<rparr>) (peers tun_gw)\<rparr>"

lemma two_tuns_fields [simp]: "tunPeer (tuns two_tuns ! 0) = 0" "tunPeer (tuns two_tuns ! Suc 0) = 0" "peers two_tuns \<noteq> []" "refs two_tuns 0 = 2"
  by (simp_all add: two_tuns_def refs_def tun_gw_def gateway.defs tun_gateway.defs demo_gw_def NewGateway_def)

lemma switched_tunnel_only_witness:
  "tuns (fst (sw_WriteTo demo_crypto demo_tl2 demo_env (SwitchTo (Some 1) (Some 0)) [5] (UDPAddr [10, 0, 0, 7] 80) two_tuns)) ! 0 = tuns two_tuns ! 0"
proof -
  have "(0 :: nat) \<noteq> 1" "tunPeer (tuns two_tuns ! 1) < length (peers two_tuns)" by simp_all
  from conjunct1 [OF switched_tunnel_only [OF refl this]] show ?thesis .
qed

text \<open>
  Stopping a tunnel twice takes away a reference that it does not hold: when it and one other user
  share a peer, the first \<open>Stop\<close> gives back the tunnel's reference and the second one that of the other
  user, whose peer is closed and loses its connection although nothing has stopped that user.
\<close>

lemma stop_twice_drops_peer:
  assumes "tunPeer (tuns s ! t) = p" "p < length (peers s)" "refs s p = 2" "t' \<noteq> t" "tunPeer (tuns s ! t') = p"
  shows "refs (Stop C T ps t s) p = 1 \<and>
    (let s2 = Stop C T ps' t (Stop C T ps t s)
     in refs s2 p = 0 \<and> getConn p s2 = None \<and> tuns s2 ! t' = tuns s ! t' \<and> tunPeer (tuns s2 ! t') = p)"
proof -
  define s1 where "s1 = Stop C T ps t s"
  have p: "tunPeer (tuns s ! t) < length (peers s)" using assms(1,2) by simp
  note e1 = Stop_effect [OF p, where C = C and T = T and ps = ps, folded s1_def]
  have r1: "refs s1 p = 1" using e1(4) assms(1,3) by (simp add: i64_def)
  have p1: "tunPeer (tuns s1 ! t) = p" "p < length (peers s1)" using e1(2,3) assms(1,2) by simp_all
  then have "tunPeer (tuns s1 ! t) < length (peers s1)" by simp
  note e2 = Stop_effect [OF this, where C = C and T = T and ps = ps', unfolded p1(1) r1]
  have "refs (Stop C T ps' t s1) p = 0" "getConn p (Stop C T ps' t s1) = None" using e2(4,5) by (simp_all add: i64_def)
  with r1 e1(1) e2(1) assms(4,5) show ?thesis by (simp add: Let_def flip: s1_def)
qed

lemma stop_twice_drops_peer_witness:
  "let s2 = Stop demo_crypto demo_tl2 [] 0 (Stop demo_crypto demo_tl2 [] 0 two_tuns) in refs s2 0 = 0 \<and> getConn 0 s2 = None"
  using stop_twice_drops_peer [of two_tuns 0 0 1 demo_crypto demo_tl2 "[]" "[]"] by (simp add: Let_def)

end
