(* ===== verification/Client_Library.thy ===== *)
theory Client_Library
  imports Out_Tunnel_Safety
begin

text \<open>
  The C library's packet batches: \<open>cmd/lib/lib.go\<close>. Packets cross the C boundary in frames of a
  socket address, a length and the data. The receiving loop of \<open>PrepareTunnel\<close> collects frames in
  one buffer, \<open>WriteTunnel\<close> takes such a buffer apart and writes each packet to the tunnel. The C
  memory behind a pointer is not modelled: a buffer is the list of its bytes, and \<open>MaxMTU\<close> of the
  ADNL package is a parameter.
\<close>

unbundle bit_operations_syntax

section \<open>Socket addresses\<close>

definition copy_at :: "bytes \<Rightarrow> nat \<Rightarrow> bytes \<Rightarrow> bytes" where
  "copy_at buf i xs = take i buf @ take (length buf - i) xs @ drop (i + length xs) buf"

definition To4 :: "bytes \<Rightarrow> bytes" where
  "To4 ip = (if length ip = 4 then ip
     else if length ip = 16 \<and> take 12 ip = replicate 10 0 @ [0xFF, 0xFF] then drop 12 ip else [])"

definition writeSockAddr :: "bytes \<Rightarrow> nat \<Rightarrow> bytes \<Rightarrow> int \<Rightarrow> go_error + bytes" where
  "writeSockAddr buf off ip port =
     (if length buf < off + 4 then Inl PanicIndex
      else Inr (copy_at (buf[off := 2, off + 1 := 0, off + 2 := word_of_int (port div 256), off + 3 := word_of_int (port AND 0xff)])
                  (off + 4) (To4 ip)))"

definition parseSockAddr :: "bytes \<Rightarrow> go_error + bytes \<times> int" where
  "parseSockAddr bs =
     (if length bs < 16 then Inl (ErrSetup ErrSockLength)
      else if bs ! 0 \<noteq> 2 \<or> bs ! 1 \<noteq> 0 then Inl (ErrSetup ErrSockFamily)
      else Inr (take 4 (drop 4 bs), uint (bs ! 2) * 256 + uint (bs ! 3)))"

section \<open>The receiving loop\<close>

record batch =
  batchBuf :: bytes
  batchOff :: nat
  batchNum :: nat

definition new_batch :: "nat \<Rightarrow> batch" where
  "new_batch MaxMTU = \<lparr>batchBuf = replicate ((16 + 2 + MaxMTU) * 100) 0, batchOff = 0, batchNum = 0\<rparr>"

text \<open>
  Handing over a batch of at least 100 packets, or any packets after 10 ms; the buffer is used
  again from its start.
\<close>

definition flush :: "bool \<Rightarrow> batch \<Rightarrow> batch \<times> (bytes \<times> nat) option" where
  "flush elapsed b =
     (if 100 \<le> batchNum b \<or> (0 < batchNum b \<and> elapsed)
      then (b\<lparr>batchNum := 0, batchOff := 0\<rparr>, Some (batchBuf b, batchNum b)) else (b, None))"

text \<open>A packet that was read to its place in the buffer gets its address and length in front.\<close>

definition add_packet :: "bytes \<Rightarrow> bytes \<Rightarrow> int \<Rightarrow> batch \<Rightarrow> go_error + batch" where
  "add_packet pl ip port b =
     (case writeSockAddr (copy_at (batchBuf b) (batchOff b + 18) pl) (batchOff b) ip port of
        Inl e \<Rightarrow> Inl e
      | Inr buf \<Rightarrow>
          if length buf < batchOff b + 18 then Inl PanicIndex
          else Inr \<lparr>batchBuf = buf[batchOff b + 16 := word_of_int (int (length pl) div 256),
                                    batchOff b + 17 := word_of_int (int (length pl) AND 0xff)],
                    batchOff = batchOff b + (18 + length pl), batchNum = batchNum b + 1\<rparr>)"

text \<open>
  One pass of the loop; the result is the batch handed to the callback, if any. Reading ends with
  a packet or with the deadline.
\<close>

definition read_pass ::
  "nat \<Rightarrow> bool \<Rightarrow> ptr \<Rightarrow> 'a tun_gateway_scheme \<times> batch
   \<Rightarrow> go_error + ('a tun_gateway_scheme \<times> batch) \<times> (bytes \<times> nat) option" where
  "read_pass MaxMTU elapsed t st =
     (case st of (s, b) \<Rightarrow>
        if length (batchBuf b) < batchOff b + 18 then Inl PanicIndex
        else case ReadFromWithTimeout (length (batchBuf b) - (batchOff b + 18)) t s of
          (s', Inl e) \<Rightarrow> (case flush elapsed b of (b', r) \<Rightarrow> Inr ((s', b'), r))
        | (s', Inr (pl, addr)) \<Rightarrow>
            if MaxMTU < length pl then Inr ((s', b\<lparr>batchBuf := copy_at (batchBuf b) (batchOff b + 18) pl\<rparr>), None)
            else if pl = [] then (case flush elapsed b of (b', r) \<Rightarrow> Inr ((s', b'), r))
            else (case addr of
                    OtherAddr \<Rightarrow> Inl PanicNil
                  | UDPAddr ip port \<Rightarrow>
                      (case add_packet pl ip port b of
                         Inl e \<Rightarrow> Inl e
                       | Inr b1 \<Rightarrow> (case flush elapsed b1 of (b', r) \<Rightarrow> Inr ((s', b'), r)))))"

section \<open>Writing a batch\<close>

text \<open>The tunnel may not be there yet: writing nothing to a nil tunnel returns, anything else fails.\<close>

definition tunnel_write ::
  "crypto \<Rightarrow> tlcodec \<Rightarrow> env \<Rightarrow> ptr option \<Rightarrow> bytes \<Rightarrow> net_addr \<Rightarrow> 'a tun_gateway_scheme \<Rightarrow> 'a tun_gateway_scheme \<times> (go_error + nat)" where
  "tunnel_write C T E tun p addr s =
     (case tun of None \<Rightarrow> (s, if p = [] then Inr 0 else Inl PanicNil) | Some t \<Rightarrow> WriteTo C T E t p addr s)"

text \<open>
  The result is the C return value: 1, or -1 when the tunnel refuses a packet, or 0 for a bad
  address; an error for a panic.
\<close>

primrec write_loop ::
  "crypto \<Rightarrow> tlcodec \<Rightarrow> env \<Rightarrow> ptr option \<Rightarrow> bytes \<Rightarrow> nat \<Rightarrow> nat \<Rightarrow> 'a tun_gateway_scheme \<Rightarrow> 'a tun_gateway_scheme \<times> (go_error + int)" where
  "write_loop C T E tun buf 0 off s = (s, Inr 1)"
| "write_loop C T E tun buf (Suc n) off s =
     (if length buf < off then (s, Inl PanicIndex)
      else case parseSockAddr (drop off buf) of
        Inl e \<Rightarrow> (s, Inr 0)
      | Inr (ip, port) \<Rightarrow>
          if length buf < off + 18 then (s, Inl PanicIndex)
          else let sz = unat (buf ! (off + 16)) * 256 + unat (buf ! (off + 17))
               in if length buf < off + 18 + sz then (s, Inl PanicIndex)
                  else case tunnel_write C T E tun (take sz (drop (off + 18) buf)) (UDPAddr ip port) s of
                         (s', Inl e) \<Rightarrow> (s', if is_panic e then Inl e else Inr (-1))
                       | (s', Inr _) \<Rightarrow> write_loop C T E tun buf n (off + (18 + sz)) s')"

text \<open>\<open>indexMatch\<close> has the tunnels by index, from 1.\<close>

definition WriteTunnel ::
  "crypto \<Rightarrow> tlcodec \<Rightarrow> env \<Rightarrow> ptr option list \<Rightarrow> nat \<Rightarrow> bytes \<Rightarrow> nat \<Rightarrow> 'a tun_gateway_scheme
   \<Rightarrow> 'a tun_gateway_scheme \<times> (go_error + int)" where
  "WriteTunnel C T E indexMatch tunIdx data num s =
     (if tunIdx = 0 \<or> length indexMatch < tunIdx then (s, Inr 0)
      else write_loop C T E (indexMatch ! (tunIdx - 1)) data num 0 s)"

section \<open>Frames\<close>

lemma length_copy_at [simp]: "i \<le> length buf \<Longrightarrow> length (copy_at buf i xs) = length buf"
  by (auto simp: copy_at_def)

lemma copy_at_fits: "i + length xs \<le> length buf \<Longrightarrow> copy_at buf i xs = take i buf @ xs @ drop (i + length xs) buf"
  by (simp add: copy_at_def)

lemma nth_copy_at:
  assumes "i + length xs \<le> length buf" "j < length buf"
  shows "copy_at buf i xs ! j = (if j < i then buf ! j else if j < i + length xs then xs ! (j - i) else buf ! j)"
  using assms by (auto simp: copy_at_fits nth_append)

type_synonym packet = "bytes \<times> int \<times> bytes" \<comment> \<open>address, port, data\<close>

fun frame_at :: "bytes \<Rightarrow> nat \<Rightarrow> packet \<Rightarrow> bool" where
  "frame_at buf off (ip, port, pl) \<longleftrightarrow> off + 18 + length pl \<le> length buf \<and>
     parseSockAddr (drop off buf) = Inr (To4 ip, port) \<and>
     unat (buf ! (off + 16)) * 256 + unat (buf ! (off + 17)) = length pl \<and> take (length pl) (drop (off + 18) buf) = pl"

primrec frames_at :: "bytes \<Rightarrow> nat \<Rightarrow> packet list \<Rightarrow> nat \<Rightarrow> bool" where
  "frames_at buf off [] e \<longleftrightarrow> off = e"
| "frames_at buf off (p # ps) e \<longleftrightarrow> frame_at buf off p \<and> frames_at buf (off + (18 + length (snd (snd p)))) ps e"

lemma frames_at_le: "frames_at buf off ps e \<Longrightarrow> off \<le> length buf \<Longrightarrow> off \<le> e \<and> e \<le> length buf"
proof (induction ps arbitrary: off)
  case (Cons p ps)
  let ?m = "off + (18 + length (snd (snd p)))"
  have "?m \<le> length buf" using Cons.prems(1) by (cases p) simp
  with Cons.IH [of ?m] Cons.prems(1) show ?case by simp
qed simp

lemma frames_at_append:
  "frames_at buf off ps m \<Longrightarrow> frame_at buf m p \<Longrightarrow> frames_at buf off (ps @ [p]) (m + (18 + length (snd (snd p))))"
  by (induction ps arbitrary: off) auto

text \<open>A frame only depends on its own bytes.\<close>

lemma frame_at_cong:
  assumes "frame_at buf off p" "length buf' = length buf"
    and "\<And>j. off \<le> j \<Longrightarrow> j < off + (18 + length (snd (snd p))) \<Longrightarrow> buf' ! j = buf ! j"
  shows "frame_at buf' off p"
proof -
  obtain ip port pl where p: "p = (ip, port, pl)" by (metis prod_cases3)
  with assms(1) have f: "off + 18 + length pl \<le> length buf" "parseSockAddr (drop off buf) = Inr (To4 ip, port)"
    "unat (buf ! (off + 16)) * 256 + unat (buf ! (off + 17)) = length pl" "take (length pl) (drop (off + 18) buf) = pl" by simp_all
  have eq: "buf' ! j = buf ! j" if "off \<le> j" "j < off + (18 + length pl)" for j using assms(3) that p by simp
  have "take 4 (drop 4 (drop off buf')) = take 4 (drop 4 (drop off buf))"
    using f(1) assms(2) by (intro nth_equalityI) (auto intro!: eq)
  then have "parseSockAddr (drop off buf') = parseSockAddr (drop off buf)"
    using f(1) assms(2) eq by (simp add: parseSockAddr_def)
  moreover have "take (length pl) (drop (off + 18) buf') = take (length pl) (drop (off + 18) buf)"
    using f(1) assms(2) by (intro nth_equalityI) (auto intro!: eq)
  ultimately show ?thesis using f assms(2) eq by (simp add: p)
qed

lemma frames_at_cong:
  assumes "frames_at buf off ps e" "length buf' = length buf" "\<And>j. off \<le> j \<Longrightarrow> j < e \<Longrightarrow> buf' ! j = buf ! j" "off \<le> length buf"
  shows "frames_at buf' off ps e"
  using assms
proof (induction ps arbitrary: off)
  case (Cons p ps)
  let ?m = "off + (18 + length (snd (snd p)))"
  have p: "frame_at buf off p" "frames_at buf ?m ps e" using Cons.prems(1) by simp_all
  then have le: "?m \<le> length buf" by (cases p) simp
  with frames_at_le [OF p(2)] have "?m \<le> e" by simp
  then have "frame_at buf' off p" by (intro frame_at_cong [OF p(1) Cons.prems(2)] Cons.prems(3)) simp_all
  moreover have "frames_at buf' ?m ps e" using Cons.IH [OF p(2) Cons.prems(2) _ le] Cons.prems(3) by auto
  ultimately show ?case by simp
qed simp

section \<open>Adding a packet\<close>

lemma word8_byte: "0 \<le> n \<Longrightarrow> uint (word_of_int (n AND 0xff) :: byte) = n mod 256"
proof -
  have "n AND 0xff = take_bit 8 n" by (simp add: take_bit_eq_mask mask_eq_exp_minus_1)
  then show ?thesis by (simp add: uint_word_of_int_eq take_bit_eq_mod)
qed

lemma byte_pair:
  assumes "0 \<le> n" "n < 65536"
  shows "uint (word_of_int (n div 256) :: byte) * 256 + uint (word_of_int (n AND 0xff) :: byte) = n"
proof -
  have "uint (word_of_int (n div 256) :: byte) = n div 256" using assms by (simp add: uint_word_of_int_eq take_bit_eq_mod)
  then show ?thesis using word8_byte [OF assms(1)] by simp
qed

lemma byte_pair_nat:
  assumes "n < 65536"
  shows "unat (word_of_int (int n div 256) :: byte) * 256 + unat (word_of_int (int n AND 0xff) :: byte) = n"
proof -
  have "int (unat (word_of_int (int n div 256) :: byte) * 256 + unat (word_of_int (int n AND 0xff) :: byte)) = int n"
    using byte_pair [of "int n"] assms by simp
  then show ?thesis by linarith
qed

text \<open>The buffer after a packet was added: everything before is untouched, and its frame is there.\<close>

lemma add_packet_frame:
  assumes "batchOff b + (18 + length pl) \<le> length (batchBuf b)" "length (To4 ip) = 4" "0 \<le> port" "port < 65536" "length pl < 65536"
  obtains b' where "add_packet pl ip port b = Inr b'" "length (batchBuf b') = length (batchBuf b)"
    "batchOff b' = batchOff b + (18 + length pl)" "batchNum b' = batchNum b + 1"
    "\<And>j. j < batchOff b \<Longrightarrow> batchBuf b' ! j = batchBuf b ! j" "frame_at (batchBuf b') (batchOff b) (ip, port, pl)"
proof -
  let ?off = "batchOff b" let ?buf = "batchBuf b" let ?n = "length ?buf"
  define b1 where "b1 = copy_at ?buf (?off + 18) pl"
  define b2 where "b2 = b1[?off := 2, ?off + 1 := 0, ?off + 2 := word_of_int (port div 256), ?off + 3 := word_of_int (port AND 0xff)]"
  define b3 where "b3 = copy_at b2 (?off + 4) (To4 ip)"
  define b4 where "b4 = b3[?off + 16 := word_of_int (int (length pl) div 256), ?off + 17 := word_of_int (int (length pl) AND 0xff)]"
  have len: "length b1 = ?n" "length b2 = ?n" "length b3 = ?n" "length b4 = ?n"
    using assms(1) by (simp_all add: b1_def b2_def b3_def b4_def)
  have w: "writeSockAddr b1 ?off ip port = Inr b3" using assms(1) len by (simp add: writeSockAddr_def b3_def b2_def)
  have add: "add_packet pl ip port b = Inr \<lparr>batchBuf = b4, batchOff = ?off + (18 + length pl), batchNum = batchNum b + 1\<rparr>"
    using assms(1) len by (simp add: add_packet_def b1_def [symmetric] w b4_def)
  have n1: "b1 ! j = (if j < ?off + 18 then ?buf ! j else if j < ?off + (18 + length pl) then pl ! (j - (?off + 18)) else ?buf ! j)" if "j < ?n" for j
    using nth_copy_at [of "?off + 18" pl ?buf j] assms(1) that by (simp add: b1_def)
  have n3: "b3 ! j = (if j < ?off + 4 then b2 ! j else if j < ?off + 8 then To4 ip ! (j - (?off + 4)) else b2 ! j)" if "j < ?n" for j
    using nth_copy_at [of "?off + 4" "To4 ip" b2 j] assms(1,2) that len(2) by (simp add: b3_def)
  have before: "b4 ! j = ?buf ! j" if "j < ?off" for j
    using that assms(1) n1 [of j] n3 [of j] by (simp add: b4_def b2_def)
  have data: "take (length pl) (drop (?off + 18) b4) = pl"
    using assms(1) len(4) n1 n3 by (intro nth_equalityI) (simp_all add: b4_def b2_def)
  have head: "b4 ! ?off = 2" "b4 ! (?off + 1) = 0" "b4 ! (?off + 2) = word_of_int (port div 256)" "b4 ! (?off + 3) = word_of_int (port AND 0xff)"
    using assms(1) len n3 by (simp_all add: b4_def b2_def nth_list_update)
  have addr: "take 4 (drop 4 (drop ?off b4)) = To4 ip"
    using assms(1,2) len(4) n3 by (intro nth_equalityI) (simp_all add: b4_def add.commute)
  have "parseSockAddr (drop ?off b4) = Inr (To4 ip, port)"
    using assms(1) len(4) head addr byte_pair [OF assms(3,4)] by (simp add: parseSockAddr_def add.commute)
  moreover have "unat (b4 ! (?off + 16)) * 256 + unat (b4 ! (?off + 17)) = length pl"
    using byte_pair_nat [OF assms(5)] assms(1) len(3) by (simp add: b4_def)
  ultimately have "frame_at b4 ?off (ip, port, pl)" using assms(1) len(4) data by simp
  then show thesis using that [OF add] before len(4) by simp
qed

section \<open>Properties\<close>

text \<open>Writing packets one after the other, until the tunnel refuses one.\<close>

primrec send_all ::
  "crypto \<Rightarrow> tlcodec \<Rightarrow> env \<Rightarrow> ptr option \<Rightarrow> packet list \<Rightarrow> 'a tun_gateway_scheme \<Rightarrow> 'a tun_gateway_scheme \<times> (go_error + int)" where
  "send_all C T E tun [] s = (s, Inr 1)"
| "send_all C T E tun (p # ps) s =
     (case p of (ip, port, pl) \<Rightarrow>
        (case tunnel_write C T E tun pl (UDPAddr (To4 ip) port) s of
           (s', Inl e) \<Rightarrow> (s', if is_panic e then Inl e else Inr (-1))
         | (s', Inr _) \<Rightarrow> send_all C T E tun ps s'))"

lemma write_loop_frames:
  "frames_at buf off ps e \<Longrightarrow> write_loop C T E tun buf (length ps) off s = send_all C T E tun ps s"
proof (induction ps arbitrary: off s)
  case (Cons p ps)
  obtain ip port pl where p: "p = (ip, port, pl)" by (metis prod_cases3)
  with Cons.prems have f: "off + 18 + length pl \<le> length buf" "parseSockAddr (drop off buf) = Inr (To4 ip, port)"
    "unat (buf ! (off + 16)) * 256 + unat (buf ! (off + 17)) = length pl" "take (length pl) (drop (off + 18) buf) = pl"
    "frames_at buf (off + (18 + length pl)) ps e" by simp_all
  with Cons.IH [OF f(5)] p show ?case by (simp add: Let_def split: prod.split sum.split)
qed simp

text \<open>
  The state of a batch that holds the packets \<open>ps\<close>: they are framed one behind the other from the
  start of the buffer, none larger than the limit, and there is room for one more.
\<close>

definition batch_holds :: "nat \<Rightarrow> batch \<Rightarrow> packet list \<Rightarrow> bool" where
  "batch_holds MaxMTU b ps \<longleftrightarrow> length (batchBuf b) = (16 + 2 + MaxMTU) * 100 \<and> batchNum b = length ps \<and> length ps < 100 \<and>
     frames_at (batchBuf b) 0 ps (batchOff b) \<and> batchOff b \<le> length ps * (18 + MaxMTU)"

lemma batch_room:
  assumes "batch_holds MaxMTU b ps"
  shows "batchOff b + (18 + MaxMTU) \<le> length (batchBuf b)"
proof -
  have "length ps * (18 + MaxMTU) + (18 + MaxMTU) \<le> 100 * (18 + MaxMTU)"
    using assms mult_le_mono1 [of "length ps + 1" 100 "18 + MaxMTU"] by (simp add: batch_holds_def)
  then show ?thesis using assms by (simp add: batch_holds_def mult.commute)
qed

text \<open>What a pass reads: nothing, or the first packet of the queue if it is neither empty nor too large.\<close>

definition packet_read :: "nat \<Rightarrow> nat \<Rightarrow> out_tunnel \<Rightarrow> packet list" where
  "packet_read MaxMTU room tn =
     (case readQueue tn of [] \<Rightarrow> []
      | (_, ip, port, pl) # _ \<Rightarrow> if take room pl = [] \<or> MaxMTU < length (take room pl) then [] else [(ip, uint port, take room pl)])"

text \<open>What a pass may leave behind: a batch that holds the packets, or a buffer of frames that is handed over.\<close>

definition handed :: "nat \<Rightarrow> batch \<Rightarrow> (bytes \<times> nat) option \<Rightarrow> packet list \<Rightarrow> bool" where
  "handed MaxMTU b r ps \<longleftrightarrow> (case r of None \<Rightarrow> batch_holds MaxMTU b ps
     | Some (buf, num) \<Rightarrow> num = length ps \<and> batch_holds MaxMTU b [] \<and> (\<exists>e. frames_at buf 0 ps e))"

lemma flush_handed:
  assumes "length (batchBuf b) = (16 + 2 + MaxMTU) * 100" "batchNum b = length ps" "length ps \<le> 100"
    and "frames_at (batchBuf b) 0 ps (batchOff b)" "batchOff b \<le> length ps * (18 + MaxMTU)"
  shows "handed MaxMTU (fst (flush elapsed b)) (snd (flush elapsed b)) ps"
  using assms by (auto simp: handed_def flush_def batch_holds_def)

lemma WriteTunnel_frames:
  assumes "frames_at buf 0 ps e"
  shows "WriteTunnel C T E [t] (Suc 0) buf (length ps) s = send_all C T E t ps s"
  using write_loop_frames [OF assms] by (simp add: WriteTunnel_def)

text \<open>Nothing was read, or an empty packet.\<close>

lemma read_pass_idle:
  assumes "batch_holds MaxMTU b ps"
    and "read_pass MaxMTU elapsed t (s, b) = (case flush elapsed b of (b', r) \<Rightarrow> Inr ((s', b'), r))"
  shows "\<exists>b' r. read_pass MaxMTU elapsed t (s, b) = Inr ((s', b'), r) \<and> handed MaxMTU b' r ps"
  using flush_handed [of b MaxMTU ps elapsed] assms by (simp add: batch_holds_def split: prod.splits)

text \<open>A packet above the limit is left in the free part of the buffer.\<close>

lemma batch_scribbled:
  assumes "batch_holds MaxMTU b ps" "batchOff b + 18 + length pl \<le> length (batchBuf b)"
  shows "batch_holds MaxMTU (b\<lparr>batchBuf := copy_at (batchBuf b) (batchOff b + 18) pl\<rparr>) ps"
proof -
  define c where "c = copy_at (batchBuf b) (batchOff b + 18) pl"
  have c: "length c = length (batchBuf b)" "\<And>j. j < batchOff b \<Longrightarrow> c ! j = batchBuf b ! j"
    using assms(2) nth_copy_at [OF assms(2)] by (simp_all add: c_def)
  have "frames_at c 0 ps (batchOff b)"
    using assms(1) by (intro frames_at_cong [of "batchBuf b", OF _ c(1)] c(2)) (simp_all add: batch_holds_def)
  then show ?thesis using assms(1) c(1) by (simp add: batch_holds_def flip: c_def)
qed

text \<open>A packet within the limit becomes one more frame.\<close>

lemma batch_extended:
  assumes h: "batch_holds MaxMTU b ps" and l: "length pl \<le> MaxMTU" "MaxMTU < 65536"
    and a: "length (To4 ip) = 4" "0 \<le> port" "port < 65536"
  shows "\<exists>b'. add_packet pl ip port b = Inr b' \<and> handed MaxMTU (fst (flush elapsed b')) (snd (flush elapsed b')) (ps @ [(ip, port, pl)])"
proof -
  note hd = h [unfolded batch_holds_def]
  have fit: "batchOff b + (18 + length pl) \<le> length (batchBuf b)" "length pl < 65536"
    using batch_room [OF h] l by linarith+
  obtain b' where b': "add_packet pl ip port b = Inr b'" "length (batchBuf b') = length (batchBuf b)"
      "batchOff b' = batchOff b + (18 + length pl)" "batchNum b' = batchNum b + 1"
      "\<And>j. j < batchOff b \<Longrightarrow> batchBuf b' ! j = batchBuf b ! j" "frame_at (batchBuf b') (batchOff b) (ip, port, pl)"
    using add_packet_frame [OF fit(1) a fit(2)] by blast
  have "frames_at (batchBuf b') 0 ps (batchOff b)" using hd by (intro frames_at_cong [of "batchBuf b", OF _ b'(2)] b'(5)) simp_all
  from frames_at_append [OF this b'(6)] have fr: "frames_at (batchBuf b') 0 (ps @ [(ip, port, pl)]) (batchOff b')" by (simp add: b'(3))
  have "batchOff b' \<le> length (ps @ [(ip, port, pl)]) * (18 + MaxMTU)" using hd l(1) by (simp add: b'(3))
  with hd b'(2,4) have "handed MaxMTU (fst (flush elapsed b')) (snd (flush elapsed b')) (ps @ [(ip, port, pl)])"
    by (intro flush_handed fr) simp_all
  with b'(1) show ?thesis by blast
qed

lemma read_pass_handed:
  assumes h: "batch_holds MaxMTU b ps" "MaxMTU < 65536"
    and q: "\<forall>(n, ip, port, pl) \<in> set (readQueue (tuns s ! t)). length (To4 ip) = 4 \<and> uint port < 65536"
  shows "\<exists>s' b' r. read_pass MaxMTU elapsed t (s, b) = Inr ((s', b'), r) \<and>
    handed MaxMTU b' r (ps @ packet_read MaxMTU (length (batchBuf b) - (batchOff b + 18)) (tuns s ! t))"
proof (cases "readQueue (tuns s ! t)")
  case Nil
  then have "read_pass MaxMTU elapsed t (s, b) = (case flush elapsed b of (b', r) \<Rightarrow> Inr ((s, b'), r))"
    using batch_room [OF h(1)] by (simp add: read_pass_def ReadFromWithTimeout_def ReadFrom_def)
  from read_pass_idle [OF h(1) this] Nil show ?thesis by (auto simp: packet_read_def)
next
  case (Cons e qs)
  obtain n ip port pl where e: "e = (n, ip, port, pl)" by (metis prod_cases4)
  let ?room = "length (batchBuf b) - (batchOff b + 18)" let ?s = "upd_tun t (\<lambda>tn. tn\<lparr>readQueue := qs\<rparr>) s"
  define p where "p = take ?room pl"
  note room = batch_room [OF h(1)]
  have fit: "batchOff b + 18 + length p \<le> length (batchBuf b)" using room by (simp add: p_def)
  have rd: "ReadFromWithTimeout ?room t s = (?s, Inr (p, UDPAddr ip (uint port)))"
    using Cons e by (simp add: ReadFromWithTimeout_def ReadFrom_def p_def)
  have pr: "packet_read MaxMTU ?room (tuns s ! t) = (if p = [] \<or> MaxMTU < length p then [] else [(ip, uint port, p)])"
    using Cons e by (simp only: packet_read_def p_def list.case prod.case)
  have a: "length (To4 ip) = 4" "0 \<le> uint port" "uint port < 65536" using q Cons e by auto
  consider "MaxMTU < length p" | "p = []" | "length p \<le> MaxMTU" "p \<noteq> []" by linarith
  then show ?thesis
  proof cases
    case 1
    then show ?thesis using room rd batch_scribbled [OF h(1) fit] by (auto simp: read_pass_def pr handed_def)
  next
    case 2
    then have "read_pass MaxMTU elapsed t (s, b) = (case flush elapsed b of (b', r) \<Rightarrow> Inr ((?s, b'), r))"
      using room rd by (simp add: read_pass_def)
    from read_pass_idle [OF h(1) this] 2 show ?thesis by (auto simp: pr)
  next
    case 3
    from batch_extended [OF h(1) 3(1) h(2) a] obtain b' where "add_packet p ip (uint port) b = Inr b'"
      "handed MaxMTU (fst (flush elapsed b')) (snd (flush elapsed b')) (ps @ [(ip, uint port, p)])" by blast
    then show ?thesis using 3 room rd by (cases "flush elapsed b'") (simp add: read_pass_def pr)
  qed
qed



end
