(* ===== verification/Config_Files.thy ===== *)
theory Config_Files
  imports Route_Setup Client_Library
begin

text \<open>
  The configuration files (\<open>config/config.go\<close>): what a server and a client find in them, their default
  contents, loading, generating and saving, and the check of the node's address from outside. The
  operating system, the random source, the JSON codec, the address checker and the text form of IPv6
  addresses are parameters. The part of the payment package's configuration that the defaults set is
  modelled field by field.
\<close>

section \<open>Contents\<close>

record virtual_config =
  ProxyMaxCapacity :: string
  ProxyMinFee :: string
  ProxyFeePercent :: rat \<comment> \<open>a float64\<close>
  AllowTunneling :: bool

record balance_control =
  DepositWhenAmountLessThan :: string
  DepositUpToAmount :: string
  WithdrawWhenAmountReached :: string

record coin_config =
  coinEnabled :: bool
  VirtualTunnelConfig :: virtual_config
  BalanceControl :: "balance_control option"
  MisbehaviorFine :: string
  ExcessFeeTon :: string
  coinSymbol :: string
  coinDecimals :: nat

record channels_config =
  coinTon :: coin_config
  coinJettons :: "(string, coin_config) gomap"
  coinExtraCurrencies :: "(u32, coin_config) gomap"
  BufferTimeToCommit :: u32
  QuarantineDurationSec :: u32
  ConditionalCloseDurationSec :: u32
  MinSafeVirtualChannelTimeoutSec :: u32

record payments_client_config =
  ADNLServerKey :: bytes
  PaymentsNodeKey :: bytes
  WalletPrivateKey :: bytes
  DBPath :: string
  SecureProofPolicy :: bool
  ChannelsConfig :: channels_config

record payments_config = payments_client_config +
  cfgMinPricePerPacketRoute :: u64
  cfgMinPricePerPacketInOut :: u64

record config =
  TunnelServerKey :: bytes
  TunnelListenAddr :: string
  TunnelThreads :: nat
  NetworkConfigUrl :: string
  ExternalIP :: string
  nodePaymentsEnabled :: bool
  nodePayments :: payments_config

text \<open>The client's file adds to what choosing a route reads of it.\<close>

record client_file = client_config +
  clientTunnelServerKey :: bytes
  clientTunnelThreads :: nat
  NodesPoolConfigPath :: string
  clientPayments :: payments_client_config

definition usdt_master :: string where
  "usdt_master = ''EQCxE6mUtQJKFnGfaROTKOt1lZbDiiX1kCixRv7Nw2Id_sDs''"

text \<open>The two coins of the defaults; \<open>prepare\<close> and \<open>limit\<close> are the deposit limits and \<open>reached\<close> the withdrawal limit.\<close>

definition ton_coin :: "string \<Rightarrow> string \<Rightarrow> string \<Rightarrow> string \<Rightarrow> coin_config" where
  "ton_coin proxyMax prepare limit reached =
     \<lparr>coinEnabled = True,
      VirtualTunnelConfig = \<lparr>ProxyMaxCapacity = proxyMax, ProxyMinFee = ''0'', ProxyFeePercent = 0, AllowTunneling = False\<rparr>,
      BalanceControl = Some \<lparr>DepositWhenAmountLessThan = prepare, DepositUpToAmount = limit, WithdrawWhenAmountReached = reached\<rparr>,
      MisbehaviorFine = ''3'', ExcessFeeTon = ''0.25'', coinSymbol = ''TON'', coinDecimals = 9\<rparr>"

definition usdt_coin :: "string \<Rightarrow> string \<Rightarrow> string \<Rightarrow> coin_config" where
  "usdt_coin prepare limit reached =
     \<lparr>coinEnabled = False,
      VirtualTunnelConfig = \<lparr>ProxyMaxCapacity = ''0'', ProxyMinFee = ''0'', ProxyFeePercent = 0, AllowTunneling = False\<rparr>,
      BalanceControl = Some \<lparr>DepositWhenAmountLessThan = prepare, DepositUpToAmount = limit, WithdrawWhenAmountReached = reached\<rparr>,
      MisbehaviorFine = ''12'', ExcessFeeTon = ''0.35'', coinSymbol = ''USDT'', coinDecimals = 6\<rparr>"

definition default_channels :: "coin_config \<Rightarrow> coin_config \<Rightarrow> channels_config" where
  "default_channels tonCoin usdtCoin =
     \<lparr>coinTon = tonCoin, coinJettons = [(usdt_master, usdtCoin)], coinExtraCurrencies = [],
      BufferTimeToCommit = 3 * 3600, QuarantineDurationSec = 6 * 3600, ConditionalCloseDurationSec = 3 * 3600,
      MinSafeVirtualChannelTimeoutSec = 300\<rparr>"

section \<open>Generated keys\<close>

datatype config_error =
    ErrAbs | ErrCheckDir | ErrStat | ErrGenerateKey | ErrReadFile | ErrNotExist | ErrUnmarshal | ErrMarshal | ErrWriteFile | PanicSeed

text \<open>
  The \<open>i\<close>-th answer of the random source. Both generators draw the wallet key, the payments key, the
  ADNL key, the tunnel key and 32 more bytes that they do not use.
\<close>

record new_keys =
  newWallet :: bytes
  newPayments :: bytes
  newAdnl :: bytes
  newTunnel :: bytes

definition draw_keys :: "(nat \<Rightarrow> bytes option) \<Rightarrow> config_error + new_keys" where
  "draw_keys draw =
     (case (draw 0, draw 1, draw 2, draw 3, draw 4) of
        (Some w, Some p, Some a, Some t, Some _) \<Rightarrow> Inr \<lparr>newWallet = w, newPayments = p, newAdnl = a, newTunnel = t\<rparr>
      | _ \<Rightarrow> Inl ErrGenerateKey)"

definition default_config :: "new_keys \<Rightarrow> nat \<Rightarrow> config" where
  "default_config k numCPU =
     \<lparr>TunnelServerKey = newTunnel k, TunnelListenAddr = ''0.0.0.0:17330'', TunnelThreads = numCPU,
      NetworkConfigUrl = ''https://ton-blockchain.github.io/global.config.json'', ExternalIP = '''', nodePaymentsEnabled = False,
      nodePayments = \<lparr>ADNLServerKey = newAdnl k, PaymentsNodeKey = newPayments k, WalletPrivateKey = newWallet k,
        DBPath = ''./payments-db/'', SecureProofPolicy = False,
        ChannelsConfig = default_channels (ton_coin ''0'' ''0'' ''0'' ''5'') (usdt_coin ''0'' ''0'' ''15''),
        cfgMinPricePerPacketRoute = 0, cfgMinPricePerPacketInOut = 0\<rparr>\<rparr>"

definition GenerateClientConfig :: "(nat \<Rightarrow> bytes option) \<Rightarrow> nat \<Rightarrow> config_error + client_file" where
  "GenerateClientConfig draw numCPU =
     (case draw_keys draw of
        Inl e \<Rightarrow> Inl e
      | Inr k \<Rightarrow> Inr \<lparr>TunnelSectionsNum = 1, PaymentsEnabled = False, clientTunnelServerKey = newTunnel k, clientTunnelThreads = numCPU,
          NodesPoolConfigPath = '''',
          clientPayments = \<lparr>ADNLServerKey = newAdnl k, PaymentsNodeKey = newPayments k, WalletPrivateKey = newWallet k,
            DBPath = ''./payments-db/'', SecureProofPolicy = False,
            ChannelsConfig = default_channels (ton_coin '''' ''1'' ''3'' ''0'') (usdt_coin ''5'' ''10'' ''0'')\<rparr>\<rparr>)"

section \<open>IP addresses in text\<close>

definition digit_char :: "nat \<Rightarrow> char" where
  "digit_char n = char_of (48 + n)"

definition digit_of :: "char \<Rightarrow> nat option" where
  "digit_of c = (if 48 \<le> (of_char c :: nat) \<and> (of_char c :: nat) \<le> 57 then Some (of_char c - 48) else None)"

definition show_byte :: "byte \<Rightarrow> string" where
  "show_byte b = (let n = unat b
     in (if 100 \<le> n then [digit_char (n div 100)] else []) @ (if 10 \<le> n then [digit_char (n div 10 mod 10)] else []) @ [digit_char (n mod 10)])"

definition IP_String :: "bytes \<Rightarrow> string" where
  "IP_String ip = concat (map (\<lambda>b. show_byte b @ ''.'') (butlast ip)) @ show_byte (last ip)"

text \<open>The parser of dotted addresses: digits of the current field, its value and the fields before it.\<close>

fun parseIPv4 :: "nat \<Rightarrow> nat \<Rightarrow> bytes \<Rightarrow> string \<Rightarrow> bytes option" where
  "parseIPv4 digLen acc fs [] = (if length fs = 3 then Some (fs @ [of_nat acc]) else None)"
| "parseIPv4 digLen acc fs (c # cs) =
     (case digit_of c of
        Some d \<Rightarrow> if digLen = 1 \<and> acc = 0 then None
                  else if 255 < acc * 10 + d then None
                  else parseIPv4 (digLen + 1) (acc * 10 + d) fs cs
      | None \<Rightarrow>
          if c \<noteq> CHR ''.'' then None
          else if digLen = 0 \<or> cs = [] \<or> length fs = 3 then None
          else parseIPv4 0 0 (fs @ [of_nat acc]) cs)"

text \<open>The first dot or colon tells the kind of address; the result has 16 bytes.\<close>

definition ParseIP :: "(string \<Rightarrow> bytes option) \<Rightarrow> string \<Rightarrow> bytes option" where
  "ParseIP parseIPv6 s =
     (case find (\<lambda>c. c = CHR ''.'' \<or> c = CHR '':'') s of
        None \<Rightarrow> None
      | Some c \<Rightarrow> if c = CHR ''.'' then map_option (\<lambda>ip. replicate 10 0 @ [0xFF, 0xFF] @ ip) (parseIPv4 0 0 [] s) else parseIPv6 s)"

definition checkIPAddress :: "(string \<Rightarrow> bytes option) \<Rightarrow> string \<Rightarrow> string" where
  "checkIPAddress parseIPv6 ip =
     (case ParseIP parseIPv6 ip of
        None \<Rightarrow> ''''
      | Some p \<Rightarrow> if To4 p = [] then '''' else IP_String (To4 p))"

section \<open>Seen from outside\<close>

text \<open>
  What happens on the listening side within five seconds, and on the way to the checker. On a timeout
  the address has not been set.
\<close>

datatype incoming = ListenFailed | AcceptFailed | ReadFailed | Told string | NoRequest

record port_checker =
  LookupIP :: "bytes list option"
  Dial_ok :: bool
  Write_ok :: bool
  incoming_call :: incoming
  IPv6_text :: "string \<Rightarrow> bytes option"

definition checkCanSeed :: "port_checker \<Rightarrow> string \<times> bool" where
  "checkCanSeed P =
     (case LookupIP P of
        None \<Rightarrow> ('''', False)
      | Some ips \<Rightarrow>
          if ips = [] \<or> \<not> Dial_ok P \<or> \<not> Write_ok P then ('''', False)
          else case incoming_call P of
                 Told s \<Rightarrow> let ip = checkIPAddress (IPv6_text P) (take 256 s) in (ip, ip \<noteq> '''')
               | _ \<Rightarrow> ('''', False))"

section \<open>Files\<close>

record disk =
  files :: "(string, bytes) gomap"
  dirs :: "string list"

datatype write_outcome = Written | NotOpened | Partial nat

datatype stat_result = StatOk | StatMissing | StatFailed

record os =
  Abs :: "string \<Rightarrow> string option"
  Dir :: "string \<Rightarrow> string"
  stat_fails :: "string \<Rightarrow> bool"
  MkdirAll_ok :: "string \<Rightarrow> bool"
  read_fails :: "string \<Rightarrow> bool"
  writing :: "string \<Rightarrow> bytes \<Rightarrow> write_outcome"

definition Stat :: "os \<Rightarrow> string \<Rightarrow> disk \<Rightarrow> stat_result" where
  "Stat Sys p d = (if stat_fails Sys p then StatFailed
     else if p \<in> set (dirs d) \<or> map_of (files d) p \<noteq> None then StatOk else StatMissing)"

definition ensure_dir :: "os \<Rightarrow> string \<Rightarrow> disk \<Rightarrow> disk \<times> config_error option" where
  "ensure_dir Sys dir d =
     (case Stat Sys dir d of
        StatOk \<Rightarrow> (d, None)
      | StatMissing \<Rightarrow> if MkdirAll_ok Sys dir then (d\<lparr>dirs := dir # dirs d\<rparr>, None) else (d, Some ErrCheckDir)
      | StatFailed \<Rightarrow> (d, Some ErrCheckDir))"

definition ReadFile :: "os \<Rightarrow> string \<Rightarrow> disk \<Rightarrow> config_error + bytes" where
  "ReadFile Sys p d = (if read_fails Sys p then Inl ErrReadFile
     else case map_of (files d) p of None \<Rightarrow> Inl ErrNotExist | Some data \<Rightarrow> Inr data)"

text \<open>Writing is not atomic: a failure may leave a part of the data in the file.\<close>

definition WriteFile :: "os \<Rightarrow> string \<Rightarrow> bytes \<Rightarrow> disk \<Rightarrow> disk \<times> config_error option" where
  "WriteFile Sys p data d =
     (case writing Sys p data of
        Written \<Rightarrow> (d\<lparr>files := mput p data (files d)\<rparr>, None)
      | NotOpened \<Rightarrow> (d, Some ErrWriteFile)
      | Partial n \<Rightarrow> (d\<lparr>files := mput p (take n data) (files d)\<rparr>, Some ErrWriteFile))"

definition SaveConfig :: "('c \<Rightarrow> bytes option) \<Rightarrow> os \<Rightarrow> 'c \<Rightarrow> string \<Rightarrow> disk \<Rightarrow> disk \<times> config_error option" where
  "SaveConfig marshal Sys cfg path d =
     (case ensure_dir Sys (Dir Sys path) d of
        (d1, Some e) \<Rightarrow> (d1, Some e)
      | (d1, None) \<Rightarrow>
          (case marshal cfg of None \<Rightarrow> (d1, Some ErrMarshal) | Some data \<Rightarrow> WriteFile Sys path data d1))"

record 'c json =
  MarshalIndent :: "'c \<Rightarrow> bytes option"
  Unmarshal :: "bytes \<Rightarrow> 'c option"

definition generate_config ::
  "config json \<Rightarrow> os \<Rightarrow> (nat \<Rightarrow> bytes option) \<Rightarrow> port_checker \<Rightarrow> nat \<Rightarrow> string \<Rightarrow> disk \<Rightarrow> disk \<times> (config_error + config)" where
  "generate_config J Sys draw P numCPU path d =
     (case draw_keys draw of
        Inl e \<Rightarrow> (d, Inl e)
      | Inr k \<Rightarrow>
          (case checkCanSeed P of (ip, seed) \<Rightarrow>
             let cfg = (if seed then (default_config k numCPU)\<lparr>ExternalIP := ip\<rparr> else default_config k numCPU)
             in case SaveConfig (MarshalIndent J) Sys cfg path d of (d2, Some e) \<Rightarrow> (d2, Inl e) | (d2, None) \<Rightarrow> (d2, Inr cfg)))"

definition LoadConfig ::
  "config json \<Rightarrow> os \<Rightarrow> (nat \<Rightarrow> bytes option) \<Rightarrow> port_checker \<Rightarrow> nat \<Rightarrow> string \<Rightarrow> disk \<Rightarrow> disk \<times> (config_error + config)" where
  "LoadConfig J Sys draw P numCPU path0 d =
     (case Abs Sys path0 of
        None \<Rightarrow> (d, Inl ErrAbs)
      | Some path \<Rightarrow>
          (case ensure_dir Sys (Dir Sys path) d of
             (d1, Some e) \<Rightarrow> (d1, Inl e)
           | (d1, None) \<Rightarrow>
               (case Stat Sys path d1 of
                  StatMissing \<Rightarrow> generate_config J Sys draw P numCPU path d1
                | StatOk \<Rightarrow> (d1, case ReadFile Sys path d1 of
                                  Inl e \<Rightarrow> Inl e
                                | Inr data \<Rightarrow> (case Unmarshal J data of None \<Rightarrow> Inl ErrUnmarshal | Some cfg \<Rightarrow> Inr cfg))
                | StatFailed \<Rightarrow> (d1, Inl ErrStat))))"

section \<open>Addresses that are read back\<close>

lemma digit_of_char [simp]: "n < 10 \<Longrightarrow> digit_of (digit_char n) = Some n"
  by (simp add: digit_of_def digit_char_def)

lemma digit_no_mark: "n < 10 \<Longrightarrow> digit_char n \<noteq> CHR ''.'' \<and> digit_char n \<noteq> CHR '':''"
proof -
  assume "n < 10"
  then have "digit_of (digit_char n) \<noteq> None" by simp
  moreover have "digit_of (CHR ''.'') = None" "digit_of (CHR '':'') = None" by (simp_all add: digit_of_def)
  ultimately show ?thesis by auto
qed

lemma parse_show_byte:
  "parseIPv4 0 0 fs (show_byte b @ rest) = parseIPv4 (length (show_byte b)) (unat b) fs rest"
proof -
  have "unat b < 2 ^ LENGTH(8)" by (rule unsigned_less)
  then have n: "unat b < 256" by simp
  define h t u where "h = unat b div 100" and "t = unat b div 10 mod 10" and "u = unat b mod 10"
  have "unat b mod (10 * 10) = 10 * t + u" unfolding t_def u_def by (rule mod_mult2_eq)
  then have e: "unat b = 100 * h + 10 * t + u" using div_mult_mod_eq [of "unat b" 100] unfolding h_def by simp
  have l: "h < 10" "t < 10" "u < 10" using n by (simp_all add: h_def t_def u_def)
  have q: "h = 0 \<Longrightarrow> \<not> 100 \<le> unat b" "0 < h \<Longrightarrow> 100 \<le> unat b" "10 \<le> unat b \<longleftrightarrow> 0 < h \<or> 0 < t"
    using e l by auto
  show ?thesis
    using e l q n unfolding show_byte_def Let_def h_def [symmetric] t_def [symmetric] u_def [symmetric]
    by (cases "h = 0"; cases "t = 0") (auto simp: algebra_simps)
qed

lemma show_byte_nonempty [simp]: "show_byte b \<noteq> []" "0 < length (show_byte b)"
  by (simp_all add: show_byte_def Let_def)

lemma show_byte_digits: "c \<in> set (show_byte b) \<Longrightarrow> c \<noteq> CHR ''.'' \<and> c \<noteq> CHR '':''"
proof -
  have "unat b < 2 ^ LENGTH(8)" by (rule unsigned_less)
  then have "unat b div 100 < 10" by simp
  moreover assume "c \<in> set (show_byte b)"
  ultimately show ?thesis
    using digit_no_mark [of "unat b div 100"] digit_no_mark [of "unat b div 10 mod 10"] digit_no_mark [of "unat b mod 10"]
    by (auto simp: show_byte_def Let_def split: if_splits)
qed

lemma parse_field:
  assumes "rest \<noteq> []" "length fs \<noteq> 3"
  shows "parseIPv4 0 0 fs (show_byte b @ CHR ''.'' # rest) = parseIPv4 0 0 (fs @ [b]) rest"
  using assms by (simp add: parse_show_byte digit_of_def)

lemma length_4: "length ip = 4 \<Longrightarrow> \<exists>a b c d. ip = [a, b, c, d]"
  by (auto simp: length_Suc_conv eval_nat_numeral)

lemma IP_String_four: "IP_String [a, b, c, d] = show_byte a @ CHR ''.'' # show_byte b @ CHR ''.'' # show_byte c @ CHR ''.'' # show_byte d"
  by (simp add: IP_String_def)

lemma parse_IP_String:
  assumes "length ip = 4"
  shows "parseIPv4 0 0 [] (IP_String ip) = Some ip"
proof -
  from length_4 [OF assms] obtain a b c d where ip: "ip = [a, b, c, d]" by blast
  show ?thesis
    unfolding ip IP_String_four using parse_show_byte [of "[a, b, c]" d "[]"] by (simp add: parse_field)
qed

lemma ParseIP_String:
  assumes "length ip = 4"
  shows "ParseIP p6 (IP_String ip) = Some (replicate 10 0 @ [0xFF, 0xFF] @ ip)"
proof -
  from length_4 [OF assms] obtain a b c d where ip: "ip = [a, b, c, d]" by blast
  have "find (\<lambda>c. c = CHR ''.'' \<or> c = CHR '':'') (xs @ CHR ''.'' # ys) = Some (CHR ''.'')" if "\<forall>x \<in> set xs. x \<noteq> CHR ''.'' \<and> x \<noteq> CHR '':''" for xs ys
    using that by (induction xs) auto
  from this [of "show_byte a"] show_byte_digits have "find (\<lambda>c. c = CHR ''.'' \<or> c = CHR '':'') (IP_String ip) = Some (CHR ''.'')"
    unfolding ip IP_String_four by blast
  then show ?thesis using parse_IP_String [OF assms] by (simp add: ParseIP_def)
qed

lemma To4_length: "To4 ip = [] \<or> length (To4 ip) = 4"
  by (simp add: To4_def)

text \<open>What the check lets through is the text of an IPv4 address.\<close>

lemma checkIPAddress_IPv4:
  assumes "checkIPAddress p6 s \<noteq> ''''"
  shows "\<exists>ip. length ip = 4 \<and> checkIPAddress p6 s = IP_String ip"
  using assms To4_length unfolding checkIPAddress_def by (fastforce split: option.splits if_splits)

lemma checkCanSeed_IPv4:
  assumes "checkCanSeed P = (ip, True)"
  shows "\<exists>b. length b = 4 \<and> ip = IP_String b"
proof -
  from assms obtain s where "ip = checkIPAddress (IPv6_text P) s" "ip \<noteq> ''''"
    by (auto simp: checkCanSeed_def Let_def split: option.splits if_splits incoming.splits)
  with checkIPAddress_IPv4 show ?thesis by metis
qed

section \<open>Loading again\<close>

lemma ensure_dir_exists:
  assumes "ensure_dir Sys dir d = (d1, None)"
  shows "Stat Sys dir d1 = StatOk" "files d1 = files d"
  using assms by (auto simp: ensure_dir_def Stat_def split: stat_result.splits if_splits)

lemma ensure_dir_again:
  assumes "ensure_dir Sys dir d = (d1, None)" "set (dirs d1) \<subseteq> set (dirs d2)" "set (map fst (files d1)) \<subseteq> set (map fst (files d2))"
  shows "ensure_dir Sys dir d2 = (d2, None)"
proof -
  have "Stat Sys dir d2 = StatOk"
    using ensure_dir_exists(1) [OF assms(1)] assms(2,3) by (auto simp: Stat_def map_of_eq_None_iff split: if_splits)
  then show ?thesis by (simp add: ensure_dir_def)
qed

text \<open>The codec reads back what it wrote, and does not take a part of it for the whole.\<close>

definition json_law :: "'c json \<Rightarrow> bool" where
  "json_law J \<longleftrightarrow> (\<forall>c data. MarshalIndent J c = Some data \<longrightarrow> Unmarshal J data = Some c)"

definition json_whole :: "'c json \<Rightarrow> bool" where
  "json_whole J \<longleftrightarrow> (\<forall>c data. MarshalIndent J c = Some data \<longrightarrow> data \<noteq> [] \<and> (\<forall>n < length data. Unmarshal J (take n data) = None))"

text \<open>A second start, with its own random source and its own answers from outside.\<close>

lemma LoadConfig_existing:
  assumes "Abs Sys path0 = Some path" "ensure_dir Sys (Dir Sys path) d = (d, None)" "\<not> stat_fails Sys path"
    and "\<not> read_fails Sys path" "map_of (files d) path = Some data"
  shows "LoadConfig J Sys draw P numCPU path0 d = (d, case Unmarshal J data of None \<Rightarrow> Inl ErrUnmarshal | Some cfg \<Rightarrow> Inr cfg)"
  using assms by (simp add: LoadConfig_def Stat_def ReadFile_def)

lemma LoadConfig_new:
  assumes "LoadConfig J Sys draw P numCPU path0 d = (d', res)" "Abs Sys path0 = Some path"
    and "ensure_dir Sys (Dir Sys path) d = (d1, None)" "Stat Sys path d1 = StatMissing"
  shows "res = Inl ErrGenerateKey \<and> d' = d1 \<or> (\<exists>k cfg. draw_keys draw = Inr k \<and> cfg\<lparr>ExternalIP := ''''\<rparr> = default_config k numCPU \<and>
    (ExternalIP cfg \<noteq> '''' \<longrightarrow> checkCanSeed P = (ExternalIP cfg, True)) \<and>
    (case MarshalIndent J cfg of
       None \<Rightarrow> d' = d1 \<and> res = Inl ErrMarshal
     | Some data \<Rightarrow> (case WriteFile Sys path data d1 of (d2, e) \<Rightarrow> d' = d2 \<and> res = (case e of None \<Rightarrow> Inr cfg | Some x \<Rightarrow> Inl x))))"
proof (cases "draw_keys draw")
  case (Inl e)
  then have "e = ErrGenerateKey" by (auto simp: draw_keys_def split: option.splits)
  with Inl assms show ?thesis by (simp add: LoadConfig_def generate_config_def)
next
  case (Inr k)
  obtain ip seed where c: "checkCanSeed P = (ip, seed)" by fastforce
  define cfg where "cfg = (if seed then (default_config k numCPU)\<lparr>ExternalIP := ip\<rparr> else default_config k numCPU)"
  have e: "ensure_dir Sys (Dir Sys path) d1 = (d1, None)" by (rule ensure_dir_again [OF assms(3)]) auto
  have "SaveConfig (MarshalIndent J) Sys cfg path d1 = (case MarshalIndent J cfg of None \<Rightarrow> (d1, Some ErrMarshal) | Some data \<Rightarrow> WriteFile Sys path data d1)"
    by (simp add: SaveConfig_def e)
  then have "case MarshalIndent J cfg of None \<Rightarrow> d' = d1 \<and> res = Inl ErrMarshal
      | Some data \<Rightarrow> (case WriteFile Sys path data d1 of (d2, e) \<Rightarrow> d' = d2 \<and> res = (case e of None \<Rightarrow> Inr cfg | Some x \<Rightarrow> Inl x))"
    using assms Inr c by (auto simp: LoadConfig_def generate_config_def Let_def simp flip: cfg_def split: option.splits prod.splits)
  moreover have "cfg\<lparr>ExternalIP := ''''\<rparr> = default_config k numCPU" "ExternalIP cfg \<noteq> '''' \<longrightarrow> checkCanSeed P = (ExternalIP cfg, True)"
    using c by (simp_all add: cfg_def default_config_def)
  ultimately show ?thesis using Inr by blast
qed

text \<open>
  A configuration is loaded as it was saved: whatever \<open>LoadConfig\<close> returned, generated or read,
  every later call returns the same configuration and leaves the files as they are, whatever its
  random source and the address checker say.
\<close>

lemma config_reloaded:
  assumes "json_law J" "LoadConfig J Sys draw P numCPU path0 d = (d', Inr cfg)" "Abs Sys path0 = Some path" "\<not> read_fails Sys path"
  shows "LoadConfig J Sys draw' P' numCPU' path0 d' = (d', Inr cfg)"
proof -
  obtain d1 e where en: "ensure_dir Sys (Dir Sys path) d = (d1, e)" by fastforce
  with assms(2,3) have e: "e = None" by (cases e) (auto simp: LoadConfig_def)
  note en = en [unfolded e]
  show ?thesis
  proof (cases "Stat Sys path d1")
    case StatMissing
    from LoadConfig_new [OF assms(2,3) en StatMissing] obtain data where m: "MarshalIndent J cfg = Some data" and w: "WriteFile Sys path data d1 = (d', None)"
      by (auto split: option.splits prod.splits)
    then have d': "d' = d1\<lparr>files := mput path data (files d1)\<rparr>" by (auto simp: WriteFile_def split: write_outcome.splits)
    have "ensure_dir Sys (Dir Sys path) d' = (d', None)"
      by (rule ensure_dir_again [OF en]) (auto simp: d' dom_update simp flip: dom_map_of_conv_image_fst)
    moreover have "\<not> stat_fails Sys path" using StatMissing by (simp add: Stat_def split: if_splits)
    moreover have "map_of (files d') path = Some data" by (simp add: d' update_conv)
    ultimately show ?thesis using LoadConfig_existing assms(1,3,4) m by (simp add: json_law_def)
  next
    case StatOk
    then have s: "\<not> stat_fails Sys path" by (simp add: Stat_def split: if_splits)
    have d': "d' = d1" using assms(2,3) en StatOk by (simp add: LoadConfig_def)
    obtain data where "ReadFile Sys path d1 = Inr data" "Unmarshal J data = Some cfg"
      using assms(2,3) en StatOk by (auto simp: LoadConfig_def split: sum.splits option.splits)
    moreover have "ensure_dir Sys (Dir Sys path) d' = (d', None)" by (rule ensure_dir_again [OF en]) (auto simp: d')
    ultimately show ?thesis using LoadConfig_existing [OF assms(3) _ s assms(4), of d'] d' by (simp add: ReadFile_def split: if_splits option.splits)
  next
    case StatFailed
    then show ?thesis using assms(2,3) en by (simp add: LoadConfig_def)
  qed
qed

text \<open>
  A configuration file whose first writing is cut short blocks the node: \<open>LoadConfig\<close> reports the
  failed write, and every later call, even when files can be written again, finds a file it cannot
  parse and reports that instead of generating a new configuration.
\<close>

lemma partial_config_blocks:
  assumes "json_whole J" "LoadConfig J Sys draw P numCPU path0 d = (d', Inl ErrWriteFile)" "Abs Sys path0 = Some path"
    and full: "\<And>data. data \<noteq> [] \<Longrightarrow> \<exists>n < length data. writing Sys path data = Partial n"
    and "\<not> read_fails Sys path"
  shows "LoadConfig J (Sys\<lparr>writing := w\<rparr>) draw' P' numCPU' path0 d' = (d', Inl ErrUnmarshal)"
proof -
  let ?S = "Sys\<lparr>writing := w\<rparr>"
  obtain d1 e where en: "ensure_dir Sys (Dir Sys path) d = (d1, e)" by fastforce
  have "e = None" using en assms(2,3) by (cases e) (auto simp: LoadConfig_def ensure_dir_def split: stat_result.splits if_splits)
  note en = en [unfolded this]
  have miss: "Stat Sys path d1 = StatMissing"
    using assms(2,3,5) en by (auto simp: LoadConfig_def ReadFile_def split: stat_result.splits option.splits if_splits)
  from LoadConfig_new [OF assms(2,3) en miss] obtain cfg data x where m: "MarshalIndent J cfg = Some data" and w: "WriteFile Sys path data d1 = (d', Some x)"
    by (auto split: option.splits prod.splits)
  from m assms(1) have j: "data \<noteq> []" "\<And>n. n < length data \<Longrightarrow> Unmarshal J (take n data) = None" by (auto simp: json_whole_def)
  from full [OF j(1)] obtain n where n: "n < length data" "writing Sys path data = Partial n" by blast
  with w have d': "d' = d1\<lparr>files := mput path (take n data) (files d1)\<rparr>" by (simp add: WriteFile_def)
  have "ensure_dir Sys (Dir Sys path) d' = (d', None)"
    by (rule ensure_dir_again [OF en]) (auto simp: d' dom_update simp flip: dom_map_of_conv_image_fst)
  moreover have "ensure_dir ?S (Dir ?S path) d' = ensure_dir Sys (Dir Sys path) d'" by (simp add: ensure_dir_def Stat_def)
  ultimately have "ensure_dir ?S (Dir ?S path) d' = (d', None)" by (simp only:)
  moreover have "\<not> stat_fails ?S path" using miss by (simp add: Stat_def split: if_splits)
  moreover have "map_of (files d') path = Some (take n data)" by (simp add: d' update_conv)
  ultimately show ?thesis using LoadConfig_existing [of ?S path0 path d' "take n data"] assms(3,5) j(2) [OF n(1)] by simp
qed

section \<open>An instance\<close>

definition demo_draw :: "nat \<Rightarrow> bytes option" where
  "demo_draw i = Some (replicate 32 (of_nat i))"

definition demo_checker :: port_checker where
  "demo_checker = \<lparr>LookupIP = Some [[1, 1, 1, 1]], Dial_ok = True, Write_ok = True, incoming_call = Told ''10.0.0.7'', IPv6_text = (\<lambda>_. None)\<rparr>"

definition demo_os :: os where
  "demo_os = \<lparr>Abs = Some, Dir = (\<lambda>_. ''/node''), stat_fails = (\<lambda>_. False), MkdirAll_ok = (\<lambda>_. True), read_fails = (\<lambda>_. False),
     writing = (\<lambda>_ _. Written)\<rparr>"

definition full_os :: os where
  "full_os = demo_os\<lparr>writing := (\<lambda>_ _. Partial 0)\<rparr>"

definition demo_keys :: new_keys where
  "demo_keys = \<lparr>newWallet = replicate 32 0, newPayments = replicate 32 1, newAdnl = replicate 32 2, newTunnel = replicate 32 3\<rparr>"

definition demo_config :: config where
  "demo_config = (default_config demo_keys 4)\<lparr>ExternalIP := ''10.0.0.7''\<rparr>"

definition demo_json :: "config json" where
  "demo_json = \<lparr>MarshalIndent = (\<lambda>c. if c = demo_config then Some [1, 2] else None),
     Unmarshal = (\<lambda>data. if data = [1, 2] then Some demo_config else None)\<rparr>"

definition no_files :: disk where
  "no_files = \<lparr>files = [], dirs = []\<rparr>"

lemma demo_json_laws: "json_law demo_json" "json_whole demo_json"
  by (auto simp: json_law_def json_whole_def demo_json_def less_Suc_eq)

lemma demo_marshal: "MarshalIndent demo_json demo_config = Some [1, 2]"
  by (simp add: demo_json_def)

lemma demo_seen: "checkCanSeed demo_checker = (''10.0.0.7'', True)"
  by code_simp

lemma demo_generated: "generate_config demo_json S demo_draw demo_checker 4 p d =
    (case SaveConfig (MarshalIndent demo_json) S demo_config p d of (d2, Some e) \<Rightarrow> (d2, Inl e) | (d2, None) \<Rightarrow> (d2, Inr demo_config))"
proof -
  have "draw_keys demo_draw = Inr demo_keys" by (simp add: draw_keys_def demo_draw_def demo_keys_def)
  then show ?thesis by (simp add: generate_config_def demo_seen flip: demo_config_def)
qed

lemma demo_load:
  "\<exists>d'. LoadConfig demo_json demo_os demo_draw demo_checker 4 ''/node/config.json'' no_files = (d', Inr demo_config)"
  "\<exists>d'. LoadConfig demo_json full_os demo_draw demo_checker 4 ''/node/config.json'' no_files = (d', Inl ErrWriteFile)"
  by (simp_all add: LoadConfig_def demo_generated SaveConfig_def WriteFile_def ensure_dir_def Stat_def full_os_def demo_os_def no_files_def demo_marshal)

lemma partial_config_blocks_witness:
  "\<exists>d'. LoadConfig demo_json full_os demo_draw demo_checker 4 ''/node/config.json'' no_files = (d', Inl ErrWriteFile) \<and>
     LoadConfig demo_json (full_os\<lparr>writing := (\<lambda>_ _. Written)\<rparr>) demo_draw demo_checker 4 ''/node/config.json'' d' = (d', Inl ErrUnmarshal)"
proof -
  from demo_load(2) obtain d' where l: "LoadConfig demo_json full_os demo_draw demo_checker 4 ''/node/config.json'' no_files = (d', Inl ErrWriteFile)" by blast
  have a: "Abs full_os ''/node/config.json'' = Some ''/node/config.json''" "\<not> read_fails full_os ''/node/config.json''" by (simp_all add: full_os_def demo_os_def)
  have "\<exists>n < length data. writing full_os ''/node/config.json'' data = Partial n" if "data \<noteq> []" for data
    using that by (simp add: full_os_def)
  from partial_config_blocks [OF demo_json_laws(2) l a(1) this a(2)] l show ?thesis by blast
qed

end
