(* ===== verification/Tunnel_Runner.thy ===== *)
theory Tunnel_Runner
  imports Client_Safety
begin

text \<open>
  How a client starts, supervises and leaves its tunnel: \<open>RunTunnel\<close>, \<open>WaitForInit\<close> and
  \<open>preparePayerPayments\<close> of \<open>tunnel/setup.go\<close> and \<open>tunnel/regularOutTunnel.go\<close>. The start-up is a sequence
  of stages with deferred releases; the supervising loop is a process that runs beside the client's
  gateway and tunnels.
\<close>

section \<open>Events\<close>

datatype startup_error =
    ErrDhtKey | ErrTunKey | ErrBindListener | ErrStartGateway | ErrStartDhtGateway | ErrDhtClient | ErrLiteservers
  | ErrPayGateway | ErrLevelDb | ErrMigrations | ErrBlockOffset | ErrScanner | ErrLoadChannels | ErrWallet | ErrPayService

datatype run_event =
    MsgEvent string
  | UpdatedEvent ptr bytes u16
  | ConfigurationErrorEvent go_error
  | StoppedEvent
  | StartFailed startup_error
  | PoolRejected go_error
  | RouteFailed go_error

section \<open>Resources of the start-up\<close>

text \<open>
  What the code opens and releases again with \<open>defer\<close>. \<open>CloserContext\<close> is the context every background
  task watches.
\<close>

datatype resource =
    CloserContext | Listener | NetReader | AdnlGateway | DhtGateway | DhtClient | TunnelGateway
  | PayGateway | PayDb | PayTransport | PayScanner | PayService

datatype run_action = Opened resource | Closed resource | Sent run_event | Watched bytes

text \<open>
  A stage: whether its call succeeds, the error it reports otherwise, what it does, and what it
  leaves to be released. A failing stage stops the sequence; what was opened is returned in the order
  of opening.
\<close>

record stage =
  stOk :: bool
  stError :: startup_error
  stDoes :: "run_action list"
  stDefers :: "resource list"

fun run_stages :: "stage list \<Rightarrow> run_action list \<times> resource list \<times> startup_error option" where
  "run_stages [] = ([], [], None)"
| "run_stages (st # sts) =
     (if stOk st
      then (case run_stages sts of (acts, opened, e) \<Rightarrow> (stDoes st @ map Opened (stDefers st) @ acts, stDefers st @ opened, e))
      else ([], [], Some (stError st)))"

section \<open>The payment node of a client\<close>

datatype block_offset = OffsetError | OffsetMissing | OffsetAt u32

text \<open>
  The answers of the payment packages: whether the database is fresh, the offset of the last scanned
  block, and the stored channels with the mark of the inactive ones.
\<close>

record pay_startup =
  pay_gateway_ok :: bool
  level_db :: "bool option"
  migration_version_ok :: bool
  migrations_ok :: bool
  GetBlockOffset :: block_offset
  scanner_ok :: "u32 \<Rightarrow> bool"
  stored_channels :: "(bytes \<times> bool) list option"
  wallet_ok :: bool
  service_ok :: bool

definition scan_from :: "pay_startup \<Rightarrow> u32" where
  "scan_from A = (case GetBlockOffset A of OffsetAt n \<Rightarrow> n | _ \<Rightarrow> 0)"

definition watch_channels :: "pay_startup \<Rightarrow> run_action list" where
  "watch_channels A = (case stored_channels A of None \<Rightarrow> [] | Some cs \<Rightarrow> map (\<lambda>(a, _). Watched a) (filter (\<lambda>(_, inactive). \<not> inactive) cs))"

definition payer_stages :: "pay_startup \<Rightarrow> stage list" where
  "payer_stages A =
    [\<lparr>stOk = pay_gateway_ok A, stError = ErrPayGateway, stDoes = [], stDefers = [PayGateway]\<rparr>,
     \<lparr>stOk = level_db A \<noteq> None, stError = ErrLevelDb, stDoes = [], stDefers = [PayDb]\<rparr>,
     \<lparr>stOk = (if level_db A = Some True then migration_version_ok A else migrations_ok A), stError = ErrMigrations, stDoes = [], stDefers = []\<rparr>,
     \<lparr>stOk = True, stError = ErrBlockOffset, stDoes = [], stDefers = [PayTransport]\<rparr>,
     \<lparr>stOk = GetBlockOffset A \<noteq> OffsetError, stError = ErrBlockOffset, stDoes = [], stDefers = []\<rparr>,
     \<lparr>stOk = scanner_ok A (scan_from A), stError = ErrScanner, stDoes = [], stDefers = [PayScanner]\<rparr>,
     \<lparr>stOk = stored_channels A \<noteq> None, stError = ErrLoadChannels, stDoes = watch_channels A, stDefers = []\<rparr>,
     \<lparr>stOk = wallet_ok A, stError = ErrWallet, stDoes = [], stDefers = []\<rparr>,
     \<lparr>stOk = service_ok A, stError = ErrPayService, stDoes = [], stDefers = [PayService]\<rparr>]"

text \<open>
  At the end the deferred calls of \<open>onEnd\<close> run from the last to the first. After a failure each
  releases its resource at once; after a success each puts it in front of \<open>onCloseExec\<close>.
\<close>

definition preparePayerPayments :: "pay_startup \<Rightarrow> run_action list \<times> (startup_error + resource list)" where
  "preparePayerPayments A =
     (case run_stages (payer_stages A) of
        (acts, opened, Some e) \<Rightarrow> (acts @ map Closed (rev opened), Inl e)
      | (acts, opened, None) \<Rightarrow> (acts, Inr (fold (#) (rev opened) [])))"

section \<open>Start and end of RunTunnel\<close>

record run_host =
  dht_key_ok :: bool
  tun_key_ok :: bool
  listener_ok :: bool
  gateway_ok :: bool
  dht_gateway_ok :: bool
  dht_client_ok :: bool
  liteservers_ok :: bool
  payments :: pay_startup

definition start_stages :: "run_host \<Rightarrow> stage list" where
  "start_stages A =
    [\<lparr>stOk = dht_key_ok A, stError = ErrDhtKey, stDoes = [], stDefers = []\<rparr>,
     \<lparr>stOk = tun_key_ok A, stError = ErrTunKey, stDoes = [], stDefers = []\<rparr>,
     \<lparr>stOk = listener_ok A, stError = ErrBindListener, stDoes = [], stDefers = [Listener]\<rparr>,
     \<lparr>stOk = True, stError = ErrBindListener, stDoes = [], stDefers = [NetReader]\<rparr>,
     \<lparr>stOk = gateway_ok A, stError = ErrStartGateway, stDoes = [], stDefers = [AdnlGateway]\<rparr>,
     \<lparr>stOk = dht_gateway_ok A, stError = ErrStartDhtGateway, stDoes = [], stDefers = [DhtGateway]\<rparr>,
     \<lparr>stOk = dht_client_ok A, stError = ErrDhtClient, stDoes = [], stDefers = [DhtClient]\<rparr>]"

text \<open>
  The start-up: its actions, the deferred releases as blocks (one call of \<open>defer\<close> each) in the order
  of their \<open>defer\<close> statements, and the nodes to choose routes from when it succeeds.
\<close>

definition RunTunnel_start ::
  "run_host \<Rightarrow> client_config \<Rightarrow> tunnel_route_section list \<Rightarrow> run_action list \<times> resource list list \<times> tunnel_route_section list option" where
  "RunTunnel_start A cfg pool =
     (case usable_nodes cfg pool of
        Inl e \<Rightarrow> ([Opened CloserContext, Sent (PoolRejected e)], [[CloserContext]], None)
      | Inr nodes \<Rightarrow>
          (case run_stages (start_stages A) of
             (acts, opened, e) \<Rightarrow>
               let acts0 = Opened CloserContext # acts; blocks = [CloserContext] # map (\<lambda>r. [r]) opened
               in case e of
                    Some x \<Rightarrow> (acts0 @ [Sent (StartFailed x)], blocks, None)
                  | None \<Rightarrow>
                      if \<not> PaymentsEnabled cfg then (acts0 @ [Opened TunnelGateway], blocks @ [[TunnelGateway]], Some nodes)
                      else if \<not> liteservers_ok A then (acts0 @ [Sent (StartFailed ErrLiteservers)], blocks, None)
                      else let acts1 = acts0 @ [Sent (MsgEvent ''Preparing tunnel payments...'')]
                           in case preparePayerPayments (payments A) of
                                (pacts, Inl x) \<Rightarrow> (acts1 @ pacts @ [Sent (StartFailed x)], blocks, None)
                              | (pacts, Inr onCloseExec) \<Rightarrow>
                                  (acts1 @ pacts @ [Opened TunnelGateway], blocks @ [onCloseExec, [TunnelGateway]], Some nodes)))"

text \<open>The deferred calls run in reverse; the first one of the function sends \<open>StoppedEvent\<close>.\<close>

definition release :: "resource list list \<Rightarrow> run_action list" where
  "release blocks = map Closed (concat (rev blocks)) @ [Sent StoppedEvent]"

text \<open>All of \<open>RunTunnel\<close>, with the events of the supervising loop in the middle.\<close>

definition RunTunnel :: "run_host \<Rightarrow> client_config \<Rightarrow> tunnel_route_section list \<Rightarrow> run_event list \<Rightarrow> run_action list" where
  "RunTunnel A cfg pool loop_events =
     (case RunTunnel_start A cfg pool of
        (acts, blocks, None) \<Rightarrow> acts @ release blocks
      | (acts, blocks, Some nodes) \<Rightarrow> acts @ map Sent loop_events @ release blocks)"

section \<open>What is opened is released\<close>

fun opens :: "run_action list \<Rightarrow> resource list" where
  "opens [] = []"
| "opens (Opened r # as) = r # opens as"
| "opens (_ # as) = opens as"

fun closes :: "run_action list \<Rightarrow> resource list" where
  "closes [] = []"
| "closes (Closed r # as) = r # closes as"
| "closes (_ # as) = closes as"

fun events_of :: "run_action list \<Rightarrow> run_event list" where
  "events_of [] = []"
| "events_of (Sent e # as) = e # events_of as"
| "events_of (_ # as) = events_of as"

lemma trace_append [simp]:
  "opens (as @ bs) = opens as @ opens bs" "closes (as @ bs) = closes as @ closes bs" "events_of (as @ bs) = events_of as @ events_of bs"
proof -
  show "opens (as @ bs) = opens as @ opens bs" by (induction as rule: opens.induct) simp_all
  show "closes (as @ bs) = closes as @ closes bs" by (induction as rule: closes.induct) simp_all
  show "events_of (as @ bs) = events_of as @ events_of bs" by (induction as rule: events_of.induct) simp_all
qed

lemma trace_map [simp]:
  "opens (map Opened rs) = rs" "closes (map Opened rs) = []" "events_of (map Opened rs) = []"
  "opens (map Closed rs) = []" "closes (map Closed rs) = rs" "events_of (map Closed rs) = []"
  by (induction rs) simp_all

lemma trace_sent [simp]: "opens (map Sent es) = []" "closes (map Sent es) = []" "events_of (map Sent es) = es"
  by (induction es) simp_all

text \<open>A stage that itself only does what needs no release.\<close>

definition plain :: "stage \<Rightarrow> bool" where
  "plain st \<longleftrightarrow> opens (stDoes st) = [] \<and> closes (stDoes st) = [] \<and> events_of (stDoes st) = []"

lemma run_stages_opens:
  assumes "list_all plain sts" "run_stages sts = (acts, opened, e)"
  shows "opens acts = opened" "closes acts = []" "events_of acts = []" "\<exists>rest. concat (map stDefers sts) = opened @ rest"
    "e = None \<Longrightarrow> opened = concat (map stDefers sts)"
proof -
  have "opens acts = opened \<and> closes acts = [] \<and> events_of acts = [] \<and> (\<exists>rest. concat (map stDefers sts) = opened @ rest) \<and>
      (e = None \<longrightarrow> opened = concat (map stDefers sts))"
    using assms
  proof (induction sts arbitrary: acts opened e)
    case (Cons st sts)
    show ?case
    proof (cases "stOk st")
      case True
      obtain as os x where r: "run_stages sts = (as, os, x)" by (metis prod_cases3)
      have "list_all plain sts" "plain st" using Cons.prems(1) by simp_all
      note ih = Cons.IH [OF this(1) r] and pl = this(2) [unfolded plain_def]
      from Cons.prems(2) True r have e: "acts = stDoes st @ map Opened (stDefers st) @ as" "opened = stDefers st @ os" "e = x" by simp_all
      from ih pl show ?thesis unfolding e by simp
    qed (use Cons.prems in auto)
  qed auto
  then show "opens acts = opened" "closes acts = []" "events_of acts = []" "\<exists>rest. concat (map stDefers sts) = opened @ rest"
    "e = None \<Longrightarrow> opened = concat (map stDefers sts)" by blast+
qed

lemma stages_plain: "list_all plain (start_stages A)" "list_all plain (payer_stages B)"
proof -
  have "opens (watch_channels B) = [] \<and> closes (watch_channels B) = [] \<and> events_of (watch_channels B) = []"
  proof -
    have "opens (map (\<lambda>(a, _). Watched a) xs) = [] \<and> closes (map (\<lambda>(a, _). Watched a) xs) = [] \<and> events_of (map (\<lambda>(a, _). Watched a) xs) = []" for xs :: "(bytes \<times> bool) list"
      by (induction xs) auto
    then show ?thesis by (simp add: watch_channels_def split: option.split)
  qed
  then show "list_all plain (start_stages A)" "list_all plain (payer_stages B)" by (simp_all add: start_stages_def payer_stages_def plain_def)
qed

lemma stage_resources:
  "concat (map stDefers (start_stages A)) = [Listener, NetReader, AdnlGateway, DhtGateway, DhtClient]"
  "concat (map stDefers (payer_stages B)) = [PayGateway, PayDb, PayTransport, PayScanner, PayService]"
  by (simp_all add: start_stages_def payer_stages_def)

lemma concat_rev_singles: "concat (rev (map (\<lambda>r. [r]) rs)) = rev rs"
  by (induction rs) simp_all

lemma preparePayer_outcome:
  assumes "preparePayerPayments B = (acts, res)"
  shows "\<exists>opened rest as bs. acts = as @ bs \<and> closes as = [] \<and> opens bs = [] \<and> opens as = opened \<and> events_of acts = [] \<and>
    [PayGateway, PayDb, PayTransport, PayScanner, PayService] = opened @ rest \<and>
    (case res of Inl x \<Rightarrow> closes bs = rev opened | Inr execs \<Rightarrow> bs = [] \<and> rest = [] \<and> execs = opened)"
proof -
  obtain as opened e where r: "run_stages (payer_stages B) = (as, opened, e)" by (metis prod_cases3)
  note o = run_stages_opens [OF stages_plain(2) r]
  from o(4) obtain rest where rest: "[PayGateway, PayDb, PayTransport, PayScanner, PayService] = opened @ rest" by (auto simp: stage_resources)
  show ?thesis
  proof (cases e)
    case None
    with assms r have "acts = as" "res = Inr opened" by (simp_all add: preparePayerPayments_def fold_Cons_rev)
    moreover have "rest = []" using o(5) [OF None] rest by (simp add: stage_resources)
    ultimately show ?thesis using o rest by (intro exI [of _ opened] exI [of _ "[]"] exI [of _ as]) simp_all
  next
    case (Some x)
    with assms r have "acts = as @ map Closed (rev opened)" "res = Inl x" by (simp_all add: preparePayerPayments_def)
    then show ?thesis using o rest by (intro exI [of _ opened] exI [of _ rest] exI [of _ as] exI [of _ "map Closed (rev opened)"]) simp
  qed
qed

text \<open>The part of \<open>RunTunnel\<close> before the deferred calls.\<close>

definition start_ok :: "run_action list \<Rightarrow> resource list list \<Rightarrow> bool \<Rightarrow> bool" where
  "start_ok acts blocks up \<longleftrightarrow> (\<exists>as bs. acts = as @ bs \<and> closes as = [] \<and> opens bs = [] \<and> distinct (opens as) \<and>
     mset (closes bs) + mset (concat blocks) = mset (opens as) \<and> StoppedEvent \<notin> set (events_of acts) \<and>
     (up \<longrightarrow> bs = []) \<and> (\<not> up \<longrightarrow> closes bs @ concat (rev blocks) = rev (opens as)))"

text \<open>The stages before the payments open a prefix of their resources, none of them twice.\<close>

lemma opened_before_payments:
  assumes "run_stages (start_stages A) = (as, opened, e)"
  shows "distinct opened" "CloserContext \<notin> set opened" "TunnelGateway \<notin> set opened"
    "set opened \<inter> {PayGateway, PayDb, PayTransport, PayScanner, PayService} = {}"
proof -
  from run_stages_opens(4) [OF stages_plain(1) assms] obtain rest where
    rest: "[Listener, NetReader, AdnlGateway, DhtGateway, DhtClient] = opened @ rest" by (auto simp: stage_resources)
  have "distinct (opened @ rest)" "set opened \<subseteq> {Listener, NetReader, AdnlGateway, DhtGateway, DhtClient}"
    by (simp_all flip: rest) (metis Un_upper1 rest set_append list.set)
  then show "distinct opened" "CloserContext \<notin> set opened" "TunnelGateway \<notin> set opened"
    "set opened \<inter> {PayGateway, PayDb, PayTransport, PayScanner, PayService} = {}" by auto
qed

text \<open>The payments are started last, before the gateway of the tunnel: they are released on their own or as one block.\<close>

lemma payments_start_ok:
  fixes as :: "run_action list"
  defines "acts \<equiv> Opened CloserContext # as @ [Sent (MsgEvent ''Preparing tunnel payments...'')]"
  assumes r: "run_stages (start_stages A) = (as, opened, e)" and p: "preparePayerPayments P = (pacts, res)"
  shows "case res of Inl x \<Rightarrow> start_ok (acts @ pacts @ [Sent (StartFailed x)]) ([CloserContext] # map (\<lambda>r. [r]) opened) False
    | Inr execs \<Rightarrow> start_ok (acts @ pacts @ [Opened TunnelGateway]) ([CloserContext] # map (\<lambda>r. [r]) opened @ [execs, [TunnelGateway]]) True"
proof -
  note o = run_stages_opens [OF stages_plain(1) r] and new = opened_before_payments [OF r]
  from preparePayer_outcome [OF p] obtain po prest pas pbs where po: "pacts = pas @ pbs" "closes pas = []" "opens pbs = []" "opens pas = po"
    "events_of pacts = []" "[PayGateway, PayDb, PayTransport, PayScanner, PayService] = po @ prest"
    "case res of Inl x \<Rightarrow> closes pbs = rev po | Inr execs \<Rightarrow> pbs = [] \<and> prest = [] \<and> execs = po" by blast
  have "distinct (po @ prest)" "set po \<subseteq> {PayGateway, PayDb, PayTransport, PayScanner, PayService}"
    by (simp_all flip: po(6)) (metis Un_upper1 po(6) set_append list.set)
  then have dp: "distinct po" "set po \<inter> set opened = {}" "CloserContext \<notin> set po" "TunnelGateway \<notin> set po" using new by auto
  have ev: "events_of pas = []" "events_of pbs = []" using po(1,5) by simp_all
  show ?thesis
  proof (cases res)
    case (Inl x)
    with po(7) have c: "closes pbs = rev po" by simp
    have "start_ok (acts @ pacts @ [Sent (StartFailed x)]) ([CloserContext] # map (\<lambda>r. [r]) opened) False"
      unfolding start_ok_def acts_def using o new po(1-4) dp c ev
      by (intro exI [of _ "Opened CloserContext # as @ Sent (MsgEvent ''Preparing tunnel payments...'') # pas"] exI [of _ "pbs @ [Sent (StartFailed x)]"])
         (auto simp: concat_rev_singles)
    with Inl show ?thesis by simp
  next
    case (Inr execs)
    with po(7) have c: "pbs = []" "execs = po" by simp_all
    have "start_ok (acts @ pacts @ [Opened TunnelGateway]) ([CloserContext] # map (\<lambda>r. [r]) opened @ [execs, [TunnelGateway]]) True"
      unfolding start_ok_def acts_def using o new po(1-4) dp c ev
      by (intro exI [of _ "Opened CloserContext # as @ Sent (MsgEvent ''Preparing tunnel payments...'') # pas @ [Opened TunnelGateway]"] exI [of _ "[]"])
         (auto simp: concat_rev_singles)
    with Inr show ?thesis by simp
  qed
qed

lemma RunTunnel_start_ok:
  assumes "RunTunnel_start A cfg pool = (acts, blocks, nodes)"
  shows "start_ok acts blocks (nodes \<noteq> None)"
proof (cases "usable_nodes cfg pool")
  case (Inl e)
  with assms have "acts = [Opened CloserContext, Sent (PoolRejected e)]" "blocks = [[CloserContext]]" "nodes = None"
    by (simp_all add: RunTunnel_start_def)
  then show ?thesis unfolding start_ok_def by (intro exI [of _ acts] exI [of _ "[]"]) simp
next
  case (Inr ns)
  obtain as opened e where r: "run_stages (start_stages A) = (as, opened, e)" by (metis prod_cases3)
  note o = run_stages_opens [OF stages_plain(1) r] and new = opened_before_payments [OF r]
  let ?acts0 = "Opened CloserContext # as" and ?blocks = "[CloserContext] # map (\<lambda>r. [r]) opened"
  have failed: "start_ok (?acts0 @ xs) ?blocks False" if "opens xs = []" "closes xs = []" "StoppedEvent \<notin> set (events_of xs)" for xs
    using that o new unfolding start_ok_def
    by (intro exI [of _ "?acts0 @ xs"] exI [of _ "[]"]) (simp add: concat_rev_singles)
  show ?thesis
  proof (cases "e \<noteq> None \<or> \<not> PaymentsEnabled cfg \<or> \<not> liteservers_ok A")
    case True
    have "start_ok (?acts0 @ [Opened TunnelGateway]) (?blocks @ [[TunnelGateway]]) True"
      using o new unfolding start_ok_def
      by (intro exI [of _ "?acts0 @ [Opened TunnelGateway]"] exI [of _ "[]"]) (simp add: concat_rev_singles)
    with True assms Inr r failed [of "[Sent x]" for x] show ?thesis
      by (cases e; cases "PaymentsEnabled cfg"; cases "liteservers_ok A") (auto simp: RunTunnel_start_def Let_def)
  next
    case False
    obtain pacts res where p: "preparePayerPayments (payments A) = (pacts, res)" by fastforce
    from payments_start_ok [OF r p] False assms Inr r p show ?thesis by (cases res) (auto simp: RunTunnel_start_def Let_def)
  qed
qed


definition demo_pay_startup :: pay_startup where
  "demo_pay_startup = \<lparr>pay_gateway_ok = True, level_db = Some True, migration_version_ok = True, migrations_ok = True,
     GetBlockOffset = OffsetMissing, scanner_ok = (\<lambda>_. True), stored_channels = Some [([1], False)], wallet_ok = True, service_ok = False\<rparr>"

definition demo_run_host :: run_host where
  "demo_run_host = \<lparr>dht_key_ok = True, tun_key_ok = True, listener_ok = True, gateway_ok = True, dht_gateway_ok = True,
     dht_client_ok = True, liteservers_ok = True, payments = demo_pay_startup\<rparr>"


text \<open>
  When the start succeeded with payments, the payment node is released in the order of opening: its
  gateway and its database are closed before the transport, the scanner and the service that use
  them are stopped.
\<close>

lemma payment_node_released_in_order:
  assumes "RunTunnel_start A cfg pool = (acts, blocks, Some nodes)" "PaymentsEnabled cfg"
  shows "closes (RunTunnel A cfg pool loop_events) =
     [TunnelGateway, PayGateway, PayDb, PayTransport, PayScanner, PayService, DhtClient, DhtGateway, AdnlGateway, NetReader, Listener, CloserContext]"
proof -
  obtain as opened e where r: "run_stages (start_stages A) = (as, opened, e)" by (metis prod_cases3)
  obtain pacts res where p: "preparePayerPayments (payments A) = (pacts, res)" by fastforce
  from assms r p obtain execs where e: "e = None" "res = Inr execs" "blocks = ([CloserContext] # map (\<lambda>r. [r]) opened) @ [execs, [TunnelGateway]]"
      "acts = (Opened CloserContext # as) @ [Sent (MsgEvent ''Preparing tunnel payments...'')] @ pacts @ [Opened TunnelGateway]"
    by (auto simp: RunTunnel_start_def Let_def split: sum.splits option.splits if_splits)
  have "opened = [Listener, NetReader, AdnlGateway, DhtGateway, DhtClient]" "closes as = []"
    using run_stages_opens [OF stages_plain(1) r] e(1) by (simp_all add: stage_resources)
  moreover have "execs = [PayGateway, PayDb, PayTransport, PayScanner, PayService]" "closes pacts = []"
    using preparePayer_outcome [OF p] e(2) by auto
  ultimately show ?thesis using assms(1) e by (simp add: RunTunnel_def release_def)
qed

section \<open>Waiting for a tunnel\<close>

text \<open>
  \<open>WaitForInit\<close> polls every five milliseconds, first until the tunnel is configured, then (a paid
  tunnel) until the payments are confirmed. A poll is one \<open>select\<close>: the context is done, the tunnel is
  closed, or the timer fired.
\<close>

datatype select_case = CtxDone | TunnelClosed | TimerFired

datatype wait_state = WaitConfigured | WaitConfirmed

definition WaitForInit_poll ::
  "select_case \<Rightarrow> wait_state \<Rightarrow> ptr \<Rightarrow> 'a tun_gateway_scheme
   \<Rightarrow> 'a tun_gateway_scheme \<times> run_event list \<times> (wait_state + (go_error + bytes \<times> u16))" where
  "WaitForInit_poll sel w t s =
     (let tn = tuns s ! t; ready = (s, [MsgEvent ''Tunnel initialized''], Inr (Inr (externalAddr tn, externalPort tn)))
      in case sel of
           CtxDone \<Rightarrow> (s, [], Inr (Inl (ErrTunnel ErrCanceled)))
         | TunnelClosed \<Rightarrow> (s, [], Inr (Inl (ErrTunnel ErrCanceled)))
         | TimerFired \<Rightarrow>
             (case w of
                WaitConfigured \<Rightarrow>
                  if tunnelState tn \<noteq> StateTypeOptimized then (s, [], Inl WaitConfigured)
                  else if usePayments tn
                  then (upd_tun t requestControlMessage s, [MsgEvent ''Tunnel configured, sending payments...''], Inl WaitConfirmed)
                  else ready
              | WaitConfirmed \<Rightarrow> if paymentsConfirmed tn then ready else (s, [], Inl WaitConfirmed)))"

text \<open>
  The whole wait, as a function of its polls and of the states in which they happen: \<open>None\<close> while it
  still waits.
\<close>

fun WaitForInit :: "wait_state \<Rightarrow> ptr \<Rightarrow> (select_case \<times> 'a tun_gateway_scheme) list \<Rightarrow> run_event list \<times> (go_error + bytes \<times> u16) option" where
  "WaitForInit w t [] = ([], None)"
| "WaitForInit w t ((sel, s) # polls) =
     (case WaitForInit_poll sel w t s of
        (_, evs, Inr res) \<Rightarrow> (evs, Some res)
      | (_, evs, Inl w') \<Rightarrow> (case WaitForInit w' t polls of (evs', res) \<Rightarrow> (evs @ evs', res)))"

section \<open>The supervising loop\<close>

text \<open>
  Where \<open>RunTunnel\<close> is: choosing and creating a route, waiting for the tunnel, stopping it (after a
  failed wait with its error, or to choose another route), or serving with the time of the last
  question for a new route.
\<close>

datatype run_phase =
    PhaseConfigure
  | PhaseWait ptr wait_state
  | PhaseStop ptr "go_error option"
  | PhaseServe ptr int
  | PhaseFinished

record runner =
  rNodes :: "tunnel_route_section list"
  rAttempts :: "bytes list set"
  rDeployed :: "deployment list"
  rPhase :: run_phase
  rEvents :: "run_event list"
  rCanceled :: bool

definition run_start :: "tunnel_route_section list \<Rightarrow> runner" where
  "run_start nodes = \<lparr>rNodes = nodes, rAttempts = {}, rDeployed = [], rPhase = PhaseConfigure, rEvents = [], rCanceled = False\<rparr>"

definition route_failed :: "go_error \<Rightarrow> bool \<Rightarrow> runner \<Rightarrow> runner" where
  "route_failed e retryable r =
     (case after_failure (e, retryable) (rAttempts r) of (attempts, again) \<Rightarrow>
        r\<lparr>rAttempts := attempts, rEvents := rEvents r @ [if again then ConfigurationErrorEvent e else RouteFailed e],
          rPhase := (if again then PhaseConfigure else PhaseFinished)\<rparr>)"

definition run_configure ::
  "setup_host \<Rightarrow> host \<Rightarrow> crypto \<Rightarrow> env \<Rightarrow> chain_view \<Rightarrow> client_config \<Rightarrow> runner \<Rightarrow> 'a tun_gateway_scheme \<Rightarrow> runner \<times> 'a tun_gateway_scheme" where
  "run_configure H HT C E V cfg r s =
     (case configureRoute H HT C E V cfg (rNodes r) (rAttempts r) (rDeployed r) s of
        (nodes, attempts, ds, s', res) \<Rightarrow>
          let r1 = r\<lparr>rNodes := nodes, rAttempts := attempts, rDeployed := ds,
                     rEvents := rEvents r @ [MsgEvent ''Configuring tunnel route...'']\<rparr>
          in case res of
               Inl (e, retryable) \<Rightarrow> (route_failed e retryable r1, s')
             | Inr t \<Rightarrow> (r1\<lparr>rPhase := PhaseWait t WaitConfigured\<rparr>, s'))"

definition run_poll :: "select_case \<Rightarrow> wait_state \<Rightarrow> ptr \<Rightarrow> runner \<Rightarrow> 'a tun_gateway_scheme \<Rightarrow> runner \<times> 'a tun_gateway_scheme" where
  "run_poll sel w t r s =
     (case WaitForInit_poll sel w t s of
        (s', evs, Inl w') \<Rightarrow> (r\<lparr>rEvents := rEvents r @ evs, rPhase := PhaseWait t w'\<rparr>, s')
      | (s', evs, Inr (Inl e)) \<Rightarrow> (r\<lparr>rEvents := rEvents r @ evs, rPhase := PhaseStop t (Some e)\<rparr>, stop_begin t s')
      | (s', evs, Inr (Inr (ip, port))) \<Rightarrow>
          (r\<lparr>rEvents := rEvents r @ evs @ [UpdatedEvent t ip port], rPhase := PhaseServe t 0\<rparr>, s'))"

text \<open>The check every five seconds; \<open>answer\<close> is what \<open>AskReroute\<close> returns, \<open>tm'\<close> the time after it.\<close>

definition run_check :: "int \<Rightarrow> int \<Rightarrow> bool \<Rightarrow> ptr \<Rightarrow> int \<Rightarrow> runner \<Rightarrow> 'a tun_gateway_scheme \<Rightarrow> runner \<times> 'a tun_gateway_scheme" where
  "run_check tm tm' answer t lastAsk r s =
     (if ask_reroute tm (lastFullyCheckedAt (tuns s ! t)) lastAsk
      then if answer then (r\<lparr>rPhase := PhaseStop t None\<rparr>, stop_begin t s) else (r\<lparr>rPhase := PhaseServe t tm'\<rparr>, s)
      else (r, s))"

definition run_stopped :: "ptr \<Rightarrow> go_error option \<Rightarrow> runner \<Rightarrow> 'a tun_gateway_scheme \<Rightarrow> runner \<times> 'a tun_gateway_scheme" where
  "run_stopped t cause r s =
     ((case cause of Some e \<Rightarrow> route_failed e True r | None \<Rightarrow> r\<lparr>rPhase := PhaseConfigure\<rparr>), stop_end t s)"

text \<open>
  Steps of the supervisor beside those of the gateway and its tunnels. A canceled context is ready in
  every later \<open>select\<close> of the wait at once, before its timer. \<open>rand.Shuffle\<close> permutes.
\<close>

inductive runner_step ::
  "crypto \<Rightarrow> tlcodec \<Rightarrow> client_config \<Rightarrow> runner \<times> tun_gateway \<Rightarrow> runner \<times> tun_gateway \<Rightarrow> bool"
  for C T cfg where
  beside: "client_step C T P E ev s s' \<Longrightarrow> ev \<noteq> EvConfigure \<Longrightarrow> \<forall>t. ev \<notin> {EvStopBegin t, EvStopPass t, EvStopEnd t} \<Longrightarrow>
    runner_step C T cfg (r, s) (r, s')"
| choose: "rPhase r = PhaseConfigure \<Longrightarrow> \<forall>k i xs. mset (shuffle H k i xs) = mset xs \<Longrightarrow>
    runner_step C T cfg (r, s) (run_configure H HT C E V cfg r s)"
| poll: "rPhase r = PhaseWait t w \<Longrightarrow> sel = TimerFired \<longrightarrow> \<not> rCanceled r \<Longrightarrow> runner_step C T cfg (r, s) (run_poll sel w t r s)"
| close: "rPhase r = PhaseStop t cause \<Longrightarrow> runner_step C T cfg (r, s) (r, fst (stop_pass HT C T E t s))"
| closed: "rPhase r = PhaseStop t cause \<Longrightarrow> runner_step C T cfg (r, s) (run_stopped t cause r s)"
| check: "rPhase r = PhaseServe t lastAsk \<Longrightarrow> \<not> rCanceled r \<Longrightarrow> runner_step C T cfg (r, s) (run_check tm tm' answer t lastAsk r s)"
| leave: "rPhase r = PhaseServe t lastAsk \<Longrightarrow> rCanceled r \<Longrightarrow> runner_step C T cfg (r, s) (r\<lparr>rPhase := PhaseFinished\<rparr>, s)"
| cancel: "runner_step C T cfg (r, s) (r\<lparr>rCanceled := True\<rparr>, s)"

inductive_cases runner_step_cases: "runner_step C T cfg (r, s) (r', s')"

inductive runner_run :: "crypto \<Rightarrow> tlcodec \<Rightarrow> client_config \<Rightarrow> runner \<times> tun_gateway \<Rightarrow> runner \<times> tun_gateway \<Rightarrow> bool" for C T cfg where
  run_refl: "runner_run C T cfg x x"
| run_step: "runner_run C T cfg x y \<Longrightarrow> runner_step C T cfg y z \<Longrightarrow> runner_run C T cfg x z"

section \<open>At most one tunnel is in use\<close>

lemma assemble_pool:
  assumes "assemble conv num reshuffle nodes = (nodes', res)" "\<And>xs. mset (reshuffle xs) = mset xs"
  shows "mset nodes' = mset nodes"
  using assms by (auto simp: assemble_def Let_def split: list.splits sum.splits if_splits prod.splits)

lemma choose_route_pool:
  assumes "choose_route H C cfg pay tries nodes attempts = (nodes', attempts', res)" "\<forall>k i xs. mset (shuffle H k i xs) = mset xs"
  shows "mset nodes' = mset nodes"
  using assms(1)
proof (induction "51 - tries" arbitrary: tries nodes rule: less_induct)
  case less
  let ?conv = "\<lambda>u isOut sc. paymentConfigToSections H C (setup_key H tries u) sc isOut pay"
  obtain nds r where a: "assemble ?conv (TunnelSectionsNum cfg) (shuffle H tries 1) (shuffle H tries 0 nodes) = (nds, r)" by fastforce
  from assemble_pool [OF a] assms(2) have m: "mset nds = mset nodes" by simp
  note e = choose_route.simps [of H C cfg pay tries nodes attempts]
  show ?case
  proof (cases "choose_route H C cfg pay (tries + 1) nds attempts = (nodes', attempts', res) \<and> \<not> 50 < tries")
    case True
    then have "51 - (tries + 1) < 51 - tries" by arith
    from less.hyps [OF this conjunct1 [OF True]] m show ?thesis by simp
  next
    case False
    with less.prems a m show ?thesis by (auto simp: e Let_def split: if_splits sum.splits)
  qed
qed

lemma configureRoute_outcome:
  assumes "configureRoute H HT C E V cfg nodes attempts ds s = (nodes', attempts', ds', s', res)" "\<forall>k i xs. mset (shuffle H k i xs) = mset xs"
  shows "mset nodes' = mset nodes" "res = Inl x \<Longrightarrow> tuns s' = tuns s"
    "res = Inr t \<Longrightarrow> t = length (tuns s) \<and> (\<exists>tn. tuns s' = tuns s @ [tn])"
proof -
  obtain nds ats r where c: "choose_route H C cfg (payService s) 0 nodes attempts = (nds, ats, r)" by (metis prod_cases3)
  from choose_route_pool [OF c assms(2)] assms(1) c show "mset nodes' = mset nodes"
    by (auto simp: configureRoute_def Let_def split: sum.splits option.splits prod.splits if_splits)
  have f: "tuns u = tuns s" if "CreateRegularOutTunnel HT C E g to fr s = (u, Inl e)" for g to fr u e
  proof -
    have "tuns (AddReference p s1) = tuns s" if "addPeer E adnl None s = (p, s1)" for adnl p s1
      using relay_nets(20) [of E adnl None s] that by (simp add: relay_simps)
    with that show ?thesis by (auto simp: CreateRegularOutTunnel_def Let_def split: if_splits option.splits sum.splits prod.splits)
  qed
  show "tuns s' = tuns s" if "res = Inl x"
    using assms(1) c that f by (fastforce simp: configureRoute_def Let_def split: sum.splits option.splits prod.splits if_splits)
  show "t = length (tuns s) \<and> (\<exists>tn. tuns s' = tuns s @ [tn])" if "res = Inr t"
    using assms(1) c that
    by (auto simp: configureRoute_def Let_def split: sum.splits option.splits prod.splits if_splits
        dest: CreateRegularOutTunnel_created(1,2))
qed

definition run_inv :: "tunnel_route_section list \<Rightarrow> runner \<times> tun_gateway \<Rightarrow> bool" where
  "run_inv nodes x \<longleftrightarrow> (case x of (r, s) \<Rightarrow> client_inv s \<and> mset (rNodes r) = mset nodes \<and> StoppedEvent \<notin> set (rEvents r) \<and>
     (\<forall>t. Suc t < length (tuns s) \<longrightarrow> wantDestroy (tuns s ! t)) \<and>
     (case rPhase r of
        PhaseConfigure \<Rightarrow> \<forall>t < length (tuns s). wantDestroy (tuns s ! t)
      | PhaseWait t w \<Rightarrow> Suc t = length (tuns s)
      | PhaseStop t cause \<Rightarrow> Suc t = length (tuns s) \<and> wantDestroy (tuns s ! t)
      | PhaseServe t lastAsk \<Rightarrow> Suc t = length (tuns s) \<and> (\<exists>es ip port. rEvents r = es @ [UpdatedEvent t ip port])
      | PhaseFinished \<Rightarrow> (\<exists>es e. rEvents r = es @ [RouteFailed e]) \<or> rCanceled r))"

lemma client_inv_stops:
  assumes "client_inv s"
  shows "client_inv (stop_begin t s)" "client_inv (fst (stop_pass H C T E t s))" "client_inv (stop_end t s)"
    "client_inv (upd_tun t requestControlMessage s)"
proof -
  have i: "gw_inv s" using assms by (simp add: client_inv_def)
  note g = gw_inv_client_calls [OF i] and u = client_inv_tended [OF assms]
  show "client_inv (stop_begin t s)" "client_inv (fst (stop_pass H C T E t s))" "client_inv (stop_end t s)"
    by (rule u, rule tended_stops, rule g)+
  show "client_inv (upd_tun t requestControlMessage s)"
    by (rule u, rule tended_upd) (simp_all add: tun_step_def requestControlMessage_def i)
qed

lemma lasting_run_inv:
  assumes "run_inv nodes (r, s)" "client_inv s'" "lasting s s'"
  shows "run_inv nodes (r, s')"
  using assms by (auto simp: run_inv_def lasting_def split: run_phase.splits)

lemma run_inv_failed:
  assumes "run_inv nodes (r\<lparr>rPhase := PhaseConfigure\<rparr>, s)"
  shows "run_inv nodes (route_failed e retryable r, s)"
  using assms by (auto simp: run_inv_def route_failed_def after_failure_def)

lemma lasting_stops:
  "lasting s (stop_begin t s)" "lasting s (fst (stop_pass H C T E t s))" "lasting s (stop_end t s)" "lasting s (upd_tun t requestControlMessage s)"
  by (auto simp: tun_step_def requestControlMessage_def intro!: lasting_tended tended_stops tended_upd)

lemma run_inv_configure:
  assumes "run_inv nodes (r, s)" "rPhase r = PhaseConfigure" "\<forall>k i xs. mset (shuffle H k i xs) = mset xs"
  shows "run_inv nodes (run_configure H HT C E V cfg r s)"
proof -
  obtain nds ats ds s' res where c: "configureRoute H HT C E V cfg (rNodes r) (rAttempts r) (rDeployed r) s = (nds, ats, ds, s', res)"
    by (metis prod_cases5)
  note o = configureRoute_outcome [OF c assms(3)]
  have i: "client_inv s'" using client_inv_configure [OF c] assms(1) by (simp add: run_inv_def)
  show ?thesis
  proof (cases res)
    case (Inl x)
    obtain e rt where x: "x = (e, rt)" by fastforce
    have "run_inv nodes (route_failed e rt (r\<lparr>rNodes := nds, rAttempts := ats, rDeployed := ds,
        rEvents := rEvents r @ [MsgEvent ''Configuring tunnel route...'']\<rparr>), s')"
      by (rule run_inv_failed) (use assms(1,2) o(1) o(2) [OF Inl] i in \<open>auto simp: run_inv_def\<close>)
    then show ?thesis by (simp add: run_configure_def c Inl x Let_def)
  next
    case (Inr t)
    from o(3) [OF Inr] obtain tn where t: "t = length (tuns s)" "tuns s' = tuns s @ [tn]" by blast
    then show ?thesis using assms(1,2) o(1) i Inr
      by (auto simp: run_configure_def c Let_def run_inv_def nth_append)
  qed
qed

lemma run_inv_poll:
  assumes "run_inv nodes (r, s)" "rPhase r = PhaseWait t w"
  shows "run_inv nodes (run_poll sel w t r s)"
proof -
  have t: "Suc t = length (tuns s)" "client_inv s" using assms by (simp_all add: run_inv_def)
  have b: "wantDestroy (tuns (stop_begin t s) ! t)" using t(1) by (simp add: stop_begin_def)
  note l = lasting_run_inv [OF assms(1) client_inv_stops(1) [OF t(2)] lasting_stops(1)]
    lasting_run_inv [OF assms(1) client_inv_stops(4) [OF t(2)] lasting_stops(4)]
  show ?thesis using assms t b l [of t]
    by (auto simp: run_poll_def WaitForInit_poll_def Let_def run_inv_def split: select_case.split wait_state.split)
qed

lemma run_inv_step:
  assumes "runner_step C T cfg x y" "run_inv nodes x"
  shows "run_inv nodes y"
  using assms
proof (induction rule: runner_step.induct)
  case (beside P E ev s s' r)
  have "client_inv s" using beside.prems by (simp add: run_inv_def)
  with beside show ?case by (intro lasting_run_inv [OF beside.prems]) (auto intro: client_inv_step client_step_lasting)
next
  case (choose r H s HT E V)
  then show ?case by (intro run_inv_configure)
next
  case (poll r t w sel s)
  then show ?case by (intro run_inv_poll)
next
  case (close r t cause s HT E)
  then have "client_inv s" by (simp add: run_inv_def)
  with close show ?case by (intro lasting_run_inv [OF close.prems] client_inv_stops lasting_stops)
next
  case (closed r t cause s)
  have i: "client_inv s" using closed.prems by (simp add: run_inv_def)
  have l: "run_inv nodes (r, stop_end t s)" by (rule lasting_run_inv [OF closed.prems client_inv_stops(3) [OF i] lasting_stops(3)])
  then have c: "run_inv nodes (r\<lparr>rPhase := PhaseConfigure\<rparr>, stop_end t s)"
    using closed.hyps by (simp add: run_inv_def) (metis Suc_lessI nat.inject)
  then show ?case using run_inv_failed [OF c] by (simp add: run_stopped_def split: option.split)
next
  case (check r t lastAsk s tm tm' answer)
  then have t: "Suc t = length (tuns s)" "client_inv s" by (simp_all add: run_inv_def)
  have "wantDestroy (tuns (stop_begin t s) ! t)" using t(1) by (simp add: stop_begin_def)
  with check t lasting_run_inv [OF check.prems client_inv_stops(1) [OF t(2)] lasting_stops(1), of t] show ?case
    by (auto simp: run_check_def run_inv_def)
qed (auto simp: run_inv_def split: run_phase.splits)

lemma run_inv_run: "runner_run C T cfg x y \<Longrightarrow> run_inv nodes x \<Longrightarrow> run_inv nodes y"
  by (induction rule: runner_run.induct) (auto intro: run_inv_step)

section \<open>Properties of the supervisor\<close>

text \<open>
  C21. While \<open>RunTunnel\<close> runs, at most one tunnel is in use. In every state it can reach, with any
  interleaving of the gateway's and the tunnels' own steps, all tunnels but the newest have been told
  to stop, and while a new route is chosen, all of them; it serves the newest tunnel, which it has
  announced in its latest event; it ends only after an error event or when it was canceled; the pool
  keeps its nodes, and the invariant of gateway and tunnels holds.
\<close>

theorem one_tunnel_in_use:
  assumes "runner_run C T cfg (run_start nodes, client_start key service minRoute minInOut) (r, s)"
  shows "client_inv s \<and> mset (rNodes r) = mset nodes \<and> StoppedEvent \<notin> set (rEvents r) \<and>
     (\<forall>t. Suc t < length (tuns s) \<longrightarrow> wantDestroy (tuns s ! t)) \<and>
     (rPhase r = PhaseConfigure \<longrightarrow> (\<forall>t < length (tuns s). wantDestroy (tuns s ! t))) \<and>
     (\<forall>t lastAsk. rPhase r = PhaseServe t lastAsk \<longrightarrow> Suc t = length (tuns s) \<and> (\<exists>es ip port. rEvents r = es @ [UpdatedEvent t ip port])) \<and>
     (rPhase r = PhaseFinished \<longrightarrow> (\<exists>es e. rEvents r = es @ [RouteFailed e]) \<or> rCanceled r)"
proof -
  have "tuns (client_start key service minRoute minInOut) = []"
    by (simp add: client_start_def gateway.defs tun_gateway.defs)
  then have "run_inv nodes (run_start nodes, client_start key service minRoute minInOut)"
    using client_start_inv by (simp add: run_inv_def run_start_def)
  from run_inv_run [OF assms this] show ?thesis by (auto simp: run_inv_def split: run_phase.splits)
qed

lemma demo_tunnel_configures:
  "\<exists>nodes' attempts' ds' s' t. configureRoute demo_setup demo_host demo_crypto demo_env demo_chain_view
     \<lparr>TunnelSectionsNum = 2, PaymentsEnabled = False\<rparr> demo_pool {} [] (client_start [9] True 0 0) = (nodes', attempts', ds', s', Inr t)"
  by (simp add: configureRoute_def choose_route.simps assemble_def end_at_entry_def demo_setup_def demo_pool_def demo_host_def
      paymentConfigToSections_def PublicKeySize_def GenerateEncryptionKeys_def NewEncryptionKeys_def demo_crypto_def
      CreateRegularOutTunnel_def checkAndDeployPaymentChannels_def Uint32_def Let_def AcceptorDecisionAccept_def
      route_name_def client_start_def NewGateway_def gateway.defs tun_gateway.defs split: prod.splits)

text \<open>A run in which the wait for the first tunnel fails: it is stopped and the next route is chosen.\<close>

lemma demo_runner:
  fixes r0 :: runner
  assumes "r0 = (run_start demo_pool)\<lparr>rCanceled := b\<rparr>"
  shows "\<exists>r s. runner_run demo_crypto full_tl \<lparr>TunnelSectionsNum = 2, PaymentsEnabled = False\<rparr> (r0, client_start [9] True 0 0) (r, s) \<and>
     length (tuns s) = 1 \<and> rPhase r = PhaseConfigure \<and> rCanceled r = b"
proof -
  let ?cfg = "\<lparr>TunnelSectionsNum = 2, PaymentsEnabled = False\<rparr>" and ?s0 = "client_start [9] True 0 0"
  obtain nodes' attempts' ds' s1 t where c: "configureRoute demo_setup demo_host demo_crypto demo_env demo_chain_view ?cfg
      demo_pool {} [] ?s0 = (nodes', attempts', ds', s1, Inr t)" using demo_tunnel_configures by blast
  have p: "\<forall>k i xs. mset (shuffle demo_setup k i xs) = mset xs" by (simp add: demo_setup_def)
  have t: "t = 0" "length (tuns s1) = 1" using configureRoute_outcome(3) [OF c p refl]
    by (auto simp: client_start_def gateway.defs tun_gateway.defs)
  define r1 where "r1 = fst (run_configure demo_setup demo_host demo_crypto demo_env demo_chain_view ?cfg r0 ?s0)"
  have r1: "run_configure demo_setup demo_host demo_crypto demo_env demo_chain_view ?cfg r0 ?s0 = (r1, s1)"
      "rPhase r1 = PhaseWait 0 WaitConfigured" "rCanceled r1 = b"
    by (simp_all add: r1_def run_configure_def assms run_start_def c Let_def t(1))
  define r2 s2 where "r2 = r1\<lparr>rPhase := PhaseStop 0 (Some (ErrTunnel ErrCanceled))\<rparr>" and "s2 = stop_begin 0 s1"
  have r2: "run_poll CtxDone WaitConfigured 0 r1 s1 = (r2, s2)" by (simp add: run_poll_def WaitForInit_poll_def r2_def s2_def Let_def)
  define r3 s3 where "r3 = route_failed (ErrTunnel ErrCanceled) True r2" and "s3 = stop_end 0 s2"
  have r3: "run_stopped 0 (Some (ErrTunnel ErrCanceled)) r2 s2 = (r3, s3)" by (simp add: run_stopped_def r3_def s3_def)
  have "runner_step demo_crypto full_tl ?cfg (r0, ?s0) (r1, s1)"
    using choose [of r0 demo_setup demo_crypto full_tl ?cfg ?s0 demo_host demo_env demo_chain_view] p r1(1) by (simp add: assms run_start_def)
  moreover have "runner_step demo_crypto full_tl ?cfg (r1, s1) (r2, s2)"
    using poll [of r1 0 WaitConfigured CtxDone demo_crypto full_tl ?cfg s1] r1(2) r2 by simp
  moreover have "runner_step demo_crypto full_tl ?cfg (r2, s2) (r3, s3)"
    using closed [of r2 0 "Some (ErrTunnel ErrCanceled)" demo_crypto full_tl ?cfg s2] r3 by (simp add: r2_def)
  ultimately have "runner_run demo_crypto full_tl ?cfg (r0, ?s0) (r3, s3)" by (blast intro: run_refl run_step)
  moreover have "length (tuns s3) = 1" using t(2) lasting_stops(1,3) [of s1 0] lasting_stops(3) [of s2 0]
    by (simp add: s3_def s2_def lasting_def)
  moreover have "rPhase r3 = PhaseConfigure" "rCanceled r3 = b"
    using r1(3) by (simp_all add: r3_def r2_def route_failed_def after_failure_def)
  ultimately show ?thesis by blast
qed

theorem one_tunnel_in_use_witness:
  "\<exists>r s. runner_run demo_crypto full_tl \<lparr>TunnelSectionsNum = 2, PaymentsEnabled = False\<rparr> (run_start demo_pool, client_start [9] True 0 0) (r, s) \<and>
     length (tuns s) = 1 \<and> wantDestroy (tuns s ! 0)"
proof -
  have s: "run_start demo_pool = (run_start demo_pool)\<lparr>rCanceled := False\<rparr>" by (simp add: run_start_def)
  from demo_runner [OF s] obtain r s where
    r: "runner_run demo_crypto full_tl \<lparr>TunnelSectionsNum = 2, PaymentsEnabled = False\<rparr> (run_start demo_pool, client_start [9] True 0 0) (r, s)"
      "length (tuns s) = 1" "rPhase r = PhaseConfigure" by blast
  with one_tunnel_in_use [OF r(1)] show ?thesis by auto
qed

text \<open>
  A client that is canceled while it configures a route does not stop. Once the context is
  canceled in that phase, \<open>RunTunnel\<close> never serves a tunnel again and never leaves its loop by itself:
  every wait fails at once, which counts as a reason to retry, and it ends only if choosing a route
  reports an error that is not retried.
\<close>

lemma cancel_while_configuring_ignored:
  assumes "runner_run C T cfg (r, s) (r', s')" "rCanceled r" "rPhase r = PhaseConfigure"
  shows "rCanceled r' \<and> (\<forall>t lastAsk. rPhase r' \<noteq> PhaseServe t lastAsk) \<and> (rPhase r' = PhaseFinished \<longrightarrow> (\<exists>e. RouteFailed e \<in> set (rEvents r')))"
proof -
  define stuck where "stuck x = (rCanceled (fst x) \<and> (\<forall>t lastAsk. rPhase (fst x) \<noteq> PhaseServe t lastAsk) \<and>
      (rPhase (fst x) = PhaseFinished \<longrightarrow> (\<exists>e. RouteFailed e \<in> set (rEvents (fst x)))))" for x :: "runner \<times> tun_gateway"
  have step: "stuck y" if "runner_step C T cfg x y" "stuck x" for x y
    using that
  proof (induction rule: runner_step.induct)
    case (choose r H s HT E V)
    then show ?case
      by (auto simp: stuck_def run_configure_def route_failed_def after_failure_def Let_def split: sum.split prod.split)
  next
    case (poll r t w sel s)
    then show ?case by (cases sel) (auto simp: stuck_def run_poll_def WaitForInit_poll_def Let_def)
  next
    case (closed r t cause s)
    then show ?case by (auto simp: stuck_def run_stopped_def route_failed_def after_failure_def split: option.split)
  qed (auto simp: stuck_def)
  have "stuck y" if "runner_run C T cfg x y" "stuck x" for x y
    using that by (induction rule: runner_run.induct) (auto intro: step)
  from this [OF assms(1)] assms(2,3) show ?thesis by (simp add: stuck_def)
qed

lemma cancel_while_configuring_ignored_witness:
  "\<exists>r s. runner_run demo_crypto full_tl \<lparr>TunnelSectionsNum = 2, PaymentsEnabled = False\<rparr>
       ((run_start demo_pool)\<lparr>rCanceled := True\<rparr>, client_start [9] True 0 0) (r, s) \<and>
     length (tuns s) = 1 \<and> rPhase r = PhaseConfigure \<and> rCanceled r"
proof -
  from demo_runner [OF refl] obtain r s where
    r: "runner_run demo_crypto full_tl \<lparr>TunnelSectionsNum = 2, PaymentsEnabled = False\<rparr>
       ((run_start demo_pool)\<lparr>rCanceled := True\<rparr>, client_start [9] True 0 0) (r, s)" "length (tuns s) = 1" "rPhase r = PhaseConfigure" by blast
  from cancel_while_configuring_ignored [OF r(1)] have "rCanceled r" by (simp add: run_start_def)
  with r show ?thesis by blast
qed

section \<open>The wait ends\<close>

lemma wait_confirmed:
  "snd (WaitForInit WaitConfirmed t polls) = None \<longleftrightarrow> (\<forall>(sel, s) \<in> set polls. sel = TimerFired \<and> \<not> paymentsConfirmed (tuns s ! t))"
  "snd (WaitForInit WaitConfirmed t polls) = Some (Inr (ip, port)) \<Longrightarrow> \<exists>(sel, s) \<in> set polls. paymentsConfirmed (tuns s ! t) \<and>
     ip = externalAddr (tuns s ! t) \<and> port = externalPort (tuns s ! t)"
proof -
  show "snd (WaitForInit WaitConfirmed t polls) = None \<longleftrightarrow> (\<forall>(sel, s) \<in> set polls. sel = TimerFired \<and> \<not> paymentsConfirmed (tuns s ! t))"
    by (induction polls) (auto simp: WaitForInit_poll_def Let_def split: select_case.splits prod.splits)
  show "snd (WaitForInit WaitConfirmed t polls) = Some (Inr (ip, port)) \<Longrightarrow> \<exists>(sel, s) \<in> set polls. paymentsConfirmed (tuns s ! t) \<and>
     ip = externalAddr (tuns s ! t) \<and> port = externalPort (tuns s ! t)"
    by (induction polls) (auto simp: WaitForInit_poll_def Let_def split: select_case.splits prod.splits if_splits)
qed

text \<open>A poll that finds the tunnel configured, with what the polls after it find.\<close>

definition once_configured ::
  "ptr \<Rightarrow> ('a tun_gateway_scheme \<Rightarrow> (select_case \<times> 'a tun_gateway_scheme) list \<Rightarrow> bool) \<Rightarrow> (select_case \<times> 'a tun_gateway_scheme) list \<Rightarrow> bool" where
  "once_configured t Q ps \<longleftrightarrow> (\<exists>xs sel s ys. ps = xs @ (sel, s) # ys \<and> tunnelState (tuns s ! t) = StateTypeOptimized \<and> Q s ys)"

lemma once_configured_Nil [simp]: "\<not> once_configured t Q []"
  by (simp add: once_configured_def)

lemma once_configured_Cons:
  "once_configured t Q ((sel, s) # ps) \<longleftrightarrow> tunnelState (tuns s ! t) = StateTypeOptimized \<and> Q s ps \<or> once_configured t Q ps"
proof
  assume "once_configured t Q ((sel, s) # ps)"
  then obtain xs sel' s' ys where x: "(sel, s) # ps = xs @ (sel', s') # ys" "tunnelState (tuns s' ! t) = StateTypeOptimized" "Q s' ys"
    unfolding once_configured_def by blast
  then show "tunnelState (tuns s ! t) = StateTypeOptimized \<and> Q s ps \<or> once_configured t Q ps"
    by (cases xs) (auto simp: once_configured_def)
next
  assume "tunnelState (tuns s ! t) = StateTypeOptimized \<and> Q s ps \<or> once_configured t Q ps"
  then show "once_configured t Q ((sel, s) # ps)" unfolding once_configured_def by (metis append_Cons append_Nil)
qed

lemma once_configured_later: "once_configured t (\<lambda>s ys. \<exists>p \<in> set ys. P p) ps \<Longrightarrow> \<exists>p \<in> set ps. P p"
  by (auto simp: once_configured_def)

lemma wait_configured:
  "snd (WaitForInit WaitConfigured t ((sel, s) # ps)) =
     (if sel \<noteq> TimerFired then Some (Inl (ErrTunnel ErrCanceled))
      else if tunnelState (tuns s ! t) \<noteq> StateTypeOptimized then snd (WaitForInit WaitConfigured t ps)
      else if usePayments (tuns s ! t) then snd (WaitForInit WaitConfirmed t ps)
      else Some (Inr (externalAddr (tuns s ! t), externalPort (tuns s ! t))))"
  by (cases sel) (simp_all add: WaitForInit_poll_def Let_def split: prod.split)

lemma wait_returns:
  assumes "\<forall>(sel, s) \<in> set ps. usePayments (tuns s ! t) = withPay"
  shows "snd (WaitForInit WaitConfigured t ps) \<noteq> None \<longleftrightarrow> (\<exists>(sel, s) \<in> set ps. sel \<noteq> TimerFired) \<or>
    once_configured t (\<lambda>s ys. withPay \<longrightarrow> (\<exists>(sel, s') \<in> set ys. paymentsConfirmed (tuns s' ! t))) ps"
  using assms
proof (induction ps)
  case (Cons p ps)
  obtain sel s where p: "p = (sel, s)" by fastforce
  from Cons.prems have "usePayments (tuns s ! t) = withPay" by (simp add: p)
  moreover have "\<exists>(sel, s') \<in> set ps. paymentsConfirmed (tuns s' ! t)"
    if "once_configured t (\<lambda>s ys. \<exists>(sel, s') \<in> set ys. paymentsConfirmed (tuns s' ! t)) ps" by (rule once_configured_later [OF that])
  moreover have "snd (WaitForInit WaitConfirmed t ps) \<noteq> None \<longleftrightarrow>
      (\<exists>(sel, s) \<in> set ps. sel \<noteq> TimerFired) \<or> (\<exists>(sel, s') \<in> set ps. paymentsConfirmed (tuns s' ! t))"
    unfolding wait_confirmed(1) by auto
  ultimately show ?case using Cons unfolding p wait_configured once_configured_Cons by (cases withPay) auto
qed simp

lemma wait_result:
  fixes ps :: "(select_case \<times> 'a tun_gateway_scheme) list"
  assumes "\<forall>(sel, s) \<in> set ps. usePayments (tuns s ! t) = withPay" "snd (WaitForInit WaitConfigured t ps) = Some (Inr (ip, port))"
  shows "once_configured t (\<lambda>s ys. \<exists>s'. (if withPay then \<exists>sel. (sel, s') \<in> set ys \<and> paymentsConfirmed (tuns s' ! t) else s' = s) \<and>
    ip = externalAddr (tuns s' ! t) \<and> port = externalPort (tuns s' ! t)) ps" (is "once_configured t ?Q ps")
proof -
  define Q where "Q = ?Q"
  have paid: "Q s ys" if "snd (WaitForInit WaitConfirmed t ys) = Some (Inr (ip, port))" withPay for s ys
    using wait_confirmed(2) [OF that(1)] that(2) by (auto simp: Q_def)
  have free: "Q s ys" if "ip = externalAddr (tuns s ! t)" "port = externalPort (tuns s ! t)" "\<not> withPay" for s ys
    using that by (auto simp: Q_def)
  have "once_configured t Q ps" using assms
    by (induction ps) (auto simp: wait_configured once_configured_Cons simp del: WaitForInit.simps(2) intro: paid free split: if_splits)
  then show ?thesis by (simp only: Q_def)
qed



end
