(* ===== verification/Node_Setup.thy ===== *)
theory Node_Setup
  imports Config_Files Tunnel_Runner
begin

text \<open>
  What a node publishes and how it starts: \<open>GenerateSharedConfig\<close> of \<open>config/config.go\<close>, and from
  \<open>cmd/node/main.go\<close> the checks of the start-up, the payment node (\<open>preparePayments\<close>), the payment
  settings of its gateway, the choice of its payment channel and the balance command. Deriving a key
  from a seed, parsing a listen address, decoding the operator's input and the packages the start-up
  calls are parameters.
\<close>

section \<open>The published configuration\<close>

text \<open>\<open>pub_of_seed\<close> is \<open>ed25519.NewKeyFromSeed\<close> followed by \<open>Public\<close>, which panics for a seed of another length.\<close>

definition shared_config :: "(bytes \<Rightarrow> bytes option) \<Rightarrow> config \<Rightarrow> tunnel_route_section list option" where
  "shared_config pub_of_seed src =
     (case (if nodePaymentsEnabled src \<and> (0 < cfgMinPricePerPacketInOut (nodePayments src) \<or> 0 < cfgMinPricePerPacketRoute (nodePayments src))
            then map_option (\<lambda>ppk. Some \<lparr>payChain = [\<lparr>pcNodeKey = ppk, MaxCapacityPerVirtualChannel = ''3'',
                     PercentFeePerVirtualChannel = 0, MinFeePerVirtualChannel = ''0''\<rparr>],
                   payJettonMaster = None, payExtraCurrencyID = 0, PricePerPacketRouteNano = cfgMinPricePerPacketRoute (nodePayments src),
                   PricePerPacketOutNano = cfgMinPricePerPacketInOut (nodePayments src)\<rparr>) (pub_of_seed (PaymentsNodeKey (nodePayments src)))
            else Some None) of
        None \<Rightarrow> None
      | Some pmt \<Rightarrow>
          (case pub_of_seed (TunnelServerKey src) of
             None \<Rightarrow> None
           | Some key \<Rightarrow> Some [\<lparr>tsKey = key, tsPayment = pmt\<rparr>]))"

definition GenerateSharedConfig ::
  "(bytes \<Rightarrow> bytes option) \<Rightarrow> tunnel_route_section list json \<Rightarrow> os \<Rightarrow> config \<Rightarrow> string \<Rightarrow> disk
   \<Rightarrow> disk \<times> (config_error + tunnel_route_section list)" where
  "GenerateSharedConfig pub_of_seed J Sys src path d =
     (case shared_config pub_of_seed src of
        None \<Rightarrow> (d, Inl PanicSeed)
      | Some cfg \<Rightarrow>
          (case SaveConfig (MarshalIndent J) Sys cfg path d of (d', Some e) \<Rightarrow> (d', Inl e) | (d', None) \<Rightarrow> (d', Inr cfg)))"

text \<open>The gateway of the node: without payments the prices stay zero.\<close>

definition node_gateway :: "config \<Rightarrow> bytes \<Rightarrow> gateway" where
  "node_gateway cfg tunKey =
     (if nodePaymentsEnabled cfg then NewGateway tunKey True (cfgMinPricePerPacketRoute (nodePayments cfg)) (cfgMinPricePerPacketInOut (nodePayments cfg))
      else NewGateway tunKey False 0 0)"

section \<open>The payment channel of a node\<close>

text \<open>
  The loop over the active channels (key of the other side, deposited amount): the requested one,
  or the last one with the largest deposit.
\<close>

primrec channel_loop :: "bytes \<Rightarrow> (bytes \<times> int) list \<Rightarrow> bytes option \<times> int \<Rightarrow> bytes option + bytes option" where
  "channel_loop ch [] best = Inr (fst best)"
| "channel_loop ch (c # cs) best =
     (if ch \<noteq> [] then (if fst c = ch then Inl (Some (fst c)) else channel_loop ch cs best)
      else channel_loop ch cs (if snd best \<le> snd c then (Some (fst c), snd c) else best))"

text \<open>
  \<open>entered\<close> is the key the operator types in when none was requested, \<open>open_ok\<close> and \<open>ready\<close> the
  answers to the deployment; the second component tells which channel was deployed.
\<close>

definition preparePaymentChannel ::
  "(bytes \<times> int) list option \<Rightarrow> bytes option \<Rightarrow> (bytes \<Rightarrow> bool) \<Rightarrow> (bytes \<Rightarrow> bool) \<Rightarrow> bytes \<Rightarrow> (go_error + bytes) \<times> bytes option" where
  "preparePaymentChannel channels_list entered open_ok ready ch =
     (case channels_list of
        None \<Rightarrow> (Inl (ErrSetup ErrListChannels), None)
      | Some cs \<Rightarrow>
          (case channel_loop ch cs (None, 0) of
             Inl (Some key) \<Rightarrow> (Inr key, None)
           | Inr (Some best) \<Rightarrow> (Inr best, None)
           | _ \<Rightarrow>
               (case (if ch = [] then entered else Some ch) of
                  None \<Rightarrow> (Inl (ErrSetup ErrChannelKey), None)
                | Some k \<Rightarrow>
                    if length k \<noteq> PublicKeySize then (Inl (ErrSetup ErrChannelKey), None)
                    else if \<not> open_ok k then (Inl (ErrSetup ErrDeploy), None)
                    else (if ready k then Inr k else Inl (ErrSetup ErrGetChannel), Some k))))"

lemma channel_loop_best:
  "channel_loop [] cs (b, m) = Inr r \<Longrightarrow>
     (r = b \<and> (\<forall>c \<in> set cs. snd c < m)) \<or> (\<exists>c \<in> set cs. r = Some (fst c) \<and> m \<le> snd c \<and> (\<forall>d \<in> set cs. snd d \<le> snd c))"
proof (induction cs arbitrary: b m)
  case (Cons c cs)
  show ?case
  proof (cases "m \<le> snd c")
    case True
    with Cons.prems have "channel_loop [] cs (Some (fst c), snd c) = Inr r" by simp
    from Cons.IH [OF this] True show ?thesis by (auto intro: less_imp_le order_trans)
  next
    case False
    with Cons.prems have "channel_loop [] cs (b, m) = Inr r" by simp
    from Cons.IH [OF this] False show ?thesis by fastforce
  qed
qed simp

text \<open>With no channel requested, an existing channel of the largest deposit is used and nothing is deployed.\<close>

lemma best_channel_chosen:
  assumes "preparePaymentChannel (Some cs) entered open_ok ready [] = (res, deployed)" "cs \<noteq> []" "\<forall>c \<in> set cs. 0 \<le> snd c"
  shows "\<exists>c \<in> set cs. res = Inr (fst c) \<and> deployed = None \<and> (\<forall>d \<in> set cs. snd d \<le> snd c)"
proof -
  have i: "\<exists>r. channel_loop [] cs best = Inr r" for best by (induction cs arbitrary: best) simp_all
  then obtain r where r: "channel_loop [] cs (None, 0) = Inr r" by blast
  from channel_loop_best [OF r] assms(2,3) obtain c where "c \<in> set cs" "r = Some (fst c)" "\<forall>d \<in> set cs. snd d \<le> snd c"
    by (metis list.set_intros(1) neq_Nil_conv not_le)
  with assms(1) r show ?thesis by (auto simp: preparePaymentChannel_def)
qed

section \<open>The payment node of a server\<close>

text \<open>
  The calls are those of a client's payment node, after the connection to the liteservers. Every
  failure ends the process with \<open>log.Fatal\<close>, so nothing is left to be released.
\<close>

definition node_pay_stages :: "bool \<Rightarrow> pay_startup \<Rightarrow> stage list" where
  "node_pay_stages online A =
     \<lparr>stOk = online, stError = ErrLiteservers, stDoes = [], stDefers = []\<rparr> # map (\<lambda>st. st\<lparr>stDefers := []\<rparr>) (payer_stages A)"

definition preparePayments :: "bool \<Rightarrow> pay_startup \<Rightarrow> run_action list \<times> startup_error option" where
  "preparePayments online A = (case run_stages (node_pay_stages online A) of (acts, _, e) \<Rightarrow> (acts, e))"

section \<open>The start-up of the node\<close>

record node_flags =
  flagConfigPath :: string
  flagPaymentNodeWith :: string
  flagGenerateShared :: string

record node_host =
  nodeOs :: os
  nodeRandom :: "nat \<Rightarrow> bytes option"
  nodeChecker :: port_checker
  nodeCPUs :: nat
  configJson :: "config json"
  sharedJson :: "tunnel_route_section list json"
  pubOfSeed :: "bytes \<Rightarrow> bytes option"
  dhtKey_ok :: bool
  ParseAddrPort :: "string \<Rightarrow> u16 option"
  StartServer_ok :: bool
  StartClient_ok :: bool
  networkConfig_ok :: bool
  dhtClient_ok :: bool
  payConnected :: bool
  payStartup :: pay_startup
  hexDecode :: "string \<Rightarrow> bytes option"
  payChannels :: "(bytes \<times> int) list option"
  payEntered :: "bytes option"
  payOpens :: "bytes \<Rightarrow> bool"
  payReady :: "bytes \<Rightarrow> bool"

datatype node_exit =
    ExitLoadConfig config_error | ExitSharedPath | ExitSharedConfig config_error | SharedGenerated
  | ExitDhtKey | ExitListenAddr | ExitSeed | ExitExternalIP | ExitServer | ExitDhtGateway | ExitNetworkConfig | ExitDhtClient
  | ExitPayments startup_error | ExitPaymentKey | ExitPaymentChannel go_error

record started_node =
  nodeThreads :: nat
  nodeAddresses :: "(bytes \<times> u16) list"
  nodeGateway :: gateway
  nodePayChannel :: "bytes option"

definition has_suffix :: "string \<Rightarrow> string \<Rightarrow> bool" where
  "has_suffix s suf \<longleftrightarrow> length suf \<le> length s \<and> drop (length s - length suf) s = suf"

text \<open>
  The address the node announces: nothing without \<open>ExternalIP\<close>, otherwise its IPv4 form with the port
  of the listen address. The check only asks whether the text is an address at all.
\<close>

definition external_address :: "(string \<Rightarrow> bytes option) \<Rightarrow> string \<Rightarrow> u16 \<Rightarrow> node_exit + (bytes \<times> u16) list" where
  "external_address parseIPv6 externalIP port =
     (if externalIP = [] then Inr []
      else case ParseIP parseIPv6 externalIP of None \<Rightarrow> Inl ExitExternalIP | Some ip \<Rightarrow> Inr [(To4 ip, port)])"

definition payment_peer :: "(string \<Rightarrow> bytes option) \<Rightarrow> string \<Rightarrow> node_exit + bytes" where
  "payment_peer decode flag =
     (if flag = [] then Inr []
      else case decode flag of None \<Rightarrow> Inl ExitPaymentKey | Some ch \<Rightarrow> if length ch \<noteq> PublicKeySize then Inl ExitPaymentKey else Inr ch)"

definition node_payments :: "node_host \<Rightarrow> node_flags \<Rightarrow> config \<Rightarrow> node_exit + bytes option" where
  "node_payments N F cfg =
     (if \<not> nodePaymentsEnabled cfg then Inr None
      else case snd (preparePayments (payConnected N) (payStartup N)) of
        Some e \<Rightarrow> Inl (ExitPayments e)
      | None \<Rightarrow>
          (case payment_peer (hexDecode N) (flagPaymentNodeWith F) of
             Inl e \<Rightarrow> Inl e
           | Inr ch \<Rightarrow>
               (case fst (preparePaymentChannel (payChannels N) (payEntered N) (payOpens N) (payReady N) ch) of
                  Inl e \<Rightarrow> Inl (ExitPaymentChannel e)
                | Inr chId \<Rightarrow> Inr (Some chId))))"

definition start_node :: "node_host \<Rightarrow> node_flags \<Rightarrow> config \<Rightarrow> node_exit + started_node" where
  "start_node N F cfg =
     (if \<not> dhtKey_ok N then Inl ExitDhtKey
      else let threads = (if TunnelThreads cfg = 0 then nodeCPUs N else TunnelThreads cfg)
      in case ParseAddrPort N (TunnelListenAddr cfg) of
        None \<Rightarrow> Inl ExitListenAddr
      | Some port \<Rightarrow>
          (case pubOfSeed N (TunnelServerKey cfg) of
             None \<Rightarrow> Inl ExitSeed
           | Some key \<Rightarrow>
               (case external_address (IPv6_text (nodeChecker N)) (ExternalIP cfg) port of
                  Inl e \<Rightarrow> Inl e
                | Inr addrs \<Rightarrow>
                    if \<not> StartServer_ok N then Inl ExitServer
                    else if \<not> StartClient_ok N then Inl ExitDhtGateway
                    else if \<not> networkConfig_ok N then Inl ExitNetworkConfig
                    else if \<not> dhtClient_ok N then Inl ExitDhtClient
                    else case node_payments N F cfg of
                      Inl e \<Rightarrow> Inl e
                    | Inr ch \<Rightarrow> Inr \<lparr>nodeThreads = threads, nodeAddresses = addrs, nodeGateway = node_gateway cfg (TunnelServerKey cfg),
                        nodePayChannel = ch\<rparr>)))"

definition node_main :: "node_host \<Rightarrow> node_flags \<Rightarrow> disk \<Rightarrow> disk \<times> (node_exit + started_node)" where
  "node_main N F d =
     (case LoadConfig (configJson N) (nodeOs N) (nodeRandom N) (nodeChecker N) (nodeCPUs N) (flagConfigPath F) d of
        (d1, Inl e) \<Rightarrow> (d1, Inl (ExitLoadConfig e))
      | (d1, Inr cfg) \<Rightarrow>
          if flagGenerateShared F \<noteq> []
          then if \<not> has_suffix (flagGenerateShared F) ''.json'' then (d1, Inl ExitSharedPath)
               else (case GenerateSharedConfig (pubOfSeed N) (sharedJson N) (nodeOs N) cfg (flagGenerateShared F) d1 of
                       (d2, Inl e) \<Rightarrow> (d2, Inl (ExitSharedConfig e))
                     | (d2, Inr _) \<Rightarrow> (d2, Inl SharedGenerated))
          else (d1, start_node N F cfg))"

text \<open>The \<open>balance\<close> and \<open>capacity\<close> commands: channels whose balance cannot be computed are left out.\<close>

definition summarized_balance :: "int option list \<Rightarrow> int" where
  "summarized_balance bs = fold (\<lambda>b amount. case b of None \<Rightarrow> amount | Some v \<Rightarrow> amount + v) bs 0"

lemma summarized_balance_sum: "summarized_balance bs = sum_list (map the (filter (\<lambda>b. b \<noteq> None) bs))"
proof -
  have "fold (\<lambda>b amount. case b of None \<Rightarrow> amount | Some v \<Rightarrow> amount + v) bs a = a + sum_list (map the (filter (\<lambda>b. b \<noteq> None) bs))" for a :: int
    by (induction bs arbitrary: a) (auto split: option.split)
  then show ?thesis by (simp add: summarized_balance_def)
qed

section \<open>Properties\<close>

text \<open>
  C10. What a node publishes is enough to use it: a client whose pool contains the published entry
  and passes the initial checks offers, for the role the node plays in its route, at least the
  price that the node's own gateway demands, so the node does not refuse to build a route because
  of the price.
\<close>

theorem published_price_accepted:
  assumes "GenerateSharedConfig pub_of_seed J Sys N path d = (d', Inr published)" "entry \<in> set published"
    and "usable_nodes cfg pool = Inr nodes" "entry \<in> set nodes"
    and "paymentConfigToSections H C g entry isOut (PaymentsEnabled cfg) = Inr si"
  shows "(if isOut then MinPricePerPacketInOut (node_gateway N key) else MinPricePerPacketRoute (node_gateway N key)) \<le> price_of si \<and>
    (\<not> isOut \<longrightarrow> snd (BuildRoute_Execute E sp adnl k rid (price_of si) ((node_gateway N key)\<lparr>sections := ss\<rparr>)) \<noteq> Some ErrLowPrice)"
proof -
  have pub: "shared_config pub_of_seed N = Some published"
    using assms(1) by (auto simp: GenerateSharedConfig_def split: option.splits prod.splits)
  have free: "tsPayment entry = None" if "\<not> PaymentsEnabled cfg" using usable_nodes_enough(4) [OF assms(3) that assms(4)] .
  have price: "(if isOut then MinPricePerPacketInOut (node_gateway N key) else MinPricePerPacketRoute (node_gateway N key)) \<le> price_of si"
    using pub assms(2,5) free
    by (auto simp: shared_config_def paymentConfigToSections_def new_payer_def price_of_def node_gateway_def NewGateway_def
          word_gt_0 split: if_splits option.splits sum.splits)
  then show ?thesis
    by (auto simp: BuildRoute_Execute_def Let_def not_less node_gateway_def NewGateway_def split: if_splits option.splits prod.splits)
qed

definition demo_node :: config where
  "demo_node = demo_config\<lparr>nodePaymentsEnabled := True, nodePayments := (nodePayments demo_config)
     \<lparr>cfgMinPricePerPacketRoute := 2, cfgMinPricePerPacketInOut := 3\<rparr>\<rparr>"

definition demo_entry :: tunnel_route_section where
  "demo_entry = \<lparr>tsKey = replicate 32 3, tsPayment = Some \<lparr>payChain = [\<lparr>pcNodeKey = replicate 32 1, MaxCapacityPerVirtualChannel = ''3'',
     PercentFeePerVirtualChannel = 0, MinFeePerVirtualChannel = ''0''\<rparr>], payJettonMaster = None, payExtraCurrencyID = 0,
     PricePerPacketRouteNano = 2, PricePerPacketOutNano = 3\<rparr>\<rparr>"

definition demo_shared_json :: "tunnel_route_section list json" where
  "demo_shared_json = \<lparr>MarshalIndent = (\<lambda>c. Some [7]), Unmarshal = (\<lambda>_. Some [demo_entry])\<rparr>"

lemma demo_shared: "shared_config Some demo_node = Some [demo_entry]"
  by (simp add: shared_config_def demo_node_def demo_config_def default_config_def demo_keys_def demo_entry_def)

theorem published_price_accepted_witness:
  "\<exists>d' si. GenerateSharedConfig Some demo_shared_json demo_os demo_node ''/node/pool.json'' no_files = (d', Inr [demo_entry]) \<and>
     paymentConfigToSections demo_setup demo_crypto (Some [1, 2]) demo_entry True True = Inr si \<and>
     MinPricePerPacketInOut (node_gateway demo_node []) \<le> price_of si"
proof -
  obtain d' where p: "GenerateSharedConfig Some demo_shared_json demo_os demo_node ''/node/pool.json'' no_files = (d', Inr [demo_entry])"
    by (simp add: GenerateSharedConfig_def demo_shared SaveConfig_def WriteFile_def ensure_dir_def Stat_def demo_os_def no_files_def demo_shared_json_def)
  have u: "usable_nodes \<lparr>TunnelSectionsNum = 1, PaymentsEnabled = True\<rparr> [demo_entry] = Inr [demo_entry]" by (simp add: usable_nodes_def)
  obtain si where c: "paymentConfigToSections demo_setup demo_crypto (Some [1, 2]) demo_entry True True = Inr si"
    by (auto simp: demo_entry_def paymentConfigToSections_def new_payer_def demo_setup_def PublicKeySize_def
        GenerateEncryptionKeys_def NewEncryptionKeys_def demo_crypto_def)
  have e: "demo_entry \<in> set [demo_entry]" by simp
  have "paymentConfigToSections demo_setup demo_crypto (Some [1, 2]) demo_entry True (PaymentsEnabled \<lparr>TunnelSectionsNum = 1, PaymentsEnabled = True\<rparr>) = Inr si"
    using c by simp
  from conjunct1 [OF published_price_accepted [OF p e u e this]] c p show ?thesis by auto
qed

lemma LoadConfig_generated:
  assumes "LoadConfig J Sys draw P numCPU path0 d = (d', Inr cfg)" "Abs Sys path0 = Some path"
    and "map_of (files d) path = None" "path \<notin> set (dirs d)" "Dir Sys path \<noteq> path"
  shows "\<exists>k. cfg\<lparr>ExternalIP := []\<rparr> = default_config k numCPU \<and> (ExternalIP cfg \<noteq> [] \<longrightarrow> checkCanSeed P = (ExternalIP cfg, True))"
proof -
  obtain d1 e where en: "ensure_dir Sys (Dir Sys path) d = (d1, e)" by fastforce
  with assms(1,2) have "e = None" by (cases e) (auto simp: LoadConfig_def)
  note en = en [unfolded this]
  have "map_of (files d1) path = None" "path \<notin> set (dirs d1)"
    using en assms(3-5) by (auto simp: ensure_dir_def split: stat_result.splits if_splits)
  then have "Stat Sys path d1 = StatMissing" using assms(1,2) en by (auto simp: Stat_def LoadConfig_def split: if_splits)
  from LoadConfig_new [OF assms(1,2) en this] show ?thesis by (auto split: option.splits prod.splits)
qed

text \<open>The address of a generated configuration is announced in its IPv4 form.\<close>

lemma external_address_seen:
  assumes "ext \<noteq> [] \<longrightarrow> checkCanSeed P = (ext, True)"
  shows "\<exists>addrs. (\<forall>p6. external_address p6 ext port = Inr addrs) \<and>
    (addrs = [] \<or> (\<exists>ip. length ip = 4 \<and> checkCanSeed P = (IP_String ip, True) \<and> addrs = [(ip, port)]))"
proof (cases "ext = []")
  case True
  then show ?thesis by (simp add: external_address_def)
next
  case False
  with assms have s: "checkCanSeed P = (ext, True)" by simp
  from checkCanSeed_IPv4 [OF s] obtain ip where ip: "length ip = 4" "ext = IP_String ip" by blast
  have "external_address p6 ext port = Inr [(ip, port)]" for p6
    using False ip ParseIP_String [OF ip(1), of p6] by (simp add: external_address_def To4_def)
  with s ip show ?thesis by blast
qed


definition demo_node_host :: node_host where
  "demo_node_host = \<lparr>nodeOs = demo_os, nodeRandom = demo_draw, nodeChecker = demo_checker, nodeCPUs = 4, configJson = demo_json,
     sharedJson = demo_shared_json, pubOfSeed = Some, dhtKey_ok = True, ParseAddrPort = (\<lambda>_. Some 17330), StartServer_ok = True,
     StartClient_ok = True, networkConfig_ok = True, dhtClient_ok = True, payConnected = True, payStartup = demo_pay_startup,
     hexDecode = (\<lambda>_. None), payChannels = Some [], payEntered = None, payOpens = (\<lambda>_. False), payReady = (\<lambda>_. False)\<rparr>"

definition demo_flags :: node_flags where
  "demo_flags = \<lparr>flagConfigPath = ''/node/config.json'', flagPaymentNodeWith = [], flagGenerateShared = []\<rparr>"


end
