(* ===== verification/Library_Start.thy ===== *)
theory Library_Start
  imports Node_Setup
begin

text \<open>
  The start of the C library: \<open>PrepareTunnel\<close> of \<open>cmd/lib/lib.go\<close>, which reads or generates the client's
  configuration, reads the pool of nodes, runs the tunnel in the background and waits for its first
  update. The goroutine that consumes the events of \<open>RunTunnel\<close> and the caller that waits share two
  channels and the pointer to the tunnel; their steps are interleaved. Every line of the log goes to
  a callback of the C program, with its level as a number.
\<close>

section \<open>The log callback\<close>

text \<open>
  The console writer puts the level, as one digit, and a blank in front of a line; the writer of the
  library takes them off again. The result is the message and the level that the callback gets, and
  the number of bytes that \<open>Write\<close> reports.
\<close>

definition FormatLevel :: "string \<Rightarrow> bytes" where
  "FormatLevel i =
     (if i = ''fatal'' then [0x30] else if i = ''error'' then [0x31] else if i = ''warn'' then [0x32]
      else if i = ''info'' then [0x33] else [0x34])"

definition LogWriter_Write :: "bytes \<Rightarrow> ((bytes \<times> int) \<times> nat) option" where
  "LogWriter_Write p = (if length p < 2 then None else Some ((drop 2 p, uint (p ! 0 - 0x30)), length p))"

text \<open>A formatted line arrives whole, with a level from 0 (fatal) to 4, and is reported as written.\<close>

lemma log_line_delivered:
  "\<exists>lvl. LogWriter_Write (FormatLevel i @ 0x20 # msg) = Some ((msg, lvl), length msg + 2) \<and> 0 \<le> lvl \<and> lvl \<le> 4 \<and>
     (lvl = 0 \<longleftrightarrow> i = ''fatal'')"
  by (auto simp: LogWriter_Write_def FormatLevel_def)

section \<open>The configuration of the client\<close>

datatype prepared = Exited nat | NoTunnel | Prepared client_file "tunnel_route_section list"

text \<open>
  \<open>net_ok\<close> tells whether the network configuration that the caller passes can be parsed. \<open>log.Fatal\<close> and a
  failed generation end the process with the code 1, a generated configuration with the code 0.
\<close>

definition PrepareTunnel_load ::
  "client_file json \<Rightarrow> tunnel_route_section list json \<Rightarrow> bool \<Rightarrow> os \<Rightarrow> (nat \<Rightarrow> bytes option) \<Rightarrow> nat \<Rightarrow> string \<Rightarrow> disk \<Rightarrow> disk \<times> prepared" where
  "PrepareTunnel_load J JS net_ok Sys draw numCPU path d =
     (case ReadFile Sys path d of
        Inl e \<Rightarrow>
          if e = ErrNotExist
          then (case GenerateClientConfig draw numCPU of
                  Inl _ \<Rightarrow> (d, Exited 1)
                | Inr cfg \<Rightarrow> (case SaveConfig (MarshalIndent J) Sys cfg path d of
                                (d', Some _) \<Rightarrow> (d', Exited 1) | (d', None) \<Rightarrow> (d', Exited 0)))
          else (d, Exited 1)
      | Inr data \<Rightarrow>
          (d, case Unmarshal J data of
                None \<Rightarrow> Exited 1
              | Some cfg \<Rightarrow>
                  if NodesPoolConfigPath cfg = [] then Exited 1
                  else case ReadFile Sys (NodesPoolConfigPath cfg) d of
                    Inl _ \<Rightarrow> Exited 1
                  | Inr pdata \<Rightarrow>
                      (case Unmarshal JS pdata of
                         None \<Rightarrow> Exited 1
                       | Some pool \<Rightarrow> if net_ok then Prepared cfg pool else NoTunnel)))"

section \<open>The first update\<close>

text \<open>
  Where the consumer is: waiting for an event, before \<open>once.Do\<close> with a tunnel whose handler is set, or
  before the store to \<open>indexMatch[0]\<close>.
\<close>

datatype consumer = Receiving | Offering ptr bytes u16 | Storing ptr | ConsumerEnded

datatype caller = Waiting | Returned nat "32 word" u16 | CallerPanics

record lib =
  libEvents :: "run_event list"
  libConsumer :: consumer
  libOnce :: bool
  libInitUpd :: "(bytes \<times> u16) option"
  libIndex :: "ptr option"
  libHandlers :: "ptr list"
  libCaller :: caller
  libExited :: bool

definition lib_start :: "run_event list \<Rightarrow> lib" where
  "lib_start evs = \<lparr>libEvents = evs, libConsumer = Receiving, libOnce = False, libInitUpd = None, libIndex = None, libHandlers = [],
     libCaller = Waiting, libExited = False\<rparr>"

text \<open>\<open>binary.BigEndian.Uint32(upd.ExtIP.To4())\<close>.\<close>

definition be_u32 :: "bytes \<Rightarrow> 32 word option" where
  "be_u32 bs = (if length bs < 4 then None else Some (get_le (rev (take 4 bs))))"

fun consume :: "run_event \<Rightarrow> lib \<Rightarrow> lib" where
  "consume StoppedEvent l = l\<lparr>libConsumer := ConsumerEnded\<rparr>"
| "consume (UpdatedEvent t ip port) l = l\<lparr>libHandlers := t # libHandlers l, libConsumer := Offering t ip port\<rparr>"
| "consume (ConfigurationErrorEvent e) l = l"
| "consume (MsgEvent m) l = l"
| "consume (StartFailed e) l = l\<lparr>libExited := True\<rparr>"
| "consume (PoolRejected e) l = l\<lparr>libExited := True\<rparr>"
| "consume (RouteFailed e) l = l\<lparr>libExited := True\<rparr>"

datatype lib_action = Receive | Offer | Store | Return

text \<open>One step of one of the two goroutines, if it is at that point and does not have to wait.\<close>

definition lib_step :: "lib_action \<Rightarrow> lib \<Rightarrow> lib option" where
  "lib_step a l =
     (if libExited l then None
      else case a of
        Receive \<Rightarrow> (case (libConsumer l, libEvents l) of (Receiving, e # es) \<Rightarrow> Some (consume e (l\<lparr>libEvents := es\<rparr>)) | _ \<Rightarrow> None)
      | Offer \<Rightarrow>
          (case libConsumer l of
             Offering t ip port \<Rightarrow>
               if libOnce l then Some (l\<lparr>libConsumer := Storing t\<rparr>)
               else if libInitUpd l \<noteq> None then None
               else Some (l\<lparr>libOnce := True, libInitUpd := Some (ip, port), libConsumer := Storing t\<rparr>)
           | _ \<Rightarrow> None)
      | Store \<Rightarrow> (case libConsumer l of Storing t \<Rightarrow> Some (l\<lparr>libIndex := Some t, libConsumer := Receiving\<rparr>) | _ \<Rightarrow> None)
      | Return \<Rightarrow>
          (case (libCaller l, libInitUpd l) of
             (Waiting, Some (ip, port)) \<Rightarrow>
               Some (l\<lparr>libInitUpd := None, libCaller := (case be_u32 (To4 ip) of None \<Rightarrow> CallerPanics | Some w \<Rightarrow> Returned 1 w port)\<rparr>)
           | _ \<Rightarrow> None))"

fun lib_run :: "lib_action list \<Rightarrow> lib \<Rightarrow> lib option" where
  "lib_run [] l = Some l"
| "lib_run (a # as) l = Option.bind (lib_step a l) (lib_run as)"

section \<open>What the caller may rely on\<close>

definition lib_inv :: "run_event list \<Rightarrow> lib \<Rightarrow> bool" where
  "lib_inv evs l \<longleftrightarrow> set (libEvents l) \<subseteq> set evs \<and>
     (\<not> libOnce l \<longrightarrow> libInitUpd l = None \<and> libCaller l = Waiting) \<and>
     (libOnce l \<longrightarrow> libIndex l \<noteq> None \<or> (\<exists>t. libConsumer l = Storing t)) \<and>
     (\<forall>t. libIndex l = Some t \<longrightarrow> t \<in> set (libHandlers l)) \<and>
     (\<forall>ip port. libInitUpd l = Some (ip, port) \<longrightarrow> (\<exists>t. UpdatedEvent t ip port \<in> set evs)) \<and>
     (\<forall>i w port. libCaller l = Returned i w port \<longrightarrow> i = 1 \<and> (\<exists>t ip. UpdatedEvent t ip port \<in> set evs \<and> be_u32 (To4 ip) = Some w)) \<and>
     (case libConsumer l of
        Offering t ip port \<Rightarrow> t \<in> set (libHandlers l) \<and> UpdatedEvent t ip port \<in> set evs
      | Storing t \<Rightarrow> t \<in> set (libHandlers l) \<and> libOnce l
      | _ \<Rightarrow> True)"

lemma lib_inv_start: "lib_inv evs (lib_start evs)"
  by (simp add: lib_inv_def lib_start_def)

lemma lib_inv_consume:
  assumes "lib_inv evs (l\<lparr>libEvents := e # es\<rparr>)" "libConsumer l = Receiving"
  shows "lib_inv evs (consume e (l\<lparr>libEvents := es\<rparr>))"
  using assms by (cases e) (auto simp: lib_inv_def)

lemma lib_inv_offer:
  assumes "lib_inv evs l" "lib_step Offer l = Some l'"
  shows "lib_inv evs l'"
  using assms by (auto simp: lib_inv_def lib_step_def split: consumer.splits if_splits)

lemma lib_inv_return:
  assumes "lib_inv evs l" "lib_step Return l = Some l'"
  shows "lib_inv evs l'"
proof -
  from assms(2) obtain ip port where w: "libCaller l = Waiting" "libInitUpd l = Some (ip, port)"
    and l': "l' = l\<lparr>libInitUpd := None, libCaller := (case be_u32 (To4 ip) of None \<Rightarrow> CallerPanics | Some w \<Rightarrow> Returned 1 w port)\<rparr>"
    by (auto simp: lib_step_def split: caller.splits option.splits if_splits)
  from assms(1) w obtain t where "UpdatedEvent t ip port \<in> set evs" "libOnce l" by (auto simp: lib_inv_def)
  with assms(1) show ?thesis unfolding l' by (cases "be_u32 (To4 ip)") (auto simp: lib_inv_def split: consumer.splits)
qed

lemma lib_inv_step:
  assumes "lib_inv evs l" "lib_step a l = Some l'"
  shows "lib_inv evs l'"
proof (cases a)
  case Receive
  with assms(2) obtain e es where e: "libConsumer l = Receiving" "libEvents l = e # es" "l' = consume e (l\<lparr>libEvents := es\<rparr>)"
    by (auto simp: lib_step_def split: consumer.splits list.splits if_splits)
  have "l\<lparr>libEvents := e # es\<rparr> = l" using e(2) by simp
  with assms(1) lib_inv_consume [where l = l and es = es and e = e] e show ?thesis by simp
next
  case Store
  with assms show ?thesis by (auto simp: lib_inv_def lib_step_def split: consumer.splits if_splits)
qed (use assms lib_inv_offer lib_inv_return in blast)+

lemma lib_inv_run: "lib_inv evs l \<Longrightarrow> lib_run as l = Some l' \<Longrightarrow> lib_inv evs l'"
  by (induction as arbitrary: l) (auto simp: bind_eq_Some_conv dest: lib_inv_step)

section \<open>Properties\<close>

text \<open>
  C25. However the two goroutines interleave: the caller gets index 1 and the address of an update that
  the tunnel really announced, every tunnel the library uses has its address handler set before, the
  consumer never has to wait on the channel of the first update, and when the caller has returned and
  no tunnel is stored yet, the consumer is just about to store one.
\<close>

theorem library_start_invariant:
  assumes "lib_run as (lib_start evs) = Some l"
  shows "(\<forall>t. libIndex l = Some t \<longrightarrow> t \<in> set (libHandlers l)) \<and>
    (\<forall>i w port. libCaller l = Returned i w port \<longrightarrow> i = 1 \<and> (\<exists>t ip. UpdatedEvent t ip port \<in> set evs \<and> be_u32 (To4 ip) = Some w) \<and>
       (libIndex l = None \<longrightarrow> (\<exists>t. libConsumer l = Storing t))) \<and>
    (\<forall>t ip port. libConsumer l = Offering t ip port \<longrightarrow> \<not> libExited l \<longrightarrow> lib_step Offer l \<noteq> None)"
proof -
  have inv: "lib_inv evs l" by (rule lib_inv_run [OF lib_inv_start assms])
  then have "libOnce l" if "libCaller l = Returned i w port" for i w port using that by (auto simp: lib_inv_def)
  with inv show ?thesis by (auto simp: lib_inv_def lib_step_def)
qed

theorem library_start_invariant_witness:
  "\<exists>l. lib_run [Receive, Offer, Return] (lib_start [UpdatedEvent 5 [10, 0, 0, 7] 80]) = Some l \<and> libIndex l = None \<and>
     libCaller l = Returned 1 0x0A000007 80 \<and> (\<exists>t. libConsumer l = Storing t)"
proof -
  let ?e = "[UpdatedEvent 5 [10, 0, 0, 7] 80]"
  obtain l where r: "lib_run [Receive, Offer, Return] (lib_start ?e) = Some l" and l: "libIndex l = None" "libCaller l = Returned 1 0x0A000007 80"
    by (simp add: lib_step_def lib_start_def To4_def be_u32_def get_le_def)
  from library_start_invariant [OF r] l show ?thesis using r by blast
qed

text \<open>
  The tunnel is announced before it can be used: with the first update of the tunnel, whatever
  tunnel and address it brings, the library can return its index while no tunnel is stored under it,
  and then writing one packet to this index dereferences a nil tunnel, a panic of the whole process.
  The store follows the send that wakes the caller.
\<close>

lemma library_nil_window:
  assumes "length ip = 4"
  shows "\<exists>l w. lib_run [Receive, Offer, Return] (lib_start (UpdatedEvent t ip port # evs)) = Some l \<and> libCaller l = Returned 1 w port \<and>
    (\<forall>C T E buf dst p sz s. parseSockAddr buf = Inr (dst, p) \<longrightarrow> 18 \<le> length buf \<longrightarrow>
       sz = unat (buf ! 16) * 256 + unat (buf ! 17) \<longrightarrow> 0 < sz \<longrightarrow> 18 + sz \<le> length buf \<longrightarrow>
       WriteTunnel C T E [libIndex l] 1 buf 1 (s :: 'a tun_gateway_scheme) = (s, Inl PanicNil)) \<and>
    lib_run [Receive, Offer, Store, Return] (lib_start (UpdatedEvent t ip port # evs)) = Some (l\<lparr>libIndex := Some t, libConsumer := Receiving\<rparr>)"
proof -
  obtain w where w: "be_u32 (To4 ip) = Some w" using assms by (simp add: be_u32_def To4_def)
  obtain l where r: "lib_run [Receive, Offer, Return] (lib_start (UpdatedEvent t ip port # evs)) = Some l"
    and l: "libCaller l = Returned 1 w port" "libIndex l = None"
      "lib_run [Receive, Offer, Store, Return] (lib_start (UpdatedEvent t ip port # evs)) = Some (l\<lparr>libIndex := Some t, libConsumer := Receiving\<rparr>)"
    using w by (simp add: lib_step_def lib_start_def)
  have "WriteTunnel C T E [libIndex l] 1 buf 1 s = (s, Inl PanicNil)"
    if "parseSockAddr buf = Inr (dst, p)" "18 \<le> length buf" "sz = unat (buf ! 16) * 256 + unat (buf ! 17)" "0 < sz" "18 + sz \<le> length buf"
    for C T E buf dst p sz and s :: "'a tun_gateway_scheme"
  proof -
    have "take sz (drop 18 buf) \<noteq> []" using that(4,5) by simp
    then have "write_loop C T E None buf (Suc 0) 0 s = (s, Inl PanicNil)"
      using that(1,2,5) by (simp add: tunnel_write_def is_panic_def flip: that(3))
    then show ?thesis by (simp only: WriteTunnel_def l(2)) simp
  qed
  with r l(1,3) show ?thesis by (intro exI [of _ l] exI [of _ w] conjI allI impI)
qed

definition demo_frame :: bytes where
  "demo_frame = [2, 0, 0, 80, 10, 0, 0, 7, 0, 0, 0, 0, 0, 0, 0, 0, 0, 1, 42]"

lemma library_nil_window_witness:
  "\<exists>(l :: lib) w. libCaller l = Returned 1 w 80 \<and> WriteTunnel demo_crypto demo_tl2 demo_env [libIndex l] 1 demo_frame 1 tun_gw = (tun_gw, Inl PanicNil)"
proof -
  have ip: "length ([10, 0, 0, 7] :: bytes) = 4" by simp
  obtain l :: lib and w where l: "libCaller l = Returned 1 w 80"
    and wr: "\<forall>C T E buf dst p sz s. parseSockAddr buf = Inr (dst, p) \<longrightarrow> 18 \<le> length buf \<longrightarrow>
       sz = unat (buf ! 16) * 256 + unat (buf ! 17) \<longrightarrow> 0 < sz \<longrightarrow> 18 + sz \<le> length buf \<longrightarrow>
       WriteTunnel C T E [libIndex l] 1 buf 1 (s :: tun_gateway) = (s, Inl PanicNil)"
    using library_nil_window [where 'a = unit, OF ip, of 5 80 "[]"] by blast
  have "WriteTunnel demo_crypto demo_tl2 demo_env [libIndex l] 1 demo_frame 1 tun_gw = (tun_gw, Inl PanicNil)"
    by (rule wr [rule_format, of demo_frame "[10, 0, 0, 7]" 80 1]) (simp_all add: demo_frame_def parseSockAddr_def)
  with l show ?thesis by blast
qed

lemma SaveConfig_read:
  assumes "SaveConfig marshal Sys cfg path d = (d', None)" "\<not> read_fails Sys path"
  shows "\<exists>data. marshal cfg = Some data \<and> ReadFile Sys path d' = Inr data"
  using assms by (auto simp: SaveConfig_def WriteFile_def ReadFile_def update_conv split: prod.splits option.splits write_outcome.splits)

text \<open>
  The configuration that the library generates itself names no pool: it is written, the process ends
  with success, and the next start refuses it until the operator has completed it.
\<close>

lemma generated_client_config_refused:
  assumes "json_law J" "\<not> read_fails Sys path" "PrepareTunnel_load J JS net_ok Sys draw numCPU path d = (d', Exited 0)"
  shows "PrepareTunnel_load J JS net_ok' Sys draw' numCPU' path d' = (d', Exited 1)"
proof -
  from assms(3) obtain cfg where g: "GenerateClientConfig draw numCPU = Inr cfg" and "SaveConfig (MarshalIndent J) Sys cfg path d = (d', None)"
    by (auto simp: PrepareTunnel_load_def split: sum.splits option.splits if_splits prod.splits)
  from SaveConfig_read [OF this(2) assms(2)] obtain data where "MarshalIndent J cfg = Some data" "ReadFile Sys path d' = Inr data" by blast
  moreover from g have "NodesPoolConfigPath cfg = []" by (auto simp: GenerateClientConfig_def split: sum.splits)
  ultimately show ?thesis using assms(1) by (simp add: PrepareTunnel_load_def json_law_def)
qed

text \<open>
  What a node publishes is what a client of the library starts with: when the client's
  configuration names the pool file that \<open>GenerateSharedConfig\<close> wrote, the pool is read back entry by entry
  and the tunnel is run with it; every entry has the node's own key, and no price unless the node
  takes payments.
\<close>

lemma published_pool_read:
  assumes "json_law JS" "GenerateSharedConfig pub JS Sys src pool_path d = (d', Inr pool)"
    and "ReadFile Sys path d' = Inr data" "Unmarshal J data = Some cfg" "NodesPoolConfigPath cfg = pool_path" "pool_path \<noteq> []"
    and "\<not> read_fails Sys pool_path"
  shows "PrepareTunnel_load J JS True Sys draw numCPU path d' = (d', Prepared cfg pool) \<and>
    (\<forall>entry \<in> set pool. pub (TunnelServerKey src) = Some (tsKey entry) \<and> (tsPayment entry \<noteq> None \<longrightarrow> nodePaymentsEnabled src))"
proof -
  from assms(2) have sh: "shared_config pub src = Some pool" and sv: "SaveConfig (MarshalIndent JS) Sys pool pool_path d = (d', None)"
    by (auto simp: GenerateSharedConfig_def split: option.splits prod.splits)
  from SaveConfig_read [OF sv assms(7)] obtain pdata where "MarshalIndent JS pool = Some pdata" "ReadFile Sys pool_path d' = Inr pdata" by blast
  moreover from sh have "\<forall>entry \<in> set pool. pub (TunnelServerKey src) = Some (tsKey entry) \<and> (tsPayment entry \<noteq> None \<longrightarrow> nodePaymentsEnabled src)"
    by (auto simp: shared_config_def split: option.splits if_splits)
  ultimately show ?thesis using assms by (simp add: PrepareTunnel_load_def json_law_def)
qed

definition demo_client :: client_file where
  "demo_client = \<lparr>TunnelSectionsNum = 1, PaymentsEnabled = True, clientTunnelServerKey = [], clientTunnelThreads = 4, NodesPoolConfigPath = ''/node/pool.json'',
     clientPayments = payments_client_config.truncate (nodePayments demo_config)\<rparr>"

definition demo_client_json :: "client_file json" where
  "demo_client_json = \<lparr>MarshalIndent = (\<lambda>c. Some [9]), Unmarshal = (\<lambda>_. Some demo_client)\<rparr>"

definition entry_json :: "tunnel_route_section list json" where
  "entry_json = \<lparr>MarshalIndent = (\<lambda>c. if c = [demo_entry] then Some [7] else None), Unmarshal = (\<lambda>_. Some [demo_entry])\<rparr>"

lemma published_pool_read_witness:
  "\<exists>d'. GenerateSharedConfig Some entry_json demo_os demo_node ''/node/pool.json'' \<lparr>files = [(''c'', [1])], dirs = []\<rparr> = (d', Inr [demo_entry]) \<and>
     PrepareTunnel_load demo_client_json entry_json True demo_os demo_draw 4 ''c'' d' = (d', Prepared demo_client [demo_entry])"
proof -
  let ?d = "\<lparr>files = [(''c'', [1])], dirs = []\<rparr> :: disk"
  have j: "json_law entry_json" by (simp add: json_law_def entry_json_def)
  obtain d' where g: "GenerateSharedConfig Some entry_json demo_os demo_node ''/node/pool.json'' ?d = (d', Inr [demo_entry])"
    and c: "ReadFile demo_os ''c'' d' = Inr [1]"
    by (simp add: GenerateSharedConfig_def demo_shared SaveConfig_def WriteFile_def ReadFile_def ensure_dir_def Stat_def demo_os_def entry_json_def)
  have "Unmarshal demo_client_json [1] = Some demo_client" "NodesPoolConfigPath demo_client = ''/node/pool.json''" "\<not> read_fails demo_os ''/node/pool.json''"
    by (simp_all add: demo_client_json_def demo_client_def demo_os_def)
  from published_pool_read [OF j g c this(1,2) _ this(3)] g show ?thesis by simp
qed

end
