(* ===== verification/Overlay_Dht.thy ===== *)
theory Overlay_Dht
  imports Tunnel_Prelude
begin

text \<open>
  How a gateway announces itself and finds other tunnel nodes: \<open>tunnel/dht.go\<close>. The DHT client, the
  hash of the overlay key, the signed overlay node and \<open>sort.Slice\<close> (which need not be stable) are
  parameters.
\<close>

section \<open>Model\<close>

datatype node_id = PublicKeyED25519 bytes | OtherKey bytes

record overlay_node =
  nodeID :: node_id
  nodeVersion :: u32 \<comment> \<open>an int32, kept as its bits\<close>

text \<open>The answer of \<open>FindOverlayNodes\<close>: another error, not found, or a list.\<close>

datatype overlay_found = FindFailed | ValueNotFound | FoundNodes "overlay_node list"

record dht_host =
  unix_now :: int
  store_address :: "nat \<times> bool" \<comment> \<open>copies stored, and whether there was an error\<close>
  overlay_hash :: "bytes \<Rightarrow> bytes option"
  FindOverlayNodes :: "bytes \<Rightarrow> overlay_found"
  NewNode :: "bytes \<Rightarrow> (bytes \<times> u32) option" \<comment> \<open>public key and version of the own entry\<close>
  store_overlay_ok :: "bytes \<Rightarrow> overlay_node list \<Rightarrow> bool"
  sort_slice :: "overlay_node list \<Rightarrow> overlay_node list"

definition payment_node_id :: "bytes \<Rightarrow> bytes" where
  "payment_node_id paymentNode = (if paymentNode = [] then replicate 32 0 else paymentNode)"

definition found_list :: "overlay_found \<Rightarrow> overlay_node list" where
  "found_list f = (case f of FoundNodes ns \<Rightarrow> ns | _ \<Rightarrow> [])"

text \<open>An entry is kept when its version is later than \<open>ttl\<close> seconds ago, as \<open>uint32\<close> values.\<close>

definition up_to_date :: "int \<Rightarrow> int \<Rightarrow> overlay_node \<Rightarrow> bool" where
  "up_to_date tm ttl n \<longleftrightarrow> (word_of_int (tm - ttl) :: u32) < nodeVersion n"

text \<open>The loop over the found list: it stops at the node's own entry, which it replaces.\<close>

primrec refresh_loop :: "(overlay_node \<Rightarrow> bool) \<Rightarrow> overlay_node \<Rightarrow> overlay_node list \<Rightarrow> overlay_node list \<times> bool" where
  "refresh_loop keep node [] = ([], False)"
| "refresh_loop keep node (n # ns) =
     (if nodeID n = nodeID node then ([node], True)
      else case refresh_loop keep node ns of (l, refreshed) \<Rightarrow> (if keep n then n # l else l, refreshed))"

definition merge_nodes ::
  "(overlay_node list \<Rightarrow> overlay_node list) \<Rightarrow> (overlay_node \<Rightarrow> bool) \<Rightarrow> overlay_node \<Rightarrow> overlay_node list \<Rightarrow> overlay_node list" where
  "merge_nodes srt keep node ns =
     (case refresh_loop keep node ns of (l, refreshed) \<Rightarrow>
        if refreshed then l
        else if l = [] then [node]
        else if 5 \<le> length l then (srt l)[0 := node]
        else l @ [node])"

text \<open>The result is what was stored under which key, if anything, and the error.\<close>

definition updateDHT :: "dht_host \<Rightarrow> bytes \<Rightarrow> int \<Rightarrow> (bytes \<times> overlay_node list) option \<times> go_error option" where
  "updateDHT D paymentNode ttlSeconds =
     (if snd (store_address D) \<and> fst (store_address D) = 0 then (None, Some (ErrSetup ErrStoreAddress))
      else case overlay_hash D (payment_node_id paymentNode) of
        None \<Rightarrow> (None, Some ErrSerialize)
      | Some overlayKey \<Rightarrow>
          if FindOverlayNodes D overlayKey = FindFailed then (None, Some (ErrSetup ErrFindOverlay))
          else case NewNode D overlayKey of
            None \<Rightarrow> (None, Some (ErrSetup ErrNewNode))
          | Some (key, version) \<Rightarrow>
              let node = \<lparr>nodeID = PublicKeyED25519 key, nodeVersion = version\<rparr>;
                  l = merge_nodes (sort_slice D) (up_to_date (unix_now D) ttlSeconds) node (found_list (FindOverlayNodes D overlayKey))
              in if store_overlay_ok D overlayKey l then (Some (overlayKey, l), None) else (None, Some (ErrSetup ErrStoreOverlay)))"

definition DiscoverNodes :: "dht_host \<Rightarrow> bytes \<Rightarrow> go_error + bytes list" where
  "DiscoverNodes D paymentNode =
     (case overlay_hash D (payment_node_id paymentNode) of
        None \<Rightarrow> Inl ErrSerialize
      | Some overlayKey \<Rightarrow>
          (case FindOverlayNodes D overlayKey of
             FindFailed \<Rightarrow> Inl (ErrSetup ErrFindOverlay)
           | ValueNotFound \<Rightarrow> Inr []
           | FoundNodes ns \<Rightarrow> Inr (List.map_filter (\<lambda>n. case nodeID n of PublicKeyED25519 k \<Rightarrow> Some k | OtherKey _ \<Rightarrow> None) ns)))"

section \<open>Merging\<close>

lemma refresh_loop_absent:
  "nodeID node \<notin> nodeID ` set ns \<Longrightarrow> refresh_loop keep node ns = (filter keep ns, False)"
  by (induction ns) auto

lemma refresh_loop_present:
  "nodeID node \<notin> nodeID ` set pre \<Longrightarrow> nodeID n = nodeID node \<Longrightarrow>
     refresh_loop keep node (pre @ n # post) = (filter keep pre @ [node], True)"
  by (induction pre) auto

text \<open>Both cases at once: the entries before the node's own entry, or all of them.\<close>

lemma own_entry_cases:
  obtains (absent) "nodeID node \<notin> nodeID ` set ns"
  | (present) pre n post where "ns = pre @ n # post" "nodeID n = nodeID node" "nodeID node \<notin> nodeID ` set pre"
proof (cases "nodeID node \<in> nodeID ` set ns")
  case True
  then obtain n0 where "n0 \<in> set ns" "nodeID n0 = nodeID node" by (metis imageE)
  then have "\<exists>x \<in> set ns. nodeID x = nodeID node" by blast
  from split_list_first_prop [OF this] obtain pre n post where "ns = pre @ n # post" "nodeID n = nodeID node"
      "\<forall>x \<in> set pre. nodeID x \<noteq> nodeID node" by blast
  then show thesis using present by (metis imageE)
qed (rule absent)

text \<open>A sort only reorders, and puts a node of least version (as an \<open>int32\<close>) first.\<close>

definition sorts :: "(overlay_node list \<Rightarrow> overlay_node list) \<Rightarrow> bool" where
  "sorts srt \<longleftrightarrow> (\<forall>l. length (srt l) = length l \<and> set (srt l) = set l \<and> (distinct (map nodeID l) \<longrightarrow> distinct (map nodeID (srt l))) \<and>
     (l \<noteq> [] \<longrightarrow> (\<forall>n \<in> set l. (sint (nodeVersion (hd (srt l))) \<le> sint (nodeVersion n)))))"

text \<open>The list after merging: what is forgotten is the tail behind the own entry, or the oldest entry of a full list.\<close>

lemma merge_nodes_result:
  fixes keep :: "overlay_node \<Rightarrow> bool"
  assumes "sorts srt" "nodeID node \<notin> nodeID ` set pre" "distinct (map nodeID pre)"
    and "ns = pre \<or> (\<exists>n post. ns = pre @ n # post \<and> nodeID n = nodeID node)"
  defines "l \<equiv> merge_nodes srt keep node ns" and "fresh \<equiv> filter keep pre"
  shows "node \<in> set l" "set l \<subseteq> insert node (set fresh)" "distinct (map nodeID l)"
    "ns = pre \<Longrightarrow> length l = (if length fresh < 5 then Suc (length fresh) else length fresh)"
    "ns = pre \<Longrightarrow> length fresh < 5 \<Longrightarrow> set l = insert node (set fresh)"
proof -
  have nf: "nodeID node \<notin> nodeID ` set fresh" using assms(2) by (auto simp: fresh_def)
  have df: "distinct (map nodeID fresh)" using assms(3) by (simp add: fresh_def distinct_map_filter)
  have all: "node \<in> set l \<and> set l \<subseteq> insert node (set fresh) \<and> distinct (map nodeID l) \<and>
    (ns = pre \<longrightarrow> length l = (if length fresh < 5 then Suc (length fresh) else length fresh) \<and> (length fresh < 5 \<longrightarrow> set l = insert node (set fresh)))"
  proof (cases "ns = pre")
    case True
    then have r: "refresh_loop keep node ns = (fresh, False)" using refresh_loop_absent [OF assms(2)] by (simp add: fresh_def)
    show ?thesis
    proof (cases "length fresh < 5")
      case short: True
      then have "l = (if fresh = [] then [node] else fresh @ [node])" using r by (simp add: l_def merge_nodes_def)
      then have "l = fresh @ [node]" by (cases fresh) simp_all
      then show ?thesis using nf df short by simp
    next
      case False
      then have ne: "fresh \<noteq> []" by auto
      have s: "length (srt fresh) = length fresh" "set (srt fresh) = set fresh" "distinct (map nodeID (srt fresh))"
        using assms(1) df by (simp_all add: sorts_def)
      have l: "l = (srt fresh)[0 := node]" using r ne False by (simp add: l_def merge_nodes_def)
      obtain x xs where x: "srt fresh = x # xs" using s(1) ne by (cases "srt fresh") auto
      then have "l = node # xs" by (simp add: l)
      moreover have "set xs \<subseteq> set fresh" using s(2) x by auto
      moreover have "length xs = length fresh - 1" using s(1) x by simp
      ultimately show ?thesis using s(3) x nf False by auto
    qed
  next
    case False
    then obtain n post where "ns = pre @ n # post" "nodeID n = nodeID node" using assms(4) by blast
    then have "l = fresh @ [node]" using refresh_loop_present [OF assms(2), of n keep post] by (simp add: l_def merge_nodes_def fresh_def)
    then show ?thesis using nf df False by auto
  qed
  then show "node \<in> set l" "set l \<subseteq> insert node (set fresh)" "distinct (map nodeID l)"
    "ns = pre \<Longrightarrow> length l = (if length fresh < 5 then Suc (length fresh) else length fresh)"
    "ns = pre \<Longrightarrow> length fresh < 5 \<Longrightarrow> set l = insert node (set fresh)" by blast+
qed

section \<open>Properties\<close>


text \<open>A gateway that finds a full list of which one entry is outdated.\<close>

definition demo_dht :: dht_host where
  "demo_dht = \<lparr>unix_now = 1000, store_address = (3, False), overlay_hash = (\<lambda>k. Some k),
     FindOverlayNodes = (\<lambda>_. FoundNodes [\<lparr>nodeID = PublicKeyED25519 [1], nodeVersion = 950\<rparr>, \<lparr>nodeID = OtherKey [2], nodeVersion = 100\<rparr>]),
     NewNode = (\<lambda>_. Some ([7], 1000)), store_overlay_ok = (\<lambda>_ _. True), sort_slice = sort_key (\<lambda>n. sint (nodeVersion n))\<rparr>"

lemma sort_key_sorts: "sorts (sort_key (\<lambda>n. sint (nodeVersion n)))"
proof -
  have "sint (nodeVersion (hd (sort_key (\<lambda>n. sint (nodeVersion n)) l))) \<le> sint (nodeVersion n)" if "n \<in> set l" for l :: "overlay_node list" and n
  proof -
    let ?f = "\<lambda>n. sint (nodeVersion n)"
    have "sort_key ?f l \<noteq> []" using that by (metis set_sort empty_iff empty_set)
    then obtain x xs where x: "sort_key ?f l = x # xs" by (cases "sort_key ?f l") auto
    have "sorted (map ?f (x # xs))" using sorted_sort_key [of ?f l] by (simp only: x)
    moreover have "n \<in> set (x # xs)" using that by (metis x set_sort)
    ultimately show ?thesis by (auto simp: x)
  qed
  moreover have "distinct (map nodeID (sort_key (\<lambda>n. sint (nodeVersion n)) l))" if "distinct (map nodeID l)" for l :: "overlay_node list"
    using that by (simp add: distinct_map)
  ultimately show ?thesis unfolding sorts_def by simp
qed

lemma demo_update:
  "updateDHT demo_dht [] 600 = (Some (replicate 32 0, [\<lparr>nodeID = PublicKeyED25519 [1], nodeVersion = 950\<rparr>, \<lparr>nodeID = PublicKeyED25519 [7], nodeVersion = 1000\<rparr>]), None)"
  by (simp add: updateDHT_def demo_dht_def payment_node_id_def found_list_def merge_nodes_def up_to_date_def Let_def)


text \<open>
  Refreshing forgets other nodes: the loop over the found list stops at the node's own entry,
  so every entry behind it, up to date or not, is missing from the list that is stored.
\<close>

lemma refresh_forgets_later_nodes:
  assumes "updateDHT D paymentNode ttl = (Some (overlayKey, l), None)" "NewNode D overlayKey = Some (key, version)"
    and "FindOverlayNodes D overlayKey = FoundNodes (pre @ n # post)" "nodeID n = PublicKeyED25519 key"
    and "PublicKeyED25519 key \<notin> nodeID ` set pre"
  shows "l = filter (up_to_date (unix_now D) ttl) pre @ [\<lparr>nodeID = PublicKeyED25519 key, nodeVersion = version\<rparr>]"
proof -
  let ?node = "\<lparr>nodeID = PublicKeyED25519 key, nodeVersion = version\<rparr>"
  have "l = merge_nodes (sort_slice D) (up_to_date (unix_now D) ttl) ?node (pre @ n # post)"
    using assms(1-3) by (auto simp: updateDHT_def Let_def found_list_def split: if_splits option.splits)
  then show ?thesis using refresh_loop_present [of ?node pre n "up_to_date (unix_now D) ttl" post] assms(4,5) by (simp add: merge_nodes_def)
qed

definition relisted_dht :: dht_host where
  "relisted_dht = demo_dht\<lparr>FindOverlayNodes := (\<lambda>_. FoundNodes ([] @ \<lparr>nodeID = PublicKeyED25519 [7], nodeVersion = 900\<rparr> #
     [\<lparr>nodeID = PublicKeyED25519 [1], nodeVersion = 950\<rparr>]))\<rparr>"

lemma refresh_forgets_later_nodes_witness:
  "\<exists>l. updateDHT relisted_dht [] 600 = (Some (replicate 32 0, l), None) \<and> length l = 1"
proof -
  obtain l where l: "updateDHT relisted_dht [] 600 = (Some (replicate 32 0, l), None)"
    by (simp add: updateDHT_def relisted_dht_def demo_dht_def payment_node_id_def Let_def)
  have n: "NewNode relisted_dht k = Some ([7], 1000)" "FindOverlayNodes relisted_dht k = FoundNodes ([] @ \<lparr>nodeID = PublicKeyED25519 [7], nodeVersion = 900\<rparr> #
     [\<lparr>nodeID = PublicKeyED25519 [1], nodeVersion = 950\<rparr>])" for k by (simp_all add: relisted_dht_def demo_dht_def)
  from refresh_forgets_later_nodes [OF l n] have "l = [\<lparr>nodeID = PublicKeyED25519 [7], nodeVersion = 1000\<rparr>]" by simp
  with l show ?thesis by simp
qed

end
