(* ===== verification/Number_Format.thy ===== *)
theory Number_Format
  imports Payment_Chain Config_Files
begin

text \<open>
  The numbers that the console of a node prints: \<open>formatNum\<close> and \<open>formatNumInt\<close> of
  \<open>cmd/node/main.go\<close>. A \<open>float64\<close> is its exact value; a conversion or division rounds it to 53 binary
  digits, ties to even (the values stay far from the limits of the exponent). \<open>%.2f\<close> prints the
  nearest hundredth of the exact value, ties to even, as \<open>strconv\<close> does.
\<close>

section \<open>Model\<close>

definition float64 :: "rat \<Rightarrow> rat" where
  "float64 x = round_prec 53 x"

fun show_dec :: "nat \<Rightarrow> string" where
  "show_dec n = (if n < 10 then [digit_char n] else show_dec (n div 10) @ [digit_char (n mod 10)])"

declare show_dec.simps [simp del]

definition show_hundredths :: "nat \<Rightarrow> string" where
  "show_hundredths k = show_dec (k div 100) @ ''.'' @ [digit_char (k div 10 mod 10), digit_char (k mod 10)]"

definition Sprintf_f2 :: "rat \<Rightarrow> string" where
  "Sprintf_f2 x = (if x < 0 then ''-'' else []) @ show_hundredths (nat (nearest_even (\<bar>x\<bar> * 100)))"

definition sizes :: "string list" where
  "sizes = ['''', '' K'', '' M'', '' B'']"

function scale_loop :: "nat \<Rightarrow> rat \<Rightarrow> nat \<times> rat" where
  "scale_loop sizeIndex sizeFloat =
     (if 1000 \<le> sizeFloat \<and> sizeIndex < length sizes - 1 then scale_loop (sizeIndex + 1) (float64 (sizeFloat / 1000))
      else (sizeIndex, sizeFloat))"
  by auto
termination by (relation "measure (\<lambda>(i, _). length sizes - i)") auto

declare scale_loop.simps [simp del]

definition format_scaled :: "rat \<Rightarrow> string" where
  "format_scaled x = (case scale_loop 0 x of (i, f) \<Rightarrow> Sprintf_f2 f @ sizes ! i)"

definition formatNum :: "u64 \<Rightarrow> string" where
  "formatNum packets = format_scaled (float64 (of_int (uint packets)))"

definition formatNumInt :: "int \<Rightarrow> string" where
  "formatNumInt packets = format_scaled (float64 (of_int packets))"

section \<open>Rounding keeps small whole numbers\<close>

lemma nearest_even_ge: "of_int k \<le> m \<Longrightarrow> k \<le> nearest_even m"
  using le_floor_iff [of k m] by (auto simp: nearest_even_def Let_def)

lemma nearest_even_le:
  assumes "m \<le> of_int k"
  shows "nearest_even m \<le> k"
proof (cases "\<lfloor>m\<rfloor> < k")
  case True
  then show ?thesis by (simp add: nearest_even_def Let_def)
next
  case False
  with assms have "m = of_int k" by (metis floor_less_iff not_less order_antisym)
  then show ?thesis by (simp add: nearest_even_def)
qed

text \<open>The unit of the last place divides every larger whole number of at most \<open>p\<close> binary digits.\<close>

lemma unit_divides:
  assumes "0 < x" "2 powi exponent x \<le> (of_int c :: rat)" "c < 2 ^ p"
  obtains k where "of_int c = (of_int k :: rat) * 2 powi (exponent x + 1 - int p)"
proof -
  have "exponent x < int p"
  proof (rule ccontr)
    assume "\<not> exponent x < int p"
    then have "(2 :: rat) powi int p \<le> 2 powi exponent x" by (intro power_int_increasing) auto
    then have "(2 :: rat) powi int p \<le> of_int c" using assms(2) by (rule order_trans)
    then have "2 ^ p \<le> c" by (simp only: power_int_of_nat) simp
    with assms(3) show False by simp
  qed
  then obtain n where n: "exponent x + 1 - int p = - int n" by (metis nonpos_int_cases diff_le_0_iff_le zless_imp_add1_zle)
  have "of_int c = (of_int (c * 2 ^ n) :: rat) * 2 powi (exponent x + 1 - int p)"
    by (simp only: n power_int_minus) (simp add: field_simps)
  then show thesis by (rule that)
qed

lemma round_prec_pos: "0 < x \<Longrightarrow> round_prec p x = of_int (nearest_even (x / 2 powi (exponent x + 1 - int p))) * 2 powi (exponent x + 1 - int p)"
  by (simp add: round_prec_def Let_def)

lemma round_prec_ge:
  assumes "0 < c" "of_int c \<le> x" "c < 2 ^ p" "0 < p"
  shows "of_int c \<le> round_prec p x"
proof -
  have x: "0 < x" using assms by (metis less_le_trans of_int_0_less_iff)
  define u where "u = (2 :: rat) powi (exponent x + 1 - int p)"
  have u: "0 < u" by (simp add: u_def)
  have r: "round_prec p x = of_int (nearest_even (x / u)) * u" using x by (simp add: round_prec_pos u_def)
  have le: "of_int k * u \<le> round_prec p x" if "of_int k * u \<le> x" for k
    using that u nearest_even_ge [of k "x / u"] by (simp add: r pos_le_divide_eq)
  show ?thesis
  proof (cases "2 powi exponent x \<le> (of_int c :: rat)")
    case True
    then obtain k where "of_int c = (of_int k :: rat) * u" using unit_divides [OF x _ assms(3)] unfolding u_def by blast
    then show ?thesis using le [of k] assms(2) by simp
  next
    case False
    obtain q where q: "p = Suc q" using assms(4) by (cases p) auto
    have "2 powi exponent x = of_int (2 ^ q) * u" by (simp add: u_def q power_int_diff power_int_add field_simps)
    then have "2 powi exponent x \<le> round_prec p x" using le [of "2 ^ q"] exponent_bounds(1) [OF x] by simp
    with False show ?thesis by simp
  qed
qed

lemma round_prec_le:
  assumes "0 < x" "x \<le> of_int c" "c < 2 ^ p"
  shows "round_prec p x \<le> of_int c"
proof -
  define u where "u = (2 :: rat) powi (exponent x + 1 - int p)"
  have u: "0 < u" by (simp add: u_def)
  have "2 powi exponent x \<le> (of_int c :: rat)" using exponent_bounds(1) [OF assms(1)] assms(2) by linarith
  then obtain k where k: "of_int c = (of_int k :: rat) * u" using unit_divides [OF assms(1) _ assms(3)] unfolding u_def by blast
  then have "nearest_even (x / u) \<le> k" using assms(2) u by (intro nearest_even_le) (simp add: pos_divide_le_eq)
  then show ?thesis using assms(1) u k by (simp add: round_prec_pos u_def [symmetric])
qed

lemma round_prec_small_int:
  assumes "0 \<le> c" "c < 2 ^ p" "0 < p"
  shows "round_prec p (of_int c) = of_int c"
proof (cases "c = 0")
  case False
  with assms show ?thesis by (intro antisym round_prec_le round_prec_ge) auto
qed (simp add: round_prec_def)

section \<open>The scaled number\<close>

text \<open>What the text stands for: the unit that is chosen, and the power of a thousand it means.\<close>

definition unit_index :: "int \<Rightarrow> nat" where
  "unit_index n = (if n < 10 ^ 3 then 0 else if n < 10 ^ 6 then 1 else if n < 10 ^ 9 then 2 else 3)"

lemma float64_ge: "0 < c \<Longrightarrow> c < 2 ^ 53 \<Longrightarrow> of_int c \<le> x \<Longrightarrow> of_int c \<le> float64 x"
  unfolding float64_def by (rule round_prec_ge) simp_all

lemma float64_error: "\<bar>float64 x - x\<bar> \<le> \<bar>x\<bar> / 2 ^ 53"
  unfolding float64_def by (rule round_prec_error)

lemma float64_small_int: "0 \<le> c \<Longrightarrow> c < 2 ^ 53 \<Longrightarrow> float64 (of_int c) = of_int c"
  unfolding float64_def by (rule round_prec_small_int) simp_all

text \<open>A division by a thousand adds one rounding to the relative error.\<close>

lemma float64_thousandth:
  assumes "\<bar>x - y\<bar> \<le> y * r" "0 \<le> y" "0 \<le> r" "r \<le> 1"
  shows "\<bar>float64 (x / 1000) - y / 1000\<bar> \<le> y / 1000 * (r + 2 / 2 ^ 53)"
proof -
  have "\<bar>x\<bar> \<le> y * 2" using assms mult_left_mono [OF assms(4,2)] by (simp add: abs_le_iff)
  then have "\<bar>x / 1000\<bar> / 2 ^ 53 \<le> y / 1000 * (2 / 2 ^ 53)" by (simp add: abs_divide)
  then have "\<bar>float64 (x / 1000) - x / 1000\<bar> \<le> y / 1000 * (2 / 2 ^ 53)" using float64_error [of "x / 1000"] by linarith
  moreover have "\<bar>x / 1000 - y / 1000\<bar> \<le> y / 1000 * r" using assms(1) by (simp add: diff_divide_distrib [symmetric])
  ultimately have "\<bar>float64 (x / 1000) - y / 1000\<bar> \<le> y / 1000 * (2 / 2 ^ 53) + y / 1000 * r" by arith
  then show ?thesis by (simp add: distrib_left add.commute)
qed

lemma scale_loop_stop: "x < 1000 \<or> i = 3 \<Longrightarrow> scale_loop i x = (i, x)"
  by (subst scale_loop.simps) (auto simp: sizes_def)

lemma scale_loop_more: "1000 \<le> x \<Longrightarrow> i < 3 \<Longrightarrow> scale_loop i x = scale_loop (Suc i) (float64 (x / 1000))"
  by (subst scale_loop.simps) (simp add: sizes_def)

text \<open>The value after \<open>k\<close> passes of the loop.\<close>

primrec scaled :: "int \<Rightarrow> nat \<Rightarrow> rat" where
  "scaled n 0 = float64 (of_int n)"
| "scaled n (Suc k) = float64 (scaled n k / 1000)"

lemma scaled_error:
  assumes "0 \<le> n" "k \<le> 3"
  shows "\<bar>scaled n k - of_int n / 1000 ^ k\<bar> \<le> of_int n / 1000 ^ k * (of_nat (Suc k) * (2 / 2 ^ 53))"
  using assms(2)
proof (induction k)
  case 0
  have "\<bar>float64 (of_int n) - of_int n\<bar> \<le> \<bar>of_int n\<bar> / 2 ^ 53" by (rule float64_error)
  then show ?case using assms(1) by simp
next
  case (Suc k)
  have "0 \<le> (of_int n :: rat) / 1000 ^ k" using assms(1) by simp
  moreover have "of_nat (Suc k) * (2 / 2 ^ 53) \<le> (1 :: rat)" using Suc.prems by simp
  moreover have "0 \<le> of_nat (Suc k) * (2 / 2 ^ 53 :: rat)" by simp
  moreover have "\<bar>scaled n k - of_int n / 1000 ^ k\<bar> \<le> of_int n / 1000 ^ k * (of_nat (Suc k) * (2 / 2 ^ 53))" using Suc by simp
  ultimately have "\<bar>float64 (scaled n k / 1000) - of_int n / 1000 ^ k / 1000\<bar> \<le> of_int n / 1000 ^ k / 1000 * (of_nat (Suc k) * (2 / 2 ^ 53) + 2 / 2 ^ 53)"
    by (intro float64_thousandth)
  then show ?case by (simp add: field_simps)
qed

lemma scaled_ge: "1000 ^ (k + m) \<le> n \<Longrightarrow> k + m \<le> 3 \<Longrightarrow> 1000 ^ m \<le> scaled n k"
proof (induction k arbitrary: m)
  case 0
  have "(1000 :: int) ^ m \<le> 1000 ^ 3" using 0 by (intro power_increasing) simp_all
  then have "of_int (1000 ^ m) \<le> float64 (of_int n)" using 0 by (intro float64_ge) simp_all
  then show ?case by simp
next
  case (Suc k)
  have "(1000 :: int) ^ m \<le> 1000 ^ 3" using Suc.prems by (intro power_increasing) simp_all
  moreover have "1000 ^ Suc m \<le> scaled n k" using Suc by (intro Suc.IH) simp_all
  ultimately have "of_int (1000 ^ m) \<le> float64 (scaled n k / 1000)" by (intro float64_ge) simp_all
  then show ?case by simp
qed

lemma scaled_less:
  assumes "0 \<le> n" "n < 1000 ^ Suc k" "k \<le> 2"
  shows "scaled n k < 1000"
proof -
  have n: "(of_int n :: rat) \<le> of_int (1000 ^ Suc k - 1)" using assms(2) by (simp only: of_int_le_iff)
  have e: "scaled n k \<le> of_int n / 1000 ^ k + of_int n / 1000 ^ k * (of_nat (Suc k) * (2 / 2 ^ 53))"
    using scaled_error [of n k] assms(1,3) by linarith
  consider "k = 0" | "k = 1" | "k = 2" using assms(3) by linarith
  then show ?thesis using n e by cases simp_all
qed

lemma scale_loop_scaled:
  assumes "0 \<le> n" "k \<le> 3"
  shows "scale_loop k (scaled n k) = (if n < 1000 ^ Suc k \<or> k = 3 then (k, scaled n k) else scale_loop (Suc k) (scaled n (Suc k)))"
  using scaled_less [of n k] scaled_ge [of k 1 n] scale_loop_stop [of "scaled n k" k] scale_loop_more [of "scaled n k" k] assms
  by (cases "k = 3") auto

lemma scaled_number:
  fixes n :: int
  assumes "0 \<le> n" "scale_loop 0 (float64 (of_int n)) = (i, f)"
  shows "i = unit_index n" "\<bar>f - of_int n / 1000 ^ i\<bar> \<le> of_int n / 1000 ^ i / 2 ^ 50" "0 \<le> f"
    "n < 1000 \<Longrightarrow> f = of_int n"
proof -
  have "(i, f) = scale_loop 0 (scaled n 0)" using assms(2) by simp
  also have "\<dots> = (unit_index n, scaled n (unit_index n))"
    using scale_loop_scaled [OF assms(1), of 0] scale_loop_scaled [OF assms(1), of 1] scale_loop_scaled [OF assms(1), of 2] scale_loop_scaled [OF assms(1), of 3]
    by (simp add: unit_index_def eval_nat_numeral)
  finally have i: "i = unit_index n" and f: "f = scaled n i" by simp_all
  from i show "i = unit_index n" .
  show "f = of_int n" if "n < 1000" using that assms(1) f i float64_small_int [of n] by (simp add: unit_index_def)
  have k: "i \<le> 3" by (simp add: i unit_index_def)
  have y: "0 \<le> (of_int n :: rat) / 1000 ^ i" using assms(1) by simp
  have "of_nat (Suc i) * (2 / 2 ^ 53) \<le> (1 / 2 ^ 50 :: rat)" using k by simp
  from mult_left_mono [OF this y] show d: "\<bar>f - of_int n / 1000 ^ i\<bar> \<le> of_int n / 1000 ^ i / 2 ^ 50"
    using scaled_error [OF assms(1) k] f by simp
  have "of_int n / 1000 ^ i / 2 ^ 50 \<le> (of_int n / 1000 ^ i :: rat)" using y by (simp add: field_simps)
  with d show "0 \<le> f" by (simp add: abs_le_iff)
qed

section \<open>Reading the text\<close>

text \<open>A reader takes the digits in order; the point and the unit are no digits.\<close>

definition read_digits :: "nat \<Rightarrow> string \<Rightarrow> nat" where
  "read_digits a s = foldl (\<lambda>a c. case digit_of c of None \<Rightarrow> a | Some d \<Rightarrow> 10 * a + d) a s"

lemma digit_of_digit_char: "d < 10 \<Longrightarrow> digit_of (digit_char d) = Some d"
  by (simp add: digit_of_def digit_char_def)

lemma read_digits_Cons [simp]:
  "read_digits a [] = a"
  "read_digits a (c # s) = read_digits (case digit_of c of None \<Rightarrow> a | Some d \<Rightarrow> 10 * a + d) s"
  by (simp_all add: read_digits_def)

lemma read_digits_append [simp]: "read_digits a (s @ t) = read_digits (read_digits a s) t"
  by (simp add: read_digits_def)

lemma read_show_dec: "read_digits 0 (show_dec n) = n"
proof (induction n rule: show_dec.induct)
  case (1 n)
  then show ?case by (subst show_dec.simps) (simp add: digit_of_digit_char)
qed

lemma read_show_hundredths: "read_digits 0 (show_hundredths k) = k"
proof -
  have "digit_of (CHR ''.'') = None" by (simp add: digit_of_def)
  moreover have "10 * (10 * (k div 100) + k div 10 mod 10) + k mod 10 = k"
    using div_mult_mod_eq [of "k div 10" 10] div_mult_mod_eq [of k 10] div_mult2_eq [of k 10 10] by simp
  ultimately show ?thesis by (simp add: show_hundredths_def read_show_dec digit_of_digit_char)
qed

lemma read_sizes: "i < 4 \<Longrightarrow> read_digits a (sizes ! i) = a"
  by (auto simp: sizes_def digit_of_def nth_Cons' split: if_splits)

lemma nearest_hundredth:
  assumes "0 \<le> f"
  shows "\<bar>of_nat (nat (nearest_even (f * 100))) / 100 - f\<bar> \<le> 1 / 200"
proof -
  have "0 \<le> nearest_even (f * 100)" using assms by (intro nearest_even_ge) simp
  then have "\<bar>of_nat (nat (nearest_even (f * 100))) - f * 100\<bar> \<le> 1 / 2"
    using nearest_even_error [of "f * 100"] by simp
  then show ?thesis by arith
qed

lemma format_scaled_nonneg:
  assumes "0 \<le> n"
  defines "i \<equiv> unit_index n"
  shows "\<exists>k. format_scaled (float64 (of_int n)) = show_hundredths k @ sizes ! i \<and>
    \<bar>of_nat k / 100 - of_int n / 1000 ^ i\<bar> \<le> (if n < 1000 then 0 else 1 / 200 + of_int n / 1000 ^ i / (2 ^ 50 :: rat))"
proof -
  obtain j f where l: "scale_loop 0 (float64 (of_int n)) = (j, f)" by fastforce
  note f = scaled_number [OF assms(1) l]
  let ?k = "nat (nearest_even (f * 100))"
  have t: "format_scaled (float64 (of_int n)) = show_hundredths ?k @ sizes ! i"
    using f(1,3) by (simp add: format_scaled_def l Sprintf_f2_def i_def)
  have "of_nat ?k / 100 = (of_int n :: rat)" "1000 ^ i = (1 :: rat)" if "n < 1000"
    using f(4) [OF that] that assms(1) nearest_even_def [of "of_int (n * 100)"] by (simp_all add: i_def unit_index_def)
  then have "\<bar>of_nat ?k / 100 - of_int n / 1000 ^ i\<bar> = (0 :: rat)" if "n < 1000" using that by simp
  moreover have "\<bar>of_nat ?k / 100 - of_int n / 1000 ^ i\<bar> \<le> 1 / 200 + of_int n / 1000 ^ i / (2 ^ 50 :: rat)"
    using nearest_hundredth [OF f(3)] f(2) unfolding f(1) i_def by arith
  ultimately show ?thesis using t by auto
qed


text \<open>A negative number is below every limit, so it is never scaled.\<close>

lemma formatNumInt_negative:
  assumes "- (2 ^ 53) < n" "n < 0"
  shows "formatNumInt n = ''-'' @ show_hundredths (nat (- n) * 100)"
proof -
  have "float64 (of_int n) = of_int n"
  proof -
    have "float64 (of_int n) = - float64 (of_int (- n))" using assms(2) by (simp add: float64_def round_prec_def Let_def)
    then show ?thesis using float64_small_int [of "- n"] assms by simp
  qed
  moreover have "nearest_even (of_int (- n * 100)) = - n * 100" unfolding nearest_even_def floor_of_int by simp
  moreover have "\<bar>of_int n\<bar> * 100 = (of_int (- n * 100) :: rat)" using assms(2) by simp
  moreover have k: "nat (- (n * 100)) = nat (- n) * 100" using assms(2) by (simp add: nat_mult_distrib [symmetric])
  ultimately show ?thesis using assms(2)
    by (simp add: formatNumInt_def format_scaled_def scale_loop_stop Sprintf_f2_def sizes_def k)
qed

lemma formatNumInt_nonneg: "0 \<le> n \<Longrightarrow> n < 2 ^ 63 \<Longrightarrow> formatNumInt n = formatNum (word_of_int n)"
  by (simp add: formatNumInt_def formatNum_def uint_word_of_int)

text \<open>Just below a limit the rounding to hundredths reaches it: the unit is not changed any more.\<close>

lemma show_dec_cases: "n < 10 \<Longrightarrow> show_dec n = [digit_char n]" "10 \<le> n \<Longrightarrow> show_dec n = show_dec (n div 10) @ [digit_char (n mod 10)]"
  by (subst show_dec.simps, simp)+

lemma formatNum_below_limit: "formatNum 999999 = ''1000.00 K''"
proof -
  obtain k where k: "formatNum 999999 = show_hundredths k @ '' K''" "\<bar>of_nat k / 100 - 999999 / 1000\<bar> \<le> 1 / 200 + 999999 / 1000 / (2 ^ 50 :: rat)"
    using format_scaled_nonneg [of 999999] by (auto simp: formatNum_def unit_index_def sizes_def)
  from k(2) [unfolded abs_le_iff] have "k < 100001" "99999 < k" by (auto simp: field_simps)
  then have "k = 100000" by simp
  with k(1) show ?thesis by (simp add: show_hundredths_def show_dec_cases digit_char_def char_of_def bit_0)
qed

end
