(* ===== verification/Metrics.thy ===== *)
theory Metrics
  imports Number_Format Gateway
begin

text \<open>
  The Prometheus metrics of a gateway: \<open>metrics/metrics.go\<close>, the goroutine \<open>speedMetricsUpdater\<close> of
  \<open>tunnel/gateway.go\<close> that publishes the packet counters, and the value that an accepted payment adds
  to the counter of paid packets. The registry and the collectors of the Prometheus package are
  parameters: a registry says whether it accepts a collector, and what a counter does with the values
  it is given is outside. The gauges are fields of the gateway (theory \<open>Tunnel_State\<close>).
\<close>

section \<open>Collectors and their registration\<close>

record collector =
  colName :: string
  colNamespace :: string
  colHelp :: string
  colLabels :: "string list"

definition ActiveInboundSections_opts :: collector where
  "ActiveInboundSections_opts = \<lparr>colName = ''active_inbound_sections'', colNamespace = ''tunnel'',
     colHelp = ''Number of active incoming tunnel sections.'', colLabels = []\<rparr>"

definition ActiveOutGateways_opts :: collector where
  "ActiveOutGateways_opts = \<lparr>colName = ''active_out_gateways'', colNamespace = ''tunnel'',
     colHelp = ''Number of active bind ports for outgoing and incoming traffic.'', colLabels = [''paid'']\<rparr>"

definition ActiveRoutes_opts :: collector where
  "ActiveRoutes_opts = \<lparr>colName = ''active_routes'', colNamespace = ''tunnel'',
     colHelp = ''Number of active routes'', colLabels = [''paid'']\<rparr>"

definition PacketsCounter_opts :: collector where
  "PacketsCounter_opts = \<lparr>colName = ''packets_counter'', colNamespace = ''tunnel'',
     colHelp = ''The number (thousands) of packets processed per second.'', colLabels = [''type'']\<rparr>"

definition PacketsPrepaidCounter_opts :: collector where
  "PacketsPrepaidCounter_opts = \<lparr>colName = ''packets_paid_counter'', colNamespace = ''tunnel'',
     colHelp = ''The number of packets paid, separated by tunnel type.'', colLabels = [''type'']\<rparr>"

text \<open>The package variable \<open>Registered\<close> beside the default registry.\<close>

record metrics_state =
  Registered :: bool
  registry :: "collector list"

text \<open>\<open>MustRegister\<close> panics, as \<open>None\<close>, when the registry refuses the collector.\<close>

primrec must_register :: "(collector list \<Rightarrow> collector \<Rightarrow> bool) \<Rightarrow> collector list \<Rightarrow> metrics_state \<Rightarrow> metrics_state option" where
  "must_register accepts [] m = Some m"
| "must_register accepts (c # cs) m =
     (if accepts (registry m) c then must_register accepts cs (m\<lparr>registry := registry m @ [c]\<rparr>) else None)"

definition RegisterMetrics :: "(collector list \<Rightarrow> collector \<Rightarrow> bool) \<Rightarrow> metrics_state \<Rightarrow> metrics_state option" where
  "RegisterMetrics accepts m =
     (if Registered m then Some m
      else must_register accepts
        [PacketsCounter_opts, PacketsPrepaidCounter_opts, ActiveInboundSections_opts, ActiveOutGateways_opts, ActiveRoutes_opts]
        (m\<lparr>Registered := True\<rparr>))"

text \<open>The documented law of a registry: a collector is refused when one of the same full name is there.\<close>

definition by_name :: "(collector list \<Rightarrow> collector \<Rightarrow> bool) \<Rightarrow> bool" where
  "by_name accepts \<longleftrightarrow> (\<forall>r c. accepts r c \<longleftrightarrow> (colNamespace c, colName c) \<notin> (\<lambda>d. (colNamespace d, colName d)) ` set r)"

lemmas collector_opts = ActiveInboundSections_opts_def ActiveOutGateways_opts_def ActiveRoutes_opts_def
  PacketsCounter_opts_def PacketsPrepaidCounter_opts_def

text \<open>On a registry without collectors of this namespace all five are registered, once however often it is asked for.\<close>

lemma RegisterMetrics_once:
  assumes "by_name accepts" "\<not> Registered m" "\<forall>c \<in> set (registry m). colNamespace c \<noteq> ''tunnel''"
  shows "\<exists>m'. RegisterMetrics accepts m = Some m' \<and> Registered m' \<and> RegisterMetrics accepts m' = Some m' \<and>
    registry m' = registry m @
      [PacketsCounter_opts, PacketsPrepaidCounter_opts, ActiveInboundSections_opts, ActiveOutGateways_opts, ActiveRoutes_opts]"
  using assms by (auto simp: RegisterMetrics_def collector_opts by_name_def)

section \<open>Published packet counters\<close>

record speed_prev =
  routedPrev :: u64
  inPrev :: u64
  outPrev :: u64

definition speed_start :: speed_prev where
  "speed_start = \<lparr>routedPrev = 0, inPrev = 0, outPrev = 0\<rparr>"

text \<open>One tick: the thousands counted so far, and the values added to the counter per label.\<close>

definition speed_tick :: "'a gateway_scheme \<Rightarrow> speed_prev \<Rightarrow> speed_prev \<times> (string \<times> rat) list" where
  "speed_tick s p =
     (let routed = statsRouted s div 1000; inn = statsReceived s div 1000; outt = statsSent s div 1000
      in (\<lparr>routedPrev = routed, inPrev = inn, outPrev = outt\<rparr>,
          [(''routed'', float64 (of_int (uint (routed - routedPrev p)))),
           (''in'', float64 (of_int (uint (inn - inPrev p)))),
           (''out'', float64 (of_int (uint (outt - outPrev p))))]))"

text \<open>The loop over the states the ticker finds, until the gateway is closed.\<close>

fun speedMetricsUpdater :: "'a gateway_scheme list \<Rightarrow> speed_prev \<Rightarrow> (string \<times> rat) list" where
  "speedMetricsUpdater [] p = []"
| "speedMetricsUpdater (s # ss) p = (case speed_tick s p of (p', adds) \<Rightarrow> adds @ speedMetricsUpdater ss p')"

definition counter_total :: "string \<Rightarrow> (string \<times> rat) list \<Rightarrow> rat" where
  "counter_total l adds = sum_list (map snd (filter (\<lambda>a. fst a = l) adds))"

text \<open>What a label counts.\<close>

definition counted :: "string \<Rightarrow> 'a gateway_scheme \<Rightarrow> u64" where
  "counted l s = (if l = ''routed'' then statsRouted s else if l = ''in'' then statsReceived s else statsSent s)"

definition prev_of :: "string \<Rightarrow> speed_prev \<Rightarrow> u64" where
  "prev_of l p = (if l = ''routed'' then routedPrev p else if l = ''in'' then inPrev p else outPrev p)"

lemma counter_total_append [simp]: "counter_total l (xs @ ys) = counter_total l xs + counter_total l ys"
  by (simp add: counter_total_def)

lemma speed_tick_label:
  assumes "l \<in> {''routed'', ''in'', ''out''}" "speed_tick s p = (p', adds)"
  shows "prev_of l p' = counted l s div 1000" "counter_total l adds = float64 (of_int (uint (counted l s div 1000 - prev_of l p)))"
  using assms by (auto simp: speed_tick_def Let_def prev_of_def counted_def counter_total_def)

text \<open>Below 2^53 the difference of two word values is represented exactly.\<close>

lemma thousands_exact:
  assumes "uint q \<le> uint x div 1000" "uint x < 2 ^ 53"
  shows "float64 (of_int (uint (x div 1000 - q))) = of_int (uint x div 1000) - of_int (uint (q :: u64))"
proof -
  have d: "uint (x div 1000) = uint x div 1000" by (simp add: uint_div)
  then have "uint (x div 1000 - q) = uint x div 1000 - uint q" using assms(1) by (simp add: uint_sub_if')
  moreover have "uint x div 1000 \<le> uint x" using zdiv_mono2 [of "uint x" 1 1000] by simp
  with assms have "0 \<le> uint x div 1000 - uint q" "uint x div 1000 - uint q < 2 ^ 53" using uint_ge_0 [of q] by linarith+
  ultimately have "float64 (of_int (uint (x div 1000 - q))) = of_int (uint x div 1000 - uint q)" by (simp only: float64_small_int)
  then show ?thesis by (simp only: of_int_diff)
qed

lemma updater_total:
  assumes l: "l \<in> {''routed'', ''in'', ''out''}" and "ss \<noteq> []" "sorted (map (\<lambda>s. uint (counted l s)) ss)"
    and "\<And>s. s \<in> set ss \<Longrightarrow> uint (counted l s) < 2 ^ 53" and "uint (prev_of l p) \<le> uint (counted l (hd ss)) div 1000"
  shows "counter_total l (speedMetricsUpdater ss p) = of_int (uint (counted l (last ss)) div 1000) - of_int (uint (prev_of l p))"
  using assms(2-5)
proof (induction ss arbitrary: p)
  case (Cons s ss)
  obtain p' adds where t: "speed_tick s p = (p', adds)" by fastforce
  have first: "counter_total l adds = of_int (uint (counted l s) div 1000) - of_int (uint (prev_of l p))"
    using speed_tick_label(2) [OF l t] thousands_exact [of "prev_of l p" "counted l s"] Cons.prems(3,4) by simp
  have p': "uint (prev_of l p') = uint (counted l s) div 1000" using speed_tick_label(1) [OF l t] by (simp add: uint_div)
  show ?case
  proof (cases "ss = []")
    case False
    then have "uint (counted l s) \<le> uint (counted l (hd ss))" using Cons.prems(2) by (cases ss) auto
    then have "uint (prev_of l p') \<le> uint (counted l (hd ss)) div 1000" unfolding p' by (rule zdiv_mono1) simp
    then have "counter_total l (speedMetricsUpdater ss p') = of_int (uint (counted l (last ss)) div 1000) - of_int (uint (prev_of l p'))"
      using Cons False by auto
    then show ?thesis using first False by (simp add: t p')
  qed (use first in \<open>simp add: t counter_total_def\<close>)
qed simp

text \<open>
  C37. The published packet counters are right: whatever the times of the ticks, the values added so
  far under a label sum up to the whole thousands of packets the gateway has counted when the last
  tick looked, as long as the counters do not go down between ticks and stay below 2^53.
\<close>

theorem published_counters:
  assumes "l \<in> {''routed'', ''in'', ''out''}" "ss \<noteq> []" "sorted (map (\<lambda>s. uint (counted l s)) ss)"
    and "\<forall>s \<in> set ss. uint (counted l s) < 2 ^ 53"
  shows "counter_total l (speedMetricsUpdater ss speed_start) = of_int (uint (counted l (last ss)) div 1000)"
proof -
  have "prev_of l speed_start = 0" by (simp add: prev_of_def speed_start_def)
  then show ?thesis using updater_total [of l ss speed_start] assms by (simp add: pos_imp_zdiv_nonneg_iff)
qed

theorem published_counters_witness:
  "counter_total ''routed'' (speedMetricsUpdater [(NewGateway [] False 0 0)\<lparr>statsRouted := 1999\<rparr>, (NewGateway [] False 0 0)\<lparr>statsRouted := 5000\<rparr>] speed_start) = 5"
  using published_counters [of "''routed''" "[(NewGateway [] False 0 0)\<lparr>statsRouted := 1999\<rparr>, (NewGateway [] False 0 0)\<lparr>statsRouted := 5000\<rparr>]"]
  by (simp add: counted_def)

section \<open>Paid packets\<close>

text \<open>The label and the value that an accepted payment adds to \<open>PacketsPrepaidCounter\<close>: the number is read as an \<open>int64\<close>.\<close>

definition prepaid_metric :: "ptr \<Rightarrow> int \<Rightarrow> mutation \<Rightarrow> 'a gateway_scheme \<Rightarrow> (string \<times> int) option" where
  "prepaid_metric sp amt m s =
     (case m of
        MutateOut \<Rightarrow> (case sec_out (sec s sp) of None \<Rightarrow> None | Some ot \<Rightarrow> Some (''out'', i64 (amt div outPrice ot)))
      | MutateRoute rid num \<Rightarrow> Some (''route'', i64 num))"

lemma prepaid_metric_exact:
  "0 \<le> num \<Longrightarrow> num < 2 ^ 63 \<Longrightarrow> prepaid_metric sp amt (MutateRoute rid num) s = Some (''route'', num)"
  by (simp add: prepaid_metric_def i64_id is_i64_def)

text \<open>
  For more packets than an \<open>int64\<close> holds the prepaid balance saturates, as the code says it should,
  but the value added to the counter is negative, which the documentation of a counter forbids.
\<close>

lemma prepaid_metric_overflow:
  assumes "2 ^ 63 \<le> num" "num < 2 ^ 64" "0 \<le> bal"
  shows "addPrepaid bal num = MaxInt64" "prepaid_metric sp amt (MutateRoute rid num) s = Some (''route'', num - 2 ^ 64)" "num - 2 ^ 64 < 0"
proof -
  have "(num + 2 ^ 63) mod 2 ^ 64 = num - 2 ^ 63"
    using assms(1,2) mod_pos_pos_trivial [of "num - 2 ^ 63" "2 ^ 64"] mod_add_self2 [of "num - 2 ^ 63" "2 ^ 64"] by (simp add: add.commute)
  then show "prepaid_metric sp amt (MutateRoute rid num) s = Some (''route'', num - 2 ^ 64)"
    by (simp add: prepaid_metric_def i64_def)
  show "addPrepaid bal num = MaxInt64" "num - 2 ^ 64 < 0" using assms by (simp_all add: addPrepaid_def)
qed

end
