(* ===== verification/Gateway_Service.thy ===== *)
theory Gateway_Service
  imports Gateway_Safety Overlay_Dht Metrics
begin

text \<open>
  The gateway as a running service (\<open>Start\<close>, \<open>Stop\<close> and \<open>logOnce\<close> of \<open>tunnel/gateway.go\<close>): the peers that
  are connected already when it starts, the goroutines it runs, and the loop that announces it in the
  DHT again and again. Times are whole seconds; how long an update takes is given with it.
\<close>

section \<open>Starting\<close>

text \<open>The handler of a new connection; \<open>Start\<close> calls it for every peer that is connected already.\<close>

definition connHandler :: "env \<Rightarrow> bytes \<times> conn_atomic \<Rightarrow> 'a gateway_scheme \<Rightarrow> 'a gateway_scheme" where
  "connHandler E c s = snd (addPeer E (fst c) (Some (snd c)) s)"

definition Start_peers :: "env \<Rightarrow> (bytes \<times> conn_atomic) list \<Rightarrow> 'a gateway_scheme \<Rightarrow> 'a gateway_scheme" where
  "Start_peers E active s = fold (connHandler E) active s"

datatype goroutine = SpeedMetricsUpdater | DhtUpdater | KeepAlive

text \<open>\<open>NewGateway\<close> starts the publishing of counters only when the metrics are registered by then.\<close>

definition gateway_goroutines :: "metrics_state \<Rightarrow> goroutine list" where
  "gateway_goroutines m = (if Registered m then [SpeedMetricsUpdater] else []) @ [DhtUpdater, KeepAlive]"

text \<open>Starting is a run of the gateway, one connection per active peer, and all of them are in the table.\<close>

lemma connHandler_step: "gw_step C T proc E (EvConnect (fst c) (snd c)) s (connHandler E c s)"
  unfolding connHandler_def by (rule connect)

lemma Start_peers_run: "gw_run C T proc (map (\<lambda>c. EvConnect (fst c) (snd c)) active) s (Start_peers E active s)"
proof (induction active rule: rev_induct)
  case Nil
  then show ?case by (simp add: Start_peers_def start)
next
  case (snoc c cs)
  from more [OF snoc connHandler_step] show ?case by (simp add: Start_peers_def)
qed

lemma addPeer_keeps_table:
  assumes "map_of (activePeers s) k = Some p"
  shows "map_of (activePeers (snd (addPeer E adnl c s))) k = Some p"
  using assms by (cases "map_of (activePeers s) adnl")
    (auto simp: addPeer_def lookup_or_new_def set_conn_def peer_simps split: option.splits prod.splits)

lemma Start_peers_known:
  assumes "table_wf s" "(adnl, c) \<in> set active"
  shows "map_of (activePeers (Start_peers E active s)) adnl \<noteq> None"
  using assms(2)
proof (induction active rule: rev_induct)
  case (snoc c' cs)
  let ?t = "fold (connHandler E) cs s"
  have "table_wf ?t"
    by (induction cs rule: rev_induct) (simp_all add: assms(1) connHandler_def table_wf_addPeer)
  then show ?case using snoc addPeer_in_table(1) [of ?t E adnl "Some c"] addPeer_keeps_table [of ?t adnl _ E "fst c'" "Some (snd c')"]
    by (auto simp: Start_peers_def connHandler_def)
qed simp

section \<open>Stopping\<close>

datatype stop_call = CancelContext | CommitAllOurVirtualChannelsAndWait | StopService

text \<open>The calls of \<open>Stop\<close> in order, and whether it returns an error.\<close>

definition Gateway_Stop :: "bool \<Rightarrow> 'a gateway_scheme \<Rightarrow> stop_call list \<times> bool" where
  "Gateway_Stop commit_ok s =
     (if payService s then ([CancelContext, CommitAllOurVirtualChannelsAndWait, StopService], \<not> commit_ok)
      else ([CancelContext], False))"

text \<open>The payment service is stopped after the channels were committed, also when that failed.\<close>

lemma Gateway_Stop_order:
  "hd (fst (Gateway_Stop ok s)) = CancelContext"
  "payService s \<Longrightarrow> last (fst (Gateway_Stop ok s)) = StopService \<and> snd (Gateway_Stop ok s) = (\<not> ok)"
  by (simp_all add: Gateway_Stop_def)

section \<open>Announcing the gateway\<close>

definition DhtTTL :: int where "DhtTTL = 20 * 60"

record dht_pass =
  hasAddresses :: bool \<comment> \<open>the ADNL gateway knows an external address\<close>
  takes :: nat
  passHost :: dht_host

text \<open>One pass: what was announced, how long the pass took, and how long to wait before the next one.\<close>

definition dht_update :: "bytes \<Rightarrow> dht_pass \<Rightarrow> (bytes \<times> overlay_node list) option \<times> nat \<times> nat" where
  "dht_update paymentNode p =
     (if hasAddresses p
      then case updateDHT (passHost p) paymentNode DhtTTL of
             (_, Some e) \<Rightarrow> (None, takes p, 10)
           | (stored, None) \<Rightarrow> (stored, takes p, 5 * 60)
      else (None, 0, 5 * 60))"

text \<open>The loop, with the time and the waiting time so far; the announcements with the start and the end of their pass.\<close>

fun dht_loop :: "bytes \<Rightarrow> dht_pass list \<Rightarrow> nat \<Rightarrow> nat \<Rightarrow> (nat \<times> nat \<times> bytes \<times> overlay_node list) list" where
  "dht_loop pn [] time after = []"
| "dht_loop pn (p # ps) time after =
     (case dht_update pn p of (stored, dur, after') \<Rightarrow>
        (case stored of None \<Rightarrow> [] | Some a \<Rightarrow> [(time + after, time + after + dur, a)]) @ dht_loop pn ps (time + after + dur) after')"

definition announces :: "bytes \<Rightarrow> dht_pass \<Rightarrow> bool" where
  "announces pn p \<longleftrightarrow> hasAddresses p \<and> snd (updateDHT (passHost p) pn DhtTTL) = None"

lemma updateDHT_stored: "snd (updateDHT D pn ttl) = None \<Longrightarrow> \<exists>a. fst (updateDHT D pn ttl) = Some a"
  by (auto simp: updateDHT_def Let_def split: if_splits option.splits prod.splits)

lemma dht_update_cases:
  shows "announces pn p \<Longrightarrow> \<exists>a. dht_update pn p = (Some a, takes p, 300)"
    and "hasAddresses p \<Longrightarrow> \<not> announces pn p \<Longrightarrow> dht_update pn p = (None, takes p, 10)"
  using updateDHT_stored [of "passHost p" pn DhtTTL]
  by (cases "updateDHT (passHost p) pn DhtTTL"; auto simp: dht_update_def announces_def split: option.splits)+

text \<open>An announcement is followed by the next one before it expires.\<close>

definition in_time :: "nat \<times> nat \<times> 'x \<Rightarrow> nat \<times> nat \<times> 'x \<Rightarrow> bool" where
  "in_time a b \<longleftrightarrow> int (fst (snd b)) < int (fst a) + DhtTTL"

lemma next_in_time:
  assumes "\<forall>p \<in> set ps. hasAddresses p \<and> takes p \<le> 296" "successively (\<lambda>p q. announces pn p \<or> announces pn q) ps"
    and "time + after \<le> fst a + 596 \<or> time + after \<le> fst a + 902 \<and> (ps \<noteq> [] \<longrightarrow> announces pn (hd ps))"
  shows "successively in_time (a # dht_loop pn ps time after)"
  using assms
proof (induction ps arbitrary: time after a)
  case (Cons p ps)
  have p: "hasAddresses p" "takes p \<le> 296" using Cons.prems(1) by simp_all
  have s: "successively (\<lambda>p q. announces pn p \<or> announces pn q) ps" using Cons.prems(2) by (cases ps) simp_all
  show ?case
  proof (cases "announces pn p")
    case True
    then obtain x where x: "dht_update pn p = (Some x, takes p, 300)" using dht_update_cases(1) by blast
    have "successively in_time ((time + after, time + after + takes p, x) # dht_loop pn ps (time + after + takes p) 300)"
      using Cons.prems(1) s p by (intro Cons.IH) simp_all
    moreover have "in_time a (time + after, time + after + takes p, x)"
      using Cons.prems(3) p by (auto simp: in_time_def DhtTTL_def)
    ultimately show ?thesis by (simp add: x)
  next
    case False
    then have x: "dht_update pn p = (None, takes p, 10)" by (rule dht_update_cases(2) [OF p(1)])
    have "announces pn (hd ps)" if "ps \<noteq> []" using Cons.prems(2) False that by (cases ps) simp_all
    then show ?thesis using Cons.prems(1,3) s p False x Cons.IH [of "time + after + takes p" 10 a] by simp
  qed
qed simp

text \<open>
  C39. A gateway stays announced: while it knows an external address, every update ends within 296
  seconds and no two updates in a row fail, each announcement is followed by the next one, which is
  stored before the validity of 20 minutes has passed since the pass that made the earlier one began.
\<close>

theorem announcements_overlap:
  assumes "\<forall>p \<in> set ps. hasAddresses p \<and> takes p \<le> 296" "successively (\<lambda>p q. announces pn p \<or> announces pn q) ps"
  shows "successively (\<lambda>(start1, _) (_, end2, _). int end2 < int start1 + DhtTTL) (dht_loop pn ps 0 0)"
proof -
  have "successively in_time (dht_loop pn qs time after)"
    if "\<forall>p \<in> set qs. hasAddresses p \<and> takes p \<le> 296" "successively (\<lambda>p q. announces pn p \<or> announces pn q) qs" for qs time after
    using that
  proof (induction qs arbitrary: time after)
    case (Cons p qs)
    have s: "successively (\<lambda>p q. announces pn p \<or> announces pn q) qs" using Cons.prems(2) by (cases qs) simp_all
    show ?case
    proof (cases "announces pn p")
      case True
      then obtain x where "dht_update pn p = (Some x, takes p, 300)" using dht_update_cases(1) by blast
      then show ?thesis using next_in_time [of qs pn "time + after + takes p" 300 "(time + after, time + after + takes p, x)"] Cons.prems(1) s
        by simp
    next
      case False
      then have "dht_update pn p = (None, takes p, 10)" using Cons.prems(1) by (intro dht_update_cases(2)) simp
      then show ?thesis using Cons s by simp
    qed
  qed simp
  from this [OF assms] show ?thesis by (simp add: in_time_def case_prod_beta')
qed

definition demo_pass :: dht_pass where
  "demo_pass = \<lparr>hasAddresses = True, takes = 200, passHost = demo_dht\<rparr>"

definition failed_pass :: dht_pass where
  "failed_pass = demo_pass\<lparr>takes := 290, passHost := demo_dht\<lparr>NewNode := (\<lambda>_. None)\<rparr>\<rparr>"

lemma demo_passes: "announces [] demo_pass" "\<not> announces [] failed_pass"
  by (simp_all add: announces_def demo_pass_def failed_pass_def updateDHT_def demo_dht_def payment_node_id_def Let_def)

theorem announcements_overlap_witness:
  "successively (\<lambda>(start1, _) (_, end2, _). int end2 < int start1 + DhtTTL) (dht_loop [] [demo_pass, failed_pass, demo_pass] 0 0) \<and>
   map fst (dht_loop [] [demo_pass, failed_pass, demo_pass] 0 0) = [0, 800]"
proof
  show "successively (\<lambda>(start1, _) (_, end2, _). int end2 < int start1 + DhtTTL) (dht_loop [] [demo_pass, failed_pass, demo_pass] 0 0)"
    by (rule announcements_overlap) (simp_all add: demo_passes, simp add: demo_pass_def failed_pass_def)
  obtain x where "dht_update [] demo_pass = (Some x, 200, 300)" using dht_update_cases(1) [OF demo_passes(1)] by (auto simp: demo_pass_def)
  moreover have "dht_update [] failed_pass = (None, 290, 10)" using dht_update_cases(2) [OF _ demo_passes(2)] by (simp add: failed_pass_def demo_pass_def)
  ultimately show "map fst (dht_loop [] [demo_pass, failed_pass, demo_pass] 0 0) = [0, 800]" by simp
qed

text \<open>Without a known address nothing is announced, and the next look is five minutes later.\<close>

lemma dht_loop_no_address: "\<forall>p \<in> set ps. \<not> hasAddresses p \<Longrightarrow> dht_loop pn ps time after = []"
  by (induction ps arbitrary: time after) (simp_all add: dht_update_def)

section \<open>Messages logged once in a while\<close>

datatype log_level = TraceLevel | DebugLevel | InfoLevel | WarnLevel | ErrorLevel | FatalLevel

text \<open>
  \<open>logOnce\<close> with the two readings of the clock in milliseconds, the stored time and whether the
  compare-and-swap succeeds: the level of the message and the new stored time.
\<close>

definition logOnce :: "int \<Rightarrow> int \<Rightarrow> bool \<Rightarrow> int \<Rightarrow> log_level \<times> int" where
  "logOnce now1 now2 swaps lastOnceLogAt =
     (if lastOnceLogAt < now2 - 500 \<and> swaps then (DebugLevel, now1) else (TraceLevel, lastOnceLogAt))"

text \<open>Calls at the given times, one after the other: the times of the messages at debug level.\<close>

fun logged_at :: "int list \<Rightarrow> int \<Rightarrow> int list" where
  "logged_at [] v = []"
| "logged_at (n # ns) v = (case logOnce n n True v of (l, v') \<Rightarrow> (if l = DebugLevel then [n] else []) @ logged_at ns v')"

lemma logged_apart: "sorted_wrt (\<lambda>a b. a + 500 < b) (logged_at ns v) \<and> (\<forall>n \<in> set (logged_at ns v). v + 500 < n)"
proof (induction ns arbitrary: v)
  case (Cons n ns)
  show ?case
  proof (cases "v < n - 500")
    case True
    then show ?thesis using Cons [of n] by (auto simp: logOnce_def)
  next
    case False
    then show ?thesis using Cons [of v] by (simp add: logOnce_def)
  qed
qed simp

end
