(* ===== verification/Node_Console.thy ===== *)
theory Node_Console
  imports Node_Setup Gateway_Service "HOL-Library.Sublist"
begin

text \<open>
  What \<open>main\<close> of \<open>cmd/node/main.go\<close> does around the gateway: logging and the optional servers before it
  starts, and the console that reads commands afterwards. The standard input is a string that
  \<open>fmt.Scanln\<close> consumes; characters are ASCII. The wallet, the payment service, the TON client and the
  parsers of addresses and amounts are parameters.
\<close>

section \<open>Logging and servers\<close>

record log_flags =
  Verbosity :: int
  LogFilename :: string
  LogMaxSize :: int
  LogMaxBackups :: int
  LogMaxAge :: int
  ProfileAddr :: string
  MetricsAddr :: string
  LogCompress :: bool
  LogDisableFile :: bool

text \<open>The values of the flags that are not given on the command line.\<close>

definition default_log_flags :: log_flags where
  "default_log_flags = \<lparr>Verbosity = 2, LogFilename = ''tunnel.log'', LogMaxSize = 1024, LogMaxBackups = 16, LogMaxAge = 180,
     ProfileAddr = [], MetricsAddr = [], LogCompress = False, LogDisableFile = False\<rparr>"

text \<open>The log file with its name, size in megabytes, number of old files, days they are kept and compression.\<close>

datatype log_writer = ConsoleWriter | FileLogger string int int int bool

record log_setup =
  logWriters :: "log_writer list"
  logLevel :: log_level
  dhtLogs :: bool
  adnlLogs :: bool
  pprofServer :: bool
  metricsServer :: bool
  logMetrics :: metrics_state

definition log_level_of :: "int \<Rightarrow> log_level" where
  "log_level_of v =
     (if 3 \<le> v then DebugLevel else if v = 2 then InfoLevel else if v = 1 then WarnLevel else if v = 0 then ErrorLevel else FatalLevel)"

text \<open>The level of the logger that is given to the gateway.\<close>

definition gateway_log_level :: "int \<Rightarrow> log_level" where
  "gateway_log_level v = (if 3 \<le> v then DebugLevel else InfoLevel)"

definition setup_logging :: "(collector list \<Rightarrow> collector \<Rightarrow> bool) \<Rightarrow> log_flags \<Rightarrow> metrics_state \<Rightarrow> log_setup option" where
  "setup_logging accepts F m =
     (case (if MetricsAddr F \<noteq> [] then RegisterMetrics accepts m else Some m) of
        None \<Rightarrow> None
      | Some m' \<Rightarrow> Some \<lparr>logWriters = ConsoleWriter # (if LogDisableFile F then [] else [FileLogger (LogFilename F) (LogMaxSize F) (LogMaxBackups F) (LogMaxAge F) (LogCompress F)]), logLevel = log_level_of (Verbosity F),
          dhtLogs = (5 \<le> Verbosity F), adnlLogs = (6 \<le> Verbosity F), pprofServer = (ProfileAddr F \<noteq> []),
          metricsServer = (MetricsAddr F \<noteq> []), logMetrics = m'\<rparr>)"

text \<open>The gateway publishes its counters exactly when there is a server to read them from.\<close>

lemma counters_published_iff_served:
  assumes "setup_logging accepts F \<lparr>Registered = False, registry = r\<rparr> = Some st"
  shows "SpeedMetricsUpdater \<in> set (gateway_goroutines (logMetrics st)) \<longleftrightarrow> metricsServer st"
proof -
  have "must_register accepts cs m = Some m' \<Longrightarrow> Registered m' = Registered m" for cs m m'
    by (induction cs arbitrary: m) (auto split: if_splits)
  then show ?thesis using assms
    by (auto simp: setup_logging_def RegisterMetrics_def gateway_goroutines_def split: option.splits if_splits)
qed

text \<open>Without flags nothing is served, nothing is registered, and the console and the file get the information messages.\<close>

lemma default_logging:
  "\<exists>st. setup_logging accepts default_log_flags m = Some st \<and> \<not> pprofServer st \<and> \<not> metricsServer st \<and> logMetrics st = m \<and>
     logLevel st = InfoLevel \<and> logLevel st = gateway_log_level (Verbosity default_log_flags) \<and> length (logWriters st) = 2"
  by (simp add: setup_logging_def default_log_flags_def log_level_of_def gateway_log_level_def)

text \<open>Below verbosity 2 the node is quieter than its gateway, which still logs what is meant for verbosity 2.\<close>

lemma gateway_ignores_low_verbosity:
  "v < 2 \<Longrightarrow> gateway_log_level v = InfoLevel" "v < 2 \<Longrightarrow> log_level_of v \<noteq> InfoLevel"
  by (auto simp: gateway_log_level_def log_level_of_def)

section \<open>Reading a word\<close>

definition is_space :: "char \<Rightarrow> bool" where
  "is_space c \<longleftrightarrow> (of_char c :: nat) \<in> {9, 10, 11, 12, 13, 32}"

abbreviation NL :: char where "NL \<equiv> CHR 0x0A"

text \<open>Blanks before the word; an end of the line or of the input there is an error.\<close>

fun skip_space :: "string \<Rightarrow> string \<times> bool" where
  "skip_space [] = ([], False)"
| "skip_space (c # cs) = (if c = NL then (cs, False) else if is_space c then skip_space cs else (c # cs, True))"

text \<open>After the word only blanks may follow up to the end of the line.\<close>

fun scan_end :: "string \<Rightarrow> string \<times> bool" where
  "scan_end [] = ([], True)"
| "scan_end (c # cs) = (if c = NL then (cs, True) else if is_space c then scan_end cs else (cs, False))"

text \<open>
  \<open>fmt.Scanln(&val)\<close>: the rest of the input, the word (empty when none was stored) and whether there
  was no error. A word that is followed by another one is stored although an error is returned, and
  the first character of the other one is lost.
\<close>

definition Scanln :: "string \<Rightarrow> string \<times> string \<times> bool" where
  "Scanln inp =
     (case skip_space inp of
        (r, False) \<Rightarrow> (r, [], False)
      | (r, True) \<Rightarrow> (case scan_end (dropWhile (\<lambda>c. \<not> is_space c) r) of (r', ok) \<Rightarrow> (r', takeWhile (\<lambda>c. \<not> is_space c) r, ok)))"

lemma is_space_chars [simp]: "is_space NL" "is_space CHR '' ''"
  by (simp_all add: is_space_def)

definition is_word :: "string \<Rightarrow> bool" where
  "is_word w \<longleftrightarrow> w \<noteq> [] \<and> (\<forall>c \<in> set w. \<not> is_space c)"

lemma skip_word: "is_word w \<Longrightarrow> skip_space (w @ r) = (w @ r, True)"
  by (cases w) (auto simp: is_word_def)

lemma word_while:
  assumes "is_word w" "is_space c"
  shows "takeWhile (\<lambda>c. \<not> is_space c) (w @ c # r) = w" "dropWhile (\<lambda>c. \<not> is_space c) (w @ c # r) = c # r"
  using assms by (auto simp: is_word_def takeWhile_append2 dropWhile_append2)

lemma Scanln_word: "is_word w \<Longrightarrow> Scanln (w @ NL # rest) = (rest, w, True)"
  by (simp add: Scanln_def skip_word word_while)

text \<open>Two words on a line.\<close>

lemma Scanln_two_words:
  "is_word w \<Longrightarrow> \<not> is_space c \<Longrightarrow> Scanln (w @ CHR '' '' # c # rest) = (rest, w, False)"
  using is_space_chars(1) by (auto simp: Scanln_def skip_word word_while)

lemma skip_space_shorter: "length (fst (skip_space inp)) \<le> length inp" "inp \<noteq> [] \<Longrightarrow> \<not> snd (skip_space inp) \<Longrightarrow> length (fst (skip_space inp)) < length inp"
  "snd (skip_space inp) \<Longrightarrow> fst (skip_space inp) \<noteq> [] \<and> \<not> is_space (hd (fst (skip_space inp)))"
  by (induction inp rule: skip_space.induct) (auto simp: less_Suc_eq_le split: if_splits)

lemma scan_end_shorter: "length (fst (scan_end r)) \<le> length r"
  by (induction r rule: scan_end.induct) auto

text \<open>Every call consumes something as long as there is input.\<close>

lemma Scanln_shorter:
  assumes "inp \<noteq> []" "Scanln inp = (r, w, ok)"
  shows "length r < length inp"
proof -
  obtain r1 b where s: "skip_space inp = (r1, b)" by fastforce
  show ?thesis
  proof (cases b)
    case True
    then have "r1 \<noteq> []" "\<not> is_space (hd r1)" "length r1 \<le> length inp" using skip_space_shorter [of inp] s by auto
    then have "length (dropWhile (\<lambda>c. \<not> is_space c) r1) < length r1"
      by (cases r1) (auto simp: le_imp_less_Suc length_dropWhile_le)
    with scan_end_shorter [of "dropWhile (\<lambda>c. \<not> is_space c) r1"] show ?thesis
      using assms(2) s True \<open>length r1 \<le> length inp\<close> by (auto simp: Scanln_def split: prod.splits)
  next
    case False
    then show ?thesis using assms skip_space_shorter(2) [OF assms(1)] s by (auto simp: Scanln_def)
  qed
qed

lemma Scanln_stored_word: "Scanln inp = (r, w, ok) \<Longrightarrow> \<forall>c \<in> set w. \<not> is_space c"
  by (auto simp: Scanln_def split: prod.splits bool.splits dest: set_takeWhileD)

section \<open>Commands\<close>

record console_host =
  hasPayments :: bool \<comment> \<open>whether the payment service and the wallet were started\<close>
  channelBalances :: "bool \<Rightarrow> int option list option" \<comment> \<open>of the active channels, as capacity or as balance\<close>
  masterchain_ok :: bool
  walletBalance :: "int option"
  ParseAddr :: "string \<Rightarrow> bytes option"
  FromTON :: "string \<Rightarrow> int option"
  TransferWaitTransaction :: "bytes \<Rightarrow> int \<Rightarrow> string \<Rightarrow> bytes option"

datatype console_line =
    InputFailure
  | StatsLine bytes string string string "int list" string string
  | SpeedLine bytes string string string
  | PaymentsNotEnabled | ListChannelsFailed | ChannelBalanceFailed
  | SummarizedBalance int | CapacityLeft int
  | MasterchainFailed | WalletBalanceFailed | WalletBalance int
  | BadAddress | BadAmount | Transfer bytes int string | TransferFailed | TransferCommitted bytes

definition stats_lines :: "(bytes, section_stats) gomap \<Rightarrow> console_line list" where
  "stats_lines stats = map (\<lambda>(s, st). StatsLine s (formatNum (Routed st)) (formatNum (section_stats.Sent st)) (formatNum (Received st))
     (PrepaidPacketsRoute st) (formatNumInt (statPrepaidOut st)) (formatNumInt (statPrepaidIn st))) stats"

text \<open>A section that was not there a second ago has no speed.\<close>

definition speed_lines :: "(bytes, section_stats) gomap \<Rightarrow> (bytes, section_stats) gomap \<Rightarrow> console_line list" where
  "speed_lines prev stats = List.map_filter (\<lambda>(s, st). case map_of prev s of None \<Rightarrow> None
     | Some p \<Rightarrow> Some (SpeedLine s (formatNum (Routed st - Routed p) @ ''/s'') (formatNum (section_stats.Sent st - section_stats.Sent p) @ ''/s'')
         (formatNum (Received st - Received p) @ ''/s''))) stats"

definition balance_command :: "console_host \<Rightarrow> bool \<Rightarrow> console_line list" where
  "balance_command H capacity =
     (if \<not> hasPayments H then [PaymentsNotEnabled]
      else case channelBalances H capacity of None \<Rightarrow> [ListChannelsFailed]
        | Some bs \<Rightarrow> map (\<lambda>_. ChannelBalanceFailed) (filter (\<lambda>b. b = None) bs) @
            [if capacity then CapacityLeft (summarized_balance bs) else SummarizedBalance (summarized_balance bs)])"

definition wallet_balance_command :: "console_host \<Rightarrow> console_line list" where
  "wallet_balance_command H =
     (if \<not> hasPayments H then [PaymentsNotEnabled]
      else if \<not> masterchain_ok H then [MasterchainFailed]
      else case walletBalance H of None \<Rightarrow> [WalletBalanceFailed] | Some b \<Rightarrow> [WalletBalance b])"

text \<open>The errors of the three inner \<open>Scanln\<close> are ignored: what was stored is used.\<close>

definition transfer_command :: "console_host \<Rightarrow> string \<Rightarrow> string \<times> console_line list" where
  "transfer_command H inp =
     (if \<not> hasPayments H then (inp, [PaymentsNotEnabled])
      else case Scanln inp of (r1, addrStr, _) \<Rightarrow>
        (case ParseAddr H addrStr of None \<Rightarrow> (r1, [BadAddress])
         | Some addr \<Rightarrow>
             (case Scanln r1 of (r2, strAmt, _) \<Rightarrow>
                (case FromTON H strAmt of None \<Rightarrow> (r2, [BadAmount])
                 | Some amt \<Rightarrow>
                     (case Scanln r2 of (r3, comment, _) \<Rightarrow>
                        (r3, [Transfer addr amt comment,
                              case TransferWaitTransaction H addr amt comment of None \<Rightarrow> TransferFailed | Some h \<Rightarrow> TransferCommitted h]))))))"

text \<open>
  The printers of speeds: each \<open>speed\<close> command that finds the current context cancelled makes a new
  one and starts a goroutine; the next one cancels it. A goroutine first takes the statistics, then
  repeats: it reads the variable \<open>speedPrinterCtx\<close> and waits, on the context it read, for its end or
  for a second. Contexts are numbered; all but the last are cancelled.
\<close>

datatype printer =
    Starting
  | Looping "(bytes, section_stats) gomap"
  | Selecting nat "(bytes, section_stats) gomap"
  | PrinterEnded

record console =
  ctxNum :: nat
  ctxDone :: bool
  printers :: "printer list"

definition console_start :: console where
  "console_start = \<lparr>ctxNum = 0, ctxDone = True, printers = []\<rparr>"

definition speed_command :: "console \<Rightarrow> console" where
  "speed_command c = (if ctxDone c then c\<lparr>ctxNum := ctxNum c + 1, ctxDone := False, printers := printers c @ [Starting]\<rparr>
     else c\<lparr>ctxDone := True\<rparr>)"

definition console_command ::
  "console_host \<Rightarrow> 'a gateway_scheme \<Rightarrow> string \<Rightarrow> string \<Rightarrow> console \<Rightarrow> console \<times> string \<times> console_line list" where
  "console_command H g cmd inp c =
     (if cmd = ''speed'' then (speed_command c, inp, [])
      else if cmd = ''stats'' then (c, inp, stats_lines (GetPacketsStats g))
      else if cmd = ''balance'' \<or> cmd = ''capacity'' then (c, inp, balance_command H (cmd = ''capacity''))
      else if cmd = ''wallet-ton-balance'' then (c, inp, wallet_balance_command H)
      else if cmd = ''wallet-ton-transfer'' then (case transfer_command H inp of (r, ls) \<Rightarrow> (c, r, ls))
      else (c, inp, []))"

definition console_pass ::
  "console_host \<Rightarrow> 'a gateway_scheme \<Rightarrow> string \<Rightarrow> console \<Rightarrow> console \<times> string \<times> console_line list" where
  "console_pass H g inp c =
     (case Scanln inp of
        (r, _, False) \<Rightarrow> (c, r, [InputFailure])
      | (r, cmd, True) \<Rightarrow> console_command H g cmd r c)"

text \<open>One step of the printer with number \<open>i\<close>; \<open>timer\<close> chooses between a second that passed and the end of the context.\<close>

definition printer_step :: "'a gateway_scheme \<Rightarrow> nat \<Rightarrow> bool \<Rightarrow> console \<Rightarrow> (console \<times> console_line list) option" where
  "printer_step g i timer c =
     (if length (printers c) \<le> i then None
      else case printers c ! i of
        Starting \<Rightarrow> Some (c\<lparr>printers := (printers c)[i := Looping (GetPacketsStats g)]\<rparr>, [])
      | Looping prev \<Rightarrow> Some (c\<lparr>printers := (printers c)[i := Selecting (ctxNum c) prev]\<rparr>, [])
      | Selecting k prev \<Rightarrow>
          if timer then Some (c\<lparr>printers := (printers c)[i := Looping (GetPacketsStats g)]\<rparr>, speed_lines prev (GetPacketsStats g))
          else if k < ctxNum c \<or> ctxDone c then Some (c\<lparr>printers := (printers c)[i := PrinterEnded]\<rparr>, [])
          else None
      | PrinterEnded \<Rightarrow> None)"

section \<open>The loop over the input\<close>

lemma transfer_command_shorter: "length (fst (transfer_command H inp)) \<le> length inp"
proof -
  have s: "length r \<le> length i" if "Scanln i = (r, w, ok)" for i r w ok
    using that Scanln_shorter [of i r w ok] by (cases "i = []") (auto simp: Scanln_def less_imp_le)
  obtain r1 w1 b1 where 1: "Scanln inp = (r1, w1, b1)" by (metis prod_cases3)
  obtain r2 w2 b2 where 2: "Scanln r1 = (r2, w2, b2)" by (metis prod_cases3)
  obtain r3 w3 b3 where 3: "Scanln r2 = (r3, w3, b3)" by (metis prod_cases3)
  show ?thesis using s [OF 1] s [OF 2] s [OF 3] by (simp add: transfer_command_def 1 2 3 split: option.split)
qed

lemma console_pass_shorter:
  assumes "inp \<noteq> []" "console_pass H g inp c = (c', r, ls)"
  shows "length r < length inp"
proof -
  obtain r0 cmd ok where s: "Scanln inp = (r0, cmd, ok)" by (metis prod_cases3)
  note l = Scanln_shorter [OF assms(1) s]
  show ?thesis using assms(2) l transfer_command_shorter [of H r0]
    by (auto simp: console_pass_def s console_command_def split: bool.splits if_splits prod.splits)
qed

text \<open>The host and the gateway as the passes find them; at the end of the input every further pass fails.\<close>

function console_run :: "(nat \<Rightarrow> console_host \<times> 'a gateway_scheme) \<Rightarrow> nat \<Rightarrow> string \<Rightarrow> console \<Rightarrow> console \<times> console_line list" where
  "console_run W n inp c =
     (if inp = [] then (c, [])
      else case console_pass (fst (W n)) (snd (W n)) inp c of
        (c', r, ls) \<Rightarrow> (case console_run W (Suc n) r c' of (c'', ls') \<Rightarrow> (c'', ls @ ls')))"
  by auto
termination by (relation "measure (\<lambda>(_, _, inp, _). length inp)") (auto dest: console_pass_shorter [OF _ sym])

declare console_run.simps [simp del]

text \<open>A closed standard input is a pass that fails and changes nothing, again and again.\<close>

lemma console_pass_eof: "console_pass H g [] c = (c, [], [InputFailure])"
  by (simp add: console_pass_def Scanln_def)

section \<open>Transfers\<close>

text \<open>What must have been read for a transfer: the command, then an address, an amount and a comment.\<close>

definition asks_transfer :: "console_host \<Rightarrow> string \<Rightarrow> bytes \<Rightarrow> int \<Rightarrow> string \<Rightarrow> bool" where
  "asks_transfer H inp addr amt comment \<longleftrightarrow> hasPayments H \<and>
     (\<exists>r a r1 m r2 r3 ok1 ok2 ok3. Scanln inp = (r, ''wallet-ton-transfer'', True) \<and> Scanln r = (r1, a, ok1) \<and> ParseAddr H a = Some addr \<and>
        Scanln r1 = (r2, m, ok2) \<and> FromTON H m = Some amt \<and> Scanln r2 = (r3, comment, ok3))"

lemma no_transfer_lines:
  "Transfer addr amt comment \<notin> set (stats_lines st)" "Transfer addr amt comment \<notin> set (balance_command H b)"
  "Transfer addr amt comment \<notin> set (wallet_balance_command H)"
  by (auto simp: stats_lines_def balance_command_def wallet_balance_command_def split: option.split)

lemma transfer_command_line:
  assumes "transfer_command H inp = (r, ls)" "Transfer addr amt comment \<in> set ls"
  shows "hasPayments H \<and> (\<exists>a r1 m r2 r3 ok1 ok2 ok3. Scanln inp = (r1, a, ok1) \<and> ParseAddr H a = Some addr \<and>
    Scanln r1 = (r2, m, ok2) \<and> FromTON H m = Some amt \<and> Scanln r2 = (r3, comment, ok3))"
proof -
  obtain r1 w1 b1 where 1: "Scanln inp = (r1, w1, b1)" by (metis prod_cases3)
  obtain r2 w2 b2 where 2: "Scanln r1 = (r2, w2, b2)" by (metis prod_cases3)
  obtain r3 w3 b3 where 3: "Scanln r2 = (r3, w3, b3)" by (metis prod_cases3)
  show ?thesis using assms by (auto simp: transfer_command_def 1 2 3 split: if_splits option.splits)
qed

lemma console_command_transfer:
  assumes "console_command H g cmd r0 c = (c', r, ls)" "Transfer addr amt comment \<in> set ls"
  shows "cmd = ''wallet-ton-transfer'' \<and> ls = snd (transfer_command H r0)"
proof (cases "cmd = ''wallet-ton-transfer''")
  case True
  then show ?thesis using assms(1) by (simp add: console_command_def split: prod.splits)
next
  case False
  have "ls = [] \<or> ls = stats_lines (GetPacketsStats g) \<or> (\<exists>b. ls = balance_command H b) \<or> ls = wallet_balance_command H"
    using assms(1) unfolding console_command_def if_not_P [OF False] by (metis Pair_inject)
  then show ?thesis using assms(2) no_transfer_lines by auto
qed

lemma console_pass_transfer:
  assumes "console_pass H g inp c = (c', r, ls)" "Transfer addr amt comment \<in> set ls"
  shows "asks_transfer H inp addr amt comment"
proof -
  obtain r0 cmd ok where s: "Scanln inp = (r0, cmd, ok)" by (metis prod_cases3)
  have "ok" using assms by (cases ok) (auto simp: console_pass_def s)
  with assms(1) have "console_command H g cmd r0 c = (c', r, ls)" by (simp add: console_pass_def s)
  from console_command_transfer [OF this assms(2)] have c: "cmd = ''wallet-ton-transfer''" "ls = snd (transfer_command H r0)" by simp_all
  obtain r' where "transfer_command H r0 = (r', ls)" using c(2) by (metis prod.collapse)
  from transfer_command_line [OF this assms(2)] s c(1) \<open>ok\<close> show ?thesis by (auto simp: asks_transfer_def)
qed

lemma Scanln_suffix: "Scanln inp = (r, w, ok) \<Longrightarrow> suffix r inp"
proof -
  have 1: "suffix (fst (skip_space i)) i" for i by (induction i rule: skip_space.induct) (auto simp: suffix_ConsI)
  have 2: "suffix (fst (scan_end i)) i" for i by (induction i rule: scan_end.induct) (auto simp: suffix_ConsI)
  obtain r1 b where s: "skip_space inp = (r1, b)" by fastforce
  have "suffix r1 inp" using 1 [of inp] s by simp
  moreover have "suffix (fst (scan_end (dropWhile (\<lambda>c. \<not> is_space c) r1))) r1"
    using 2 suffix_dropWhile suffix_order.trans by blast
  ultimately show "Scanln inp = (r, w, ok) \<Longrightarrow> suffix r inp"
    by (auto simp: Scanln_def s split: bool.splits prod.splits intro: suffix_order.trans)
qed

lemma console_pass_suffix:
  assumes "console_pass H g inp c = (c', r, ls)"
  shows "suffix r inp"
proof -
  have t: "suffix (fst (transfer_command H i)) i" for i
  proof -
    obtain r1 w1 b1 where 1: "Scanln i = (r1, w1, b1)" by (metis prod_cases3)
    obtain r2 w2 b2 where 2: "Scanln r1 = (r2, w2, b2)" by (metis prod_cases3)
    obtain r3 w3 b3 where 3: "Scanln r2 = (r3, w3, b3)" by (metis prod_cases3)
    note x = Scanln_suffix [OF 1] Scanln_suffix [OF 2] Scanln_suffix [OF 3]
    then have "suffix r2 i" "suffix r3 i" by (blast intro: suffix_order.trans)+
    with x show ?thesis by (simp add: transfer_command_def 1 2 3 split: option.split)
  qed
  obtain r0 cmd ok where s: "Scanln inp = (r0, cmd, ok)" by (metis prod_cases3)
  show ?thesis using assms Scanln_suffix [OF s] t [of r0]
    by (auto simp: console_pass_def s console_command_def split: bool.splits if_splits prod.splits intro: suffix_order.trans)
qed

text \<open>
  C40. The console spends only what was asked for. Whatever is typed, every transfer the console
  ever makes answers the command for it, read at some place of the input as a line of its own: the
  words read next are the address and the amount of the transfer, both valid, and then its comment,
  and the wallet of the node is there.
\<close>

theorem console_transfers_asked:
  assumes "console_run W n inp c = (c', ls)" "Transfer addr amt comment \<in> set ls"
  shows "\<exists>k inp'. n \<le> k \<and> suffix inp' inp \<and> asks_transfer (fst (W k)) inp' addr amt comment"
  using assms
proof (induction W n inp c arbitrary: ls c' rule: console_run.induct)
  case (1 W n inp c)
  obtain c1 r ls1 where p: "console_pass (fst (W n)) (snd (W n)) inp c = (c1, r, ls1)" by (metis prod_cases3)
  obtain c2 ls2 where q: "console_run W (Suc n) r c1 = (c2, ls2)" by fastforce
  have ne: "inp \<noteq> []" and ls: "ls = ls1 @ ls2" using "1.prems" by (auto simp: console_run.simps [of W n inp c] p q split: if_splits)
  show ?case
  proof (cases "Transfer addr amt comment \<in> set ls1")
    case True
    then show ?thesis using console_pass_transfer [OF p] by (intro exI [of _ n] exI [of _ inp]) simp
  next
    case False
    then have "\<exists>k inp'. Suc n \<le> k \<and> suffix inp' r \<and> asks_transfer (fst (W k)) inp' addr amt comment"
      using "1.prems"(2) ls "1.IH" [OF ne p [symmetric] refl q] by simp
    then show ?thesis using console_pass_suffix [OF p] by (meson Suc_leD suffix_order.trans)
  qed
qed

definition demo_console :: console_host where
  "demo_console = \<lparr>hasPayments = True, channelBalances = (\<lambda>_. Some [Some 5, None, Some 7]), masterchain_ok = True, walletBalance = Some 90,
     ParseAddr = (\<lambda>a. if a = ''EQx'' then Some [1, 2] else None), FromTON = (\<lambda>m. if m = ''2'' then Some 2000000000 else None),
     TransferWaitTransaction = (\<lambda>_ _ _. Some [9])\<rparr>"

lemma demo_words: "is_word ''wallet-ton-transfer''" "is_word ''EQx''" "is_word ''2''" "is_word ''rent''"
  by (simp_all add: is_word_def is_space_def)

theorem console_transfers_asked_witness:
  "\<exists>c'. console_run (\<lambda>_. (demo_console, NewGateway [] True 0 0)) 0
      (''wallet-ton-transfer'' @ NL # ''EQx'' @ NL # ''2'' @ NL # ''rent'' @ [NL]) console_start
      = (c', [Transfer [1, 2] 2000000000 ''rent'', TransferCommitted [9]]) \<and>
    (\<exists>k inp'. asks_transfer (fst ((\<lambda>_. (demo_console, NewGateway [] True 0 0)) k)) inp' [1, 2] 2000000000 ''rent'')"
proof -
  let ?W = "\<lambda>_ :: nat. (demo_console, NewGateway [] True 0 0)" let ?out = "[Transfer [1, 2] 2000000000 ''rent'', TransferCommitted [9]]"
  define i where "i = ''wallet-ton-transfer'' @ NL # ''EQx'' @ NL # ''2'' @ NL # ''rent'' @ [NL]"
  have t: "transfer_command demo_console (''EQx'' @ NL # ''2'' @ NL # ''rent'' @ [NL]) = ([], ?out)"
    using Scanln_word [OF demo_words(2), of "''2'' @ NL # ''rent'' @ [NL]"] Scanln_word [OF demo_words(3), of "''rent'' @ [NL]"]
      Scanln_word [OF demo_words(4), of "[]"]
    by (simp add: transfer_command_def demo_console_def)
  then have "console_pass demo_console g i c = (c, [], ?out)" for g :: gateway and c
    using Scanln_word [OF demo_words(1), of "''EQx'' @ NL # ''2'' @ NL # ''rent'' @ [NL]"] by (simp add: i_def console_pass_def console_command_def)
  moreover have "i \<noteq> []" by (simp add: i_def)
  ultimately have r: "console_run ?W 0 i console_start = (console_start, ?out)"
    by (simp add: console_run.simps [of ?W 0 i] console_run.simps [of ?W "Suc 0" "[]"])
  from console_transfers_asked [OF this, of "[1, 2]" 2000000000 "''rent''"] r show ?thesis unfolding i_def by auto
qed

text \<open>
  A comment of several words: only its first word is sent with the transfer, and what follows the
  first character of the second word is read as the next command.
\<close>

lemma comment_cut:
  assumes "hasPayments H" "is_word a" "ParseAddr H a = Some addr" "is_word m" "FromTON H m = Some amt" "is_word w" "\<not> is_space x"
  shows "\<exists>l. transfer_command H (a @ NL # m @ NL # w @ CHR '' '' # x # rest) = (rest, [Transfer addr amt w, l])"
  using Scanln_word [OF assms(2), of "m @ NL # w @ CHR '' '' # x # rest"] Scanln_word [OF assms(4), of "w @ CHR '' '' # x # rest"]
    Scanln_two_words [OF assms(6,7), of rest] assms(1,3,5)
  by (simp add: transfer_command_def)

section \<open>Speeds\<close>

text \<open>
  A counter that went down, because the section was closed and another one opened under the same
  key within the second, is printed as an astronomical speed: the difference wraps around.
\<close>

lemma speed_wraps:
  assumes "uint (Routed st) < uint (Routed p)" "uint (Routed p) < 2 ^ 63"
  shows "uint (Routed st - Routed p) = 2 ^ 64 - (uint (Routed p) - uint (Routed st))"
    "\<exists>num. formatNum (Routed st - Routed p) = num @ '' B''"
proof -
  show u: "uint (Routed st - Routed p) = 2 ^ 64 - (uint (Routed p) - uint (Routed st))"
    using assms(1) by (simp add: uint_sub_if')
  have "(10 :: int) ^ 9 \<le> 2 ^ 64 - (a - b)" if "a < 2 ^ 63" "0 \<le> b" for a b using that by simp
  from this [OF assms(2) uint_ge_0 [of "Routed st"]] have "10 ^ 9 \<le> uint (Routed st - Routed p)" unfolding u .
  then have "unit_index (uint (Routed st - Routed p)) = 3" by (simp add: unit_index_def)
  then show "\<exists>num. formatNum (Routed st - Routed p) = num @ '' B''"
    using format_scaled_nonneg [of "uint (Routed st - Routed p)"] by (auto simp: formatNum_def sizes_def)
qed

text \<open>
  Switching the speeds off and on again within the second may leave two printers running: the old
  goroutine was printing while its context was cancelled, and the variable it reads next holds the
  new context already.
\<close>

lemma two_speed_printers:
  "\<exists>c2 c3 c4. printer_step g 0 timer (speed_command console_start) = Some (c2, []) \<and>
     printer_step g 0 timer (speed_command (speed_command c2)) = Some (c3, []) \<and> printer_step g 1 timer c3 = Some (c4, []) \<and>
     printers c4 = [Selecting (ctxNum c4) (GetPacketsStats g), Looping (GetPacketsStats g)] \<and> \<not> ctxDone c4"
  by (simp add: speed_command_def console_start_def printer_step_def)

text \<open>After the speeds are switched off, a printer that waits can always end.\<close>

lemma cancelled_printer_ends:
  "i < length (printers c) \<Longrightarrow> printers c ! i = Selecting k prev \<Longrightarrow> \<not> ctxDone c \<Longrightarrow>
     printer_step g i False (speed_command c) = Some ((speed_command c)\<lparr>printers := (printers c)[i := PrinterEnded]\<rparr>, [])"
  by (simp add: printer_step_def speed_command_def)

end
