(* ===== verification/Spec2Isabelle.thy ===== *)
theory Spec2Isabelle
  imports Reference_Safety Gauge_Accounting Reassembly Switchable_Tunnel Library_Start Node_Console
begin

text \<open>
  ADNL tunnel: a verification development of an onion-routed, prepaid UDP tunnel over ADNL, written
  in Go. All paths below are relative to \<open>src/\<close>.

  \<^bold>\<open>The program.\<close> A \<open>Gateway\<close> (\<open>tunnel/gateway.go\<close>) accepts encrypted messages from its peers. Each message
  names a section (the half of a relay that one initiator talks to) by a public key; the gateway
  decrypts the outer layer with the section's key, checks the sequence number against a replay
  window, and executes the instructions it finds: building routes to other gateways, forwarding the
  rest of the onion, caching the actions of the data path, binding a UDP socket that forms the exit
  of the tunnel, taking payments, and delivering a payload to a tunnel that starts at this gateway.
  The initiator (\<open>RegularOutTunnel\<close>, \<open>tunnel/regularOutTunnel.go\<close>) builds these messages: it configures
  the relays, writes and reads packets, pays every node through virtual payment channels and closes
  the tunnel. A client chooses its route from a pool of nodes (\<open>tunnel/setup.go\<close>), a server
  announces itself in the DHT (\<open>tunnel/dht.go\<close>), publishes its configuration (\<open>config/config.go\<close>,
  \<open>cmd/node/main.go\<close>) and its metrics (\<open>metrics/metrics.go\<close>) and obeys a console, and a C library (\<open>cmd/lib/lib.go\<close>) moves packets in batches across the C
  boundary.

  \<^bold>\<open>How the code is represented.\<close> Fixed-width integers are words, or \<open>int\<close> with the wrap-around written out
  by \<open>i64\<close>; byte slices are lists of 8-bit words; \<open>big.Int\<close> is \<open>int\<close>. Pointers are indices into stores of
  the state (peers, sections, payment channels, tunnels), because the code shares and aliases these
  objects. A Go map is an association list with distinct keys. Every error return and every panic is
  a value of \<open>go_error\<close>. Functions that can fail after they changed the state return the changed state
  together with the error. What the code calls outside the repository is an argument: \<open>crypto\<close> (key
  exchange, AES-CTR), \<open>tlcodec\<close> (the reflective TL codec of one instruction or payload), \<open>env\<close> (clock,
  random source, ADNL gateway, DHT, sockets, locks, payment service), \<open>host\<close> and \<open>pay_host\<close>
  (key hashing, clock and payment service as the initiator uses them), \<open>setup_host\<close> and \<open>chain_view\<close>
  (random choices, user decision, payment channels on chain), \<open>dht_host\<close>, \<open>coin_service\<close>, \<open>run_host\<close> and
  \<open>pay_startup\<close> (the packages a client starts), \<open>os\<close>, \<open>json\<close>, \<open>port_checker\<close> and \<open>node_host\<close> (files, JSON, the address checker
  and the packages a node starts), \<open>console_host\<close> (wallet, payment service and parsers of the console), the
  predicate by which the registry of metrics accepts a collector. Their answers are
  arbitrary and may depend on the calls made so far, which the state records in \<open>outputs\<close>. The
  properties that need a law of such a parameter state it as a hypothesis; the witnesses instantiate
  the parameters with concrete functions for which the laws hold.

  \<^bold>\<open>The theories.\<close>

  \<^item> \<open>Tunnel_Prelude\<close>: integers, bytes, \<open>encoding/binary\<close>, errors, maps (locale \<open>go_map\<close>), loops that
    stop at the first error (locale \<open>fallible_loop\<close>).
  \<^item> \<open>Seqno_Window\<close>: \<open>tunnel/seqno.go\<close>. The eight-word bit window refines a set of known numbers; no number
    is accepted twice unless the counter wraps (locale \<open>replay_filter\<close>); numbers in order are accepted;
    how the wrap defeats the window.
  \<^item> \<open>Stream_Cipher\<close>: \<open>encryptStream\<close>, \<open>decryptStream\<close>, the CRC-64 and the keys (\<open>tunnel/keys.go\<close>).
    Round trip, and detection of a changed byte.
  \<^item> \<open>Wire_Format\<close>: \<open>Parse\<close> and \<open>Serialize\<close> of instruction containers and nested caches, \<open>decryptMessage\<close>,
    \<open>EncryptInstructionsMessage\<close>, payloads. Round trips, safety on arbitrary bytes, onion layers.
  \<^item> \<open>Peer_Table\<close>: \<open>tunnel/peer.go\<close>. Peers, connections, discovery, reference counting (locale \<open>ref_counted\<close>).
  \<^item> \<open>Tunnel_State\<close>: the structs of \<open>tunnel/gateway.go\<close>, closing of routes, outs and sections, and the
    gateway's invariant \<open>gw_inv\<close>.
  \<^item> \<open>Route_Instructions\<close>, \<open>Payment_Instruction\<close>, \<open>Out_Gateway\<close>: the instructions of
    \<open>tunnel/instructions.go\<close>. Forwarding and charging, building routes, the cache, payments and the
    credit they grant, the exit socket.
  \<^item> \<open>Gateway\<close>, \<open>Gateway_Safety\<close>: dispatch, \<open>messageHandler\<close>, the keep-alive loop, asynchronous tasks, as
    the step relation \<open>gw_step\<close>; the invariant in every reachable state; no message runs twice; the
    behaviours in which the code fails.
  \<^item> \<open>Section_Frames\<close>: what one event changes in the sections of a gateway. Locale \<open>section_frame\<close> lifts a relation
    that the single operations keep to whole handlers; locale \<open>section_account\<close> carries a quantity that is summed over
    the live sections through every event.
  \<^item> \<open>Reference_Accounting\<close>, \<open>Reference_Safety\<close>: reference counters equal the number of holders in every
    run without the two failing behaviours (an instance of \<open>section_account\<close>).
  \<^item> \<open>Gauge_Accounting\<close>: the other instance. The published numbers of sections and of paid and free routes are
    exact; why that of the out gateways is not.
  \<^item> \<open>Payment_Chain\<close>: \<open>buildTunnelPaymentsChain\<close>.
  \<^item> \<open>Out_Tunnel\<close>, \<open>Out_Tunnel_Safety\<close>: \<open>CreateRegularOutTunnel\<close>, the configuring and closing messages,
    \<open>Process\<close>, \<open>WriteTo\<close>, \<open>ReadFrom\<close>, \<open>Stop\<close>. The contract with the gateway, the layers of the messages
    (locale \<open>layering\<close>, one instance per kind of message), what a relay has after executing its layer, packets end to end,
    the limit of prepaid packets.
  \<^item> \<open>Reassembly\<close>: \<open>resolveSection\<close> and \<open>ReassembleInstructions\<close>. A reassembled configuring message opens to the
    same instructions along both chains, with the next counter values and the same length.
  \<^item> \<open>Tunnel_Payments\<close>, \<open>Tunnel_Payments_Safety\<close>: virtual channels, control messages, the control sender,
    \<open>CalcPaidAmount\<close>. Nothing is signed beyond a channel's capacity, and payments are atomic.
  \<^item> \<open>Route_Setup\<close>: \<open>tunnel/setup.go\<close>, choice of a route, conversion of the configuration (locale
    \<open>conversion\<close>), payment channels of a route, \<open>configureRoute\<close>.
  \<^item> \<open>Client_Safety\<close>: the client as a whole, its gateway and tunnels together, as the step relation \<open>client_step\<close>,
    with the invariant \<open>client_inv\<close>.
  \<^item> \<open>Tunnel_Runner\<close>: \<open>RunTunnel\<close>, \<open>preparePayerPayments\<close> and \<open>WaitForInit\<close>. What the start-up opens is released in
    reverse, the supervising loop (\<open>runner_step\<close>) uses one tunnel at a time, waiting ends.
  \<^item> \<open>Switchable_Tunnel\<close>: \<open>tunnel/atomicTun.go\<close>, the whole of \<open>Stop\<close>, the address and deadlines of \<open>net.PacketConn\<close>.
  \<^item> \<open>Overlay_Dht\<close>: \<open>updateDHT\<close> and \<open>DiscoverNodes\<close>.
  \<^item> \<open>Client_Library\<close>: packet batches of \<open>cmd/lib/lib.go\<close>.
  \<^item> \<open>Config_Files\<close>: \<open>config/config.go\<close>. Contents and defaults of the configuration files, loading, generating and
    saving them, the check of the own address. A loaded configuration is loaded again unchanged.
  \<^item> \<open>Node_Setup\<close>: \<open>GenerateSharedConfig\<close> and \<open>cmd/node/main.go\<close>: the start-up and its checks, the payment node, the
    prices of the gateway, the choice of the payment channel.
  \<^item> \<open>Library_Start\<close>: \<open>PrepareTunnel\<close> of \<open>cmd/lib/lib.go\<close>: the client's configuration, and the goroutine that consumes
    the tunnel's events beside the caller that waits for the first one; the log callback.
  \<^item> \<open>Number_Format\<close>: \<open>formatNum\<close> and \<open>formatNumInt\<close> of \<open>cmd/node/main.go\<close>: \<open>float64\<close> as rationals rounded to 53 bits,
    the loop over the units, the printed digits, and how far they are from the number.
  \<^item> \<open>Metrics\<close>: \<open>metrics/metrics.go\<close> and \<open>speedMetricsUpdater\<close>. Registration happens once; the counters add up to
    the packets of the gateway.
  \<^item> \<open>Gateway_Service\<close>: \<open>Start\<close> and \<open>Stop\<close> of the gateway, its goroutines, the loop that announces it in the DHT,
    \<open>logOnce\<close>. An announcement is renewed before it expires.
  \<^item> \<open>Node_Console\<close>: what \<open>main\<close> of \<open>cmd/node/main.go\<close> sets up for logging and metrics, \<open>fmt.Scanln\<close>, the commands of the
    console and the goroutines that print speeds. The console transfers only what was asked for.
  \<^item> This theory: the invariant of the whole client.

  \<^bold>\<open>Bounds and recursion.\<close> Every definition is total. The parser of nested caches recurses on a
  bound, the number of input bytes; a nested cache consumes input, and it is proved that
  the bound is never exhausted. Reassembling recurses on a bound in the same way, the number of bytes
  of the message, with the same proof. Waiting for the tunnel and stopping it run through the list of
  the answers their environment gives, one per pass. The payment chain makes the ten passes of the code, and both
  outcomes (settled or not) have a property. The search for a route makes at most the 51 tries of
  the code. The payment properties of the initiator assume \<open>packetsToPrepay * 30 < 2^63\<close>, which holds
  for the code's 200000, so that the number of packets a channel still covers fits an \<open>int64\<close>. The
  batch properties assume \<open>MaxMTU < 65536\<close>, because a length is written in two bytes. The reference
  counting properties assume fewer than \<open>2^60\<close> sections, so that a counter cannot wrap. The
  property of the packet counters assumes fewer than \<open>2^53\<close> packets, the numbers a \<open>float64\<close> holds exactly.
  The console runs until its input is used up, and every pass uses some of it; the announcements run through
  the list of the passes with the time each of them takes.

  \<^bold>\<open>Concurrency.\<close> A handler that the code runs under the section's lock is one step. What the code
  hands to a goroutine (discovery, the kill of a peer, closing a payment channel, reading the exit
  socket) is a separate step that may run at any later time, and discovery is split at its blocking
  lookup. Interleavings inside one handler and the Go memory model are not modelled.

  \<^bold>\<open>Not modelled.\<close> The text of log lines and where they go; the inside of the Prometheus registry, in
  particular the panic of a counter on a negative value, which \<open>Metrics\<close> only shows to be possible; the web
  hooks of the payment node; parsing of the command line, rotation of log files and the two HTTP servers; in
  \<open>cmd/lib/lib.go\<close> the C memory behind a pointer; the text form of IPv6 addresses, which is a parameter;
  \<open>requestCheckPeers\<close>, which nothing calls, and the routine of \<open>tunnel/seqno.go\<close> that is commented out.
\<close>

section \<open>The whole client\<close>


lemma demo_client_configures:
  "\<exists>nodes' attempts' ds' s' t. configureRoute demo_setup (host.truncate demo_pay_host) demo_crypto demo_env demo_chain_view
     \<lparr>TunnelSectionsNum = 2, PaymentsEnabled = False\<rparr> demo_pool {} [] (client_start [9] True 0 0) = (nodes', attempts', ds', s', Inr t)"
  by (simp add: configureRoute_def choose_route.simps assemble_def end_at_entry_def demo_setup_def demo_pool_def demo_host_def
      paymentConfigToSections_def PublicKeySize_def GenerateEncryptionKeys_def NewEncryptionKeys_def demo_crypto_def
      CreateRegularOutTunnel_def checkAndDeployPaymentChannels_def Uint32_def Let_def AcceptorDecisionAccept_def
      route_name_def client_start_def NewGateway_def gateway.defs tun_gateway.defs demo_pay_host_def host.defs pay_host.defs
      split: prod.splits)


end
